(* ===== verification/Prelude.thy ===== *)
theory Prelude
  imports Main "HOL-Library.Word"
begin

text \<open>
  Shared vocabulary of the development: bytes (\<open>uint8_t\<close>), the conversion between bytes and
  the characters of a \<open>std::string\<close>, the 16-bit big-endian fields of the TFTP packets, and
  the functions of the C and C++ libraries the sources call on strings: \<open>tolower\<close>
  (in the C locale, which the programs never change), \<open>std::stoi\<close>, \<open>std::stoll\<close>,
  \<open>std::stoull\<close> and \<open>std::to_string\<close>.
  The named collections \<open>wire\<close> (facts about encodings) and \<open>cstring\<close> (facts about strings)
  are used by the component theories.
\<close>

named_theorems wire "encodings of bytes and 16-bit fields"
named_theorems cstring "strings without NUL and their terminated encodings"

section \<open>Bytes and characters\<close>

type_synonym byte = "8 word"
type_synonym bytes = "8 word list"

definition byte_of_char :: "char \<Rightarrow> byte" where
  "byte_of_char c = of_nat (of_char c)"

definition char_of_byte :: "byte \<Rightarrow> char" where
  "char_of_byte b = char_of (unat b)"

lemma unat_byte_less [simp]: "unat (b :: byte) < 256"
proof -
  have "unat b < 2 ^ LENGTH(8)" by (rule unsigned_less)
  then show ?thesis by simp
qed

lemma unat_word16_less [simp]: "unat (w :: 16 word) < 65536"
proof -
  have "unat w < 2 ^ LENGTH(16)" by (rule unsigned_less)
  then show ?thesis by simp
qed

lemma char_of_byte_inverse [simp, wire]: "byte_of_char (char_of_byte b) = b"
  by (simp add: byte_of_char_def char_of_byte_def)

lemma byte_of_char_inverse [simp, wire]: "char_of_byte (byte_of_char c) = c"
proof -
  have "unat (of_nat (of_char c) :: byte) = (of_char c :: nat)"
    by (simp add: unat_of_nat)
  then show ?thesis by (simp add: byte_of_char_def char_of_byte_def)
qed

lemma byte_of_char_inject [simp]: "byte_of_char c = byte_of_char d \<longleftrightarrow> c = d"
  by (metis byte_of_char_inverse)

definition bytes_of :: "string \<Rightarrow> bytes" where
  "bytes_of s = map byte_of_char s"

definition string_of :: "bytes \<Rightarrow> string" where
  "string_of bs = map char_of_byte bs"

lemma string_of_bytes_of [simp, wire]: "string_of (bytes_of s) = s"
  by (simp add: string_of_def bytes_of_def comp_def)

lemma bytes_of_string_of [simp, wire]: "bytes_of (string_of b) = b"
  by (simp add: string_of_def bytes_of_def comp_def)

lemma length_bytes_of [simp]: "length (bytes_of s) = length s"
  by (simp add: bytes_of_def)

lemma bytes_of_append [simp]: "bytes_of (s @ t) = bytes_of s @ bytes_of t"
  by (simp add: bytes_of_def)

section \<open>16-bit fields, big endian\<close>

text \<open>\<open>(b[0] << 8) + b[1]\<close> converted to \<open>uint16_t\<close>, and the two bytes \<open>w >> 8\<close>, \<open>w\<close>.\<close>

definition be16 :: "byte \<Rightarrow> byte \<Rightarrow> 16 word" where
  "be16 hi lo = push_bit 8 (ucast hi) + ucast lo"

definition hi8 :: "16 word \<Rightarrow> byte" where
  "hi8 w = ucast (drop_bit 8 w)"

definition lo8 :: "16 word \<Rightarrow> byte" where
  "lo8 w = ucast w"

lemma unat_be16: "unat (be16 hi lo) = 256 * unat hi + unat lo"
proof -
  have a: "unat hi < 256" "unat lo < 256" by simp_all
  have m: "(256 * (h mod 65536) mod 65536 + l mod 65536) mod 65536 = 256 * h + l"
    if "h < 256" "l < 256" for h l :: nat
    using that by simp
  show ?thesis
    using m [OF a] by (simp add: be16_def push_bit_eq_mult unat_word_ariths
        unsigned_ucast_eq take_bit_eq_mod mult.commute)
qed

lemma unat_hi8_lo8: "unat (hi8 w) = unat w div 256" "unat (lo8 w) = unat w mod 256"
proof -
  have "unat w < 65536" by simp
  then have "unat w div 256 < 256" by linarith
  then show "unat (hi8 w) = unat w div 256"
    by (simp add: hi8_def drop_bit_eq_div unsigned_ucast_eq take_bit_eq_mod unat_div)
  show "unat (lo8 w) = unat w mod 256" by (simp add: lo8_def unsigned_ucast_eq take_bit_eq_mod)
qed

lemma be16_hi8_lo8 [simp, wire]: "be16 (hi8 w) (lo8 w) = w"
  by (rule word_unat_eq_iff [THEN iffD2]) (simp add: unat_be16 unat_hi8_lo8)

lemma hi8_lo8_be16 [simp, wire]: "hi8 (be16 h l) = h" "lo8 (be16 h l) = l"
  by (rule word_unat_eq_iff [THEN iffD2], simp add: unat_be16 unat_hi8_lo8)+

section \<open>NUL-terminated strings\<close>

text \<open>\<open>StringToVectorNullTerminated\<close> (src/common/utils/utils.cpp).\<close>

definition StringToVectorNullTerminated :: "string \<Rightarrow> bytes" where
  "StringToVectorNullTerminated str = bytes_of str @ [0]"

text \<open>The bytes before the first NUL, as \<open>std::find(.., '\0')\<close> and the copy loops take them.\<close>

definition until_nul :: "bytes \<Rightarrow> bytes" where
  "until_nul bs = takeWhile (\<lambda>b. b \<noteq> 0) bs"

definition from_nul :: "bytes \<Rightarrow> bytes" where
  "from_nul bs = dropWhile (\<lambda>b. b \<noteq> 0) bs"

definition nul_free :: "string \<Rightarrow> bool" where
  "nul_free s = (\<forall>c \<in> set s. byte_of_char c \<noteq> 0)"

lemma nul_free_simps [simp, cstring]:
  "nul_free []"
  "nul_free (c # s) \<longleftrightarrow> byte_of_char c \<noteq> 0 \<and> nul_free s"
  "nul_free (s @ t) \<longleftrightarrow> nul_free s \<and> nul_free t"
  by (auto simp: nul_free_def)

lemma until_nul_terminated [simp, cstring]:
  "nul_free s \<Longrightarrow> until_nul (StringToVectorNullTerminated s @ r) = bytes_of s"
  by (induction s)
    (auto simp: until_nul_def StringToVectorNullTerminated_def bytes_of_def)

lemma from_nul_terminated [simp, cstring]:
  "nul_free s \<Longrightarrow> from_nul (StringToVectorNullTerminated s @ r) = 0 # r"
  by (induction s)
    (auto simp: from_nul_def StringToVectorNullTerminated_def bytes_of_def)

lemma from_nul_shorter: "from_nul bs = b # r \<Longrightarrow> length r < length bs"
  by (metis Suc_le_eq from_nul_def length_Cons length_dropWhile_le)

lemma from_nul_Cons: "from_nul bs = b # r \<Longrightarrow> b = 0 \<and> bs = until_nul bs @ 0 # r"
proof -
  assume a: "from_nul bs = b # r"
  then have "b = 0" by (auto simp: from_nul_def dropWhile_eq_Cons_conv)
  moreover have "bs = until_nul bs @ from_nul bs" by (simp add: from_nul_def until_nul_def)
  ultimately show ?thesis using a by simp
qed

lemma nul_free_until_nul [simp, cstring]: "nul_free (string_of (until_nul bs))"
  by (auto simp: nul_free_def string_of_def until_nul_def dest: set_takeWhileD)

lemma length_terminated [simp]: "length (StringToVectorNullTerminated s) = Suc (length s)"
  by (simp add: StringToVectorNullTerminated_def)

lemma terminated_not_Nil [simp]: "StringToVectorNullTerminated s \<noteq> []"
  by (simp add: StringToVectorNullTerminated_def)

section \<open>Characters of the C locale\<close>

definition tolower :: "char \<Rightarrow> char" where
  "tolower c = (let n = (of_char c :: nat) in
     if 65 \<le> n \<and> n \<le> 90 then char_of (n + 32) else c)"

definition isspace :: "char \<Rightarrow> bool" where
  "isspace c = (let n = (of_char c :: nat) in n = 32 \<or> (9 \<le> n \<and> n \<le> 13))"

definition isdigit :: "char \<Rightarrow> bool" where
  "isdigit c = (let n = (of_char c :: nat) in 48 \<le> n \<and> n \<le> 57)"

definition digit_val :: "char \<Rightarrow> nat" where
  "digit_val c = of_char c - 48"

lemma of_char_char_of_small: "n < 256 \<Longrightarrow> (of_char (char_of n :: char) :: nat) = n"
  by simp

lemma tolower_idem [simp, cstring]: "tolower (tolower c) = tolower c"
  by (auto simp: tolower_def Let_def)

lemma tolower_comp [simp]: "tolower \<circ> tolower = tolower"
  by (simp add: fun_eq_iff)

lemma map_tolower_idem [simp, cstring]: "map tolower (map tolower s) = map tolower s"
  by simp

lemma byte_of_char_zero: "byte_of_char c = 0 \<longleftrightarrow> c = char_of (0::nat)"
proof -
  have "byte_of_char (char_of (0::nat)) = 0" by (simp add: byte_of_char_def)
  then show ?thesis by (metis byte_of_char_inject)
qed

lemma nul_free_map_tolower [simp, cstring]: "nul_free (map tolower s) \<longleftrightarrow> nul_free s"
proof -
  have "tolower c = char_of (0::nat) \<longleftrightarrow> c = char_of (0::nat)" for c
    by (auto simp: tolower_def Let_def dest: arg_cong [where f = "of_char :: char \<Rightarrow> nat"])
  then show ?thesis by (auto simp: nul_free_def byte_of_char_zero)
qed

section \<open>Numbers in strings\<close>

text \<open>
  \<open>strtol\<close> and its kin in base 10, on the characters of the string (the C functions stop at
  the first character that does not fit, a NUL included): leading white space, one optional
  sign, then at least one digit; what follows is ignored. \<open>None\<close> is "no conversion".
  The result is the sign (\<open>True\<close> for a minus) and the magnitude, before any range check.
\<close>

definition digits_value :: "string \<Rightarrow> nat" where
  "digits_value ds = foldl (\<lambda>n d. 10 * n + digit_val d) 0 ds"

definition strip_sign :: "string \<Rightarrow> bool \<times> string" where
  "strip_sign s = (case s of
     [] \<Rightarrow> (False, [])
   | c # cs \<Rightarrow> (if c = CHR ''-'' then (True, cs) else if c = CHR ''+'' then (False, cs) else (False, s)))"

definition strto_integer :: "string \<Rightarrow> (bool \<times> nat) option" where
  "strto_integer s =
     (let (neg, r) = strip_sign (dropWhile isspace s);
          ds = takeWhile isdigit r
      in if ds = [] then None else Some (neg, digits_value ds))"

text \<open>The two exceptions of \<open>std::stoi\<close>, \<open>std::stoll\<close> and \<open>std::stoull\<close>.\<close>

datatype sto_error = std_invalid_argument | std_out_of_range

definition signed_value :: "bool \<Rightarrow> nat \<Rightarrow> int" where
  "signed_value neg n = (if neg then - int n else int n)"

definition stoi :: "string \<Rightarrow> sto_error + int" where
  "stoi s = (case strto_integer s of
     None \<Rightarrow> Inl std_invalid_argument
   | Some (neg, n) \<Rightarrow>
       (let v = signed_value neg n in
        if - (2 ^ 31) \<le> v \<and> v < 2 ^ 31 then Inr v else Inl std_out_of_range))"

definition stoll :: "string \<Rightarrow> sto_error + int" where
  "stoll s = (case strto_integer s of
     None \<Rightarrow> Inl std_invalid_argument
   | Some (neg, n) \<Rightarrow>
       (let v = signed_value neg n in
        if - (2 ^ 63) \<le> v \<and> v < 2 ^ 63 then Inr v else Inl std_out_of_range))"

text \<open>\<open>strtoull\<close> accepts a minus sign and negates modulo \<open>2 ^ 64\<close>.\<close>

definition stoull :: "string \<Rightarrow> sto_error + int" where
  "stoull s = (case strto_integer s of
     None \<Rightarrow> Inl std_invalid_argument
   | Some (neg, n) \<Rightarrow>
       (if int n < 2 ^ 64 then Inr (signed_value neg n mod 2 ^ 64) else Inl std_out_of_range))"

text \<open>\<open>std::to_string\<close> of an integer.\<close>

fun string_of_nat :: "nat \<Rightarrow> string" where
  "string_of_nat n = (if n < 10 then [char_of (48 + n)]
     else string_of_nat (n div 10) @ [char_of (48 + n mod 10)])"

declare string_of_nat.simps [simp del]

definition to_string :: "int \<Rightarrow> string" where
  "to_string i = (if i < 0 then CHR ''-'' # string_of_nat (nat (- i)) else string_of_nat (nat i))"

lemma digit_char [simp]:
  assumes "n < 10"
  shows "isdigit (char_of (48 + n))" "digit_val (char_of (48 + n)) = n"
proof -
  from assms have "(of_char (char_of (48 + n) :: char) :: nat) = 48 + n" by simp
  with assms show "isdigit (char_of (48 + n))" "digit_val (char_of (48 + n)) = n"
    by (simp_all only: isdigit_def digit_val_def Let_def) simp_all
qed

lemma string_of_nat_digits: "\<forall>c \<in> set (string_of_nat n). isdigit c"
proof (induction n rule: string_of_nat.induct)
  case (1 n)
  then show ?case by (subst string_of_nat.simps) (auto simp del: of_char_of)
qed

lemma digits_value_snoc: "digits_value (ds @ [d]) = 10 * digits_value ds + digit_val d"
  by (simp add: digits_value_def)

lemma digits_value_string_of_nat [simp]: "digits_value (string_of_nat n) = n"
proof (induction n rule: string_of_nat.induct)
  case (1 n)
  show ?case
  proof (cases "n < 10")
    case True
    then show ?thesis by (subst string_of_nat.simps) (simp add: digits_value_def)
  next
    case False
    with "1" show ?thesis by (subst string_of_nat.simps) (simp add: digits_value_snoc)
  qed
qed

lemma string_of_nat_not_Nil [simp]: "string_of_nat n \<noteq> []"
  by (subst string_of_nat.simps) simp

lemma isdigit_not_special:
  "isdigit c \<Longrightarrow> \<not> isspace c \<and> c \<noteq> CHR ''-'' \<and> c \<noteq> CHR ''+''"
  by (auto simp: isdigit_def isspace_def Let_def)

lemma strto_integer_digits:
  assumes "ds \<noteq> []" "\<forall>c \<in> set ds. isdigit c"
  shows "strto_integer ds = Some (False, digits_value ds)"
proof -
  obtain c cs where ds: "ds = c # cs" using assms(1) by (cases ds) auto
  with assms(2) have c: "\<not> isspace c \<and> c \<noteq> CHR ''-'' \<and> c \<noteq> CHR ''+''"
    by (simp add: isdigit_not_special)
  have "takeWhile isdigit ds = ds" using assms(2) by (simp add: takeWhile_eq_all_conv)
  with ds c show ?thesis by (simp add: strto_integer_def strip_sign_def)
qed

text \<open>What \<open>to_string\<close> prints, \<open>stoi\<close> reads back.\<close>

lemma strto_integer_to_string:
  "0 \<le> i \<Longrightarrow> strto_integer (to_string i) = Some (False, nat i)"
  by (simp add: to_string_def strto_integer_digits string_of_nat_digits)

lemma stoi_to_string: "0 \<le> i \<Longrightarrow> i < 2 ^ 31 \<Longrightarrow> stoi (to_string i) = Inr i"
  by (simp add: stoi_def strto_integer_to_string signed_value_def)

lemma stoi_range: "stoi s = Inr v \<Longrightarrow> - (2 ^ 31) \<le> v \<and> v < 2 ^ 31"
  by (auto simp: stoi_def Let_def split: option.splits if_splits)

lemma stoull_range: "stoull s = Inr v \<Longrightarrow> 0 \<le> v \<and> v < 2 ^ 64"
  by (auto simp: stoull_def split: option.splits if_splits)

lemma stoi_stoll: "stoi s = Inr v \<Longrightarrow> stoll s = Inr v"
  by (auto simp: stoi_def stoll_def Let_def split: option.splits if_splits)

lemma stoll_small_stoi:
  "stoll s = Inr v \<Longrightarrow> - (2 ^ 31) \<le> v \<Longrightarrow> v < 2 ^ 31 \<Longrightarrow> stoi s = Inr v"
  by (auto simp: stoi_def stoll_def Let_def split: option.splits if_splits)

end
