(* ===== verification/Prog.thy ===== *)
theory Prog
  imports Prelude
begin

text \<open>
  The C++ control flow the sources use, as functions on a state: the exception classes of
  the program as one datatype, the ways a run stops, and the combinators for sequencing,
  \<open>try\<close>/\<open>catch\<close>, destructors at the end of a scope, and \<open>while\<close>.
  A program maps a state to \<open>None\<close> when it never returns, otherwise to its result and the
  state it leaves. \<open>wlp\<close> is the weakest liberal precondition, over every way to stop, and
  the rules for it below are what the component proofs are made of (collection \<open>wlp_rules\<close>).
\<close>

named_theorems wlp_rules "weakest liberal preconditions of the combinators and operations"
named_theorems returns_rules "operations that always return"

section \<open>Exceptions\<close>

text \<open>
  The exception classes of \<open>TftpPacket.h\<close>, \<open>Option.h\<close>, \<open>UdpCommon.h\<close>,
  \<open>FileHandler.h\<close>, \<open>StdHandler.h\<close>, \<open>ClientHandler.h\<close> and \<open>TftpClient.h\<close>, and the standard
  library's own that the sources let through.
\<close>

datatype exn =
    TFTPUnknownError
  | TFTPFileNotFoundError string
  | TFTPAccessViolationError
  | TFTPDiskFullError
  | TFTPIllegalOperationError string
  | TFTPUnknownTransferIDError
  | TFTPFileAlreadyExistsError string
  | TFTPNoSuchUserError
  | TTFOptionNegotiationError
  | UnsupportedOptionException
  | InvalidOptionValueException string string
  | UdpException string
  | UdpTimeoutException
  | UdpSigintException
  | FailedToOpenFileException string
  | FailedToWriteToFileException
  | FailedToReadFromFileException
  | FileDoesNotExistException string
  | NotEnoughSpaceException
  | FailedToReadFromStdinException
  | RecievedErrorPacketException string
  | StdInvalidArgument
  | StdOutOfRange
  | FilesystemError

text \<open>\<open>what()\<close> of the TFTP exceptions: it is the message of the ERROR packets.\<close>

fun tftp_what :: "exn \<Rightarrow> string" where
  "tftp_what TFTPUnknownError = ''Unknown error.''"
| "tftp_what (TFTPFileNotFoundError filename) = ''File not found: '' @ filename"
| "tftp_what TFTPAccessViolationError =
     ''Access violation: You don't have permission to access this file.''"
| "tftp_what TFTPDiskFullError =
     ''Disk full or allocation exceeded: Unable to write the file.''"
| "tftp_what (TFTPIllegalOperationError operation) = ''Illegal TFTP operation: '' @ operation"
| "tftp_what TFTPUnknownTransferIDError =
     ''Unknown transfer ID: The server did not recognize your request.''"
| "tftp_what (TFTPFileAlreadyExistsError filename) = ''File already exists: '' @ filename"
| "tftp_what TFTPNoSuchUserError =
     ''No such user: The user specified does not exist or is not allowed access.''"
| "tftp_what TTFOptionNegotiationError = ''Option negotiation failed.''"
| "tftp_what _ = []"

section \<open>Programs\<close>

text \<open>
  How a run stops without a result: an exception, the end of the process
  (\<open>exit\<close>, \<open>std::terminate\<close>, a signal), waiting for a datagram that the given environment does
  not have, or an operation the language leaves undefined.
\<close>

datatype stop = Raise exn | Exit int | Terminate | Killed string | Blocked | Undefined string

type_synonym 'a outcome = "stop + 'a"
type_synonym ('s, 'a) prog = "'s \<Rightarrow> ('a outcome \<times> 's) option"

definition ret :: "'a \<Rightarrow> ('s, 'a) prog" where
  "ret x = (\<lambda>s. Some (Inr x, s))"

definition stop_with :: "stop \<Rightarrow> ('s, 'a) prog" where
  "stop_with e = (\<lambda>s. Some (Inl e, s))"

definition throw :: "exn \<Rightarrow> ('s, 'a) prog" where
  "throw e = stop_with (Raise e)"

definition bnd :: "('s, 'a) prog \<Rightarrow> ('a \<Rightarrow> ('s, 'b) prog) \<Rightarrow> ('s, 'b) prog" where
  "bnd m f = (\<lambda>s. case m s of
     None \<Rightarrow> None
   | Some (r, s') \<Rightarrow> (case r of Inl e \<Rightarrow> Some (Inl e, s') | Inr x \<Rightarrow> f x s'))"

definition seq :: "('s, 'a) prog \<Rightarrow> ('s, 'b) prog \<Rightarrow> ('s, 'b) prog" where
  "seq m n = bnd m (\<lambda>_. n)"

definition gets :: "('s \<Rightarrow> 'a) \<Rightarrow> ('s, 'a) prog" where
  "gets f = (\<lambda>s. Some (Inr (f s), s))"

definition modify :: "('s \<Rightarrow> 's) \<Rightarrow> ('s, unit) prog" where
  "modify f = (\<lambda>s. Some (Inr (), f s))"

definition skip :: "('s, unit) prog" where
  "skip = ret ()"

text \<open>A pure function that may throw.\<close>

definition lift_exn :: "exn + 'a \<Rightarrow> ('s, 'a) prog" where
  "lift_exn r = (case r of Inl e \<Rightarrow> throw e | Inr x \<Rightarrow> ret x)"

text \<open>\<open>try { m } catch ..\<close>: \<open>h\<close> rethrows what the \<open>catch\<close> clauses do not name.\<close>

definition try_catch :: "('s, 'a) prog \<Rightarrow> (exn \<Rightarrow> ('s, 'a) prog) \<Rightarrow> ('s, 'a) prog" where
  "try_catch m h = (\<lambda>s. case m s of
     None \<Rightarrow> None
   | Some (r, s') \<Rightarrow> (case r of Inl (Raise e) \<Rightarrow> h e s' | _ \<Rightarrow> Some (r, s')))"

text \<open>
  A destructor at the end of a scope: it runs on return and when an exception unwinds the
  stack, not when the process ends.
\<close>

definition scoped :: "('s, 'a) prog \<Rightarrow> ('s, unit) prog \<Rightarrow> ('s, 'a) prog" where
  "scoped m d = (\<lambda>s. case m s of
     None \<Rightarrow> None
   | Some (r, s') \<Rightarrow>
       (case r of
          Inr x \<Rightarrow> bnd d (\<lambda>_. ret x) s'
        | Inl (Raise e) \<Rightarrow> bnd d (\<lambda>_. throw e) s'
        | Inl e \<Rightarrow> Some (r, s')))"

text \<open>\<open>while (c) { b }\<close> over local variables \<open>a\<close>; \<open>None\<close> when it never ends.\<close>

partial_function (option) while_m ::
  "('a \<Rightarrow> bool) \<Rightarrow> ('a \<Rightarrow> ('s, 'a) prog) \<Rightarrow> 'a \<Rightarrow> 's \<Rightarrow> ('a outcome \<times> 's) option" where
  "while_m c b a s =
     (if c a then
        (case b a s of
           None \<Rightarrow> None
         | Some (r, s') \<Rightarrow>
             (case r of Inl e \<Rightarrow> Some (Inl e, s') | Inr a' \<Rightarrow> while_m c b a' s'))
      else Some (Inr a, s))"

declare while_m.simps [code]

lemma while_m_exit: "\<not> c a \<Longrightarrow> while_m c b a s = Some (Inr a, s)"
  by (simp add: while_m.simps)

lemma while_m_step: "c a \<Longrightarrow> b a s = Some (Inr a', s') \<Longrightarrow> while_m c b a s = while_m c b a' s'"
  by (simp add: while_m.simps [of c b a])

fun for_each :: "'a list \<Rightarrow> ('a \<Rightarrow> ('s, unit) prog) \<Rightarrow> ('s, unit) prog" where
  "for_each [] f = skip"
| "for_each (x # xs) f = seq (f x) (for_each xs f)"

lemmas prog_defs =
  ret_def stop_with_def throw_def bnd_def seq_def gets_def modify_def skip_def
  lift_exn_def try_catch_def scoped_def

text \<open>Running the parts one after the other.\<close>

lemma run_simps:
  "ret x s = Some (Inr x, s)" "throw ex s = Some (Inl (Raise ex), s)" "stop_with e s = Some (Inl e, s)"
  "gets f s = Some (Inr (f s), s)" "modify g s = Some (Inr (), g s)" "skip s = Some (Inr (), s)"
  "lift_exn (Inr y) s = Some (Inr y, s)" "lift_exn (Inl ex) s = Some (Inl (Raise ex), s)"
  by (simp_all add: prog_defs)

lemma bnd_run: "m s = Some (Inr x, s') \<Longrightarrow> bnd m f s = f x s'"
  by (simp add: bnd_def)

lemma bnd_stop: "m s = Some (Inl e, s') \<Longrightarrow> bnd m f s = Some (Inl e, s')"
  by (simp add: bnd_def)

lemma bnd_None: "m s = None \<Longrightarrow> bnd m f s = None"
  by (simp add: bnd_def)

lemma bnd_run_simps:
  "bnd (ret x) f s = f x s" "bnd (gets g) f s = f (g s) s" "bnd (lift_exn (Inr y)) f s = f y s"
  "bnd (lift_exn (Inl ex)) f s = Some (Inl (Raise ex), s)" "seq skip n s = n s"
  "bnd (throw ex) f s = Some (Inl (Raise ex), s)" "seq (modify h) n s = n (h s)"
  by (simp_all add: seq_def bnd_def run_simps)

section \<open>Weakest liberal preconditions\<close>

definition wlp :: "('s, 'a) prog \<Rightarrow> ('a outcome \<Rightarrow> 's \<Rightarrow> bool) \<Rightarrow> 's \<Rightarrow> bool" where
  "wlp m Q s = (case m s of None \<Rightarrow> True | Some (r, s') \<Rightarrow> Q r s')"

lemma wlpI: "(\<And>r s'. m s = Some (r, s') \<Longrightarrow> Q r s') \<Longrightarrow> wlp m Q s"
  by (auto simp: wlp_def split: option.splits)

lemma wlpD: "wlp m Q s \<Longrightarrow> m s = Some (r, s') \<Longrightarrow> Q r s'"
  by (simp add: wlp_def)

lemma wlp_mono: "wlp m Q s \<Longrightarrow> (\<And>r s'. Q r s' \<Longrightarrow> Q' r s') \<Longrightarrow> wlp m Q' s"
  by (auto simp: wlp_def split: option.splits)

lemma wlp_conj: "wlp m Q s \<Longrightarrow> wlp m Q' s \<Longrightarrow> wlp m (\<lambda>r s'. Q r s' \<and> Q' r s') s"
  by (auto simp: wlp_def split: option.splits)

lemma wlp_ret [simp, wlp_rules]: "wlp (ret x) Q s = Q (Inr x) s"
  by (simp add: wlp_def ret_def)

lemma wlp_stop [simp, wlp_rules]: "wlp (stop_with e) Q s = Q (Inl e) s"
  by (simp add: wlp_def stop_with_def)

lemma wlp_throw [simp, wlp_rules]: "wlp (throw e) Q s = Q (Inl (Raise e)) s"
  by (simp add: throw_def)

lemma wlp_skip [simp, wlp_rules]: "wlp skip Q s = Q (Inr ()) s"
  by (simp add: skip_def)

lemma wlp_gets [simp, wlp_rules]: "wlp (gets f) Q s = Q (Inr (f s)) s"
  by (simp add: wlp_def gets_def)

lemma wlp_modify [simp, wlp_rules]: "wlp (modify f) Q s = Q (Inr ()) (f s)"
  by (simp add: wlp_def modify_def)

lemma wlp_bnd [simp, wlp_rules]:
  "wlp (bnd m f) Q s = wlp m (\<lambda>r s'. case r of Inl e \<Rightarrow> Q (Inl e) s' | Inr x \<Rightarrow> wlp (f x) Q s') s"
  by (simp add: wlp_def bnd_def split: option.splits sum.splits)

text \<open>After a part whose result is known.\<close>

lemma gets_eq: "gets f s = Some (Inr (f s), s)"
  by (simp add: gets_def)

lemma wlp_bnd_eq: "m s = Some (Inr x, s') \<Longrightarrow> wlp (bnd m f) Q s = wlp (f x) Q s'"
  by (simp add: wlp_def bnd_def)

lemma wlp_bnd_any:
  assumes "\<And>x s1. wlp (f x) Q s1" "\<And>e s1. Q (Inl e) s1"
  shows "wlp (bnd m f) Q s"
  unfolding wlp_bnd [of m f]
  by (rule wlpI) (simp add: assms split: sum.splits)

lemma wlp_seq [simp, wlp_rules]:
  "wlp (seq m n) Q s = wlp m (\<lambda>r s'. case r of Inl e \<Rightarrow> Q (Inl e) s' | Inr x \<Rightarrow> wlp n Q s') s"
  by (simp add: seq_def)

lemma wlp_lift_exn [simp, wlp_rules]:
  "wlp (lift_exn r) Q s = (case r of Inl e \<Rightarrow> Q (Inl (Raise e)) s | Inr x \<Rightarrow> Q (Inr x) s)"
  by (simp add: lift_exn_def split: sum.splits)

lemma wlp_try_catch [simp, wlp_rules]:
  "wlp (try_catch m h) Q s =
     wlp m (\<lambda>r s'. case r of Inl (Raise e) \<Rightarrow> wlp (h e) Q s' | _ \<Rightarrow> Q r s') s"
  by (simp add: wlp_def try_catch_def split: option.splits sum.splits stop.splits)

lemma wlp_scoped [simp, wlp_rules]:
  "wlp (scoped m d) Q s =
     wlp m (\<lambda>r s'. case r of
         Inr x \<Rightarrow> wlp d (\<lambda>r' s''. case r' of Inl e \<Rightarrow> Q (Inl e) s'' | Inr _ \<Rightarrow> Q (Inr x) s'') s'
       | Inl (Raise e) \<Rightarrow>
           wlp d (\<lambda>r' s''. case r' of Inl e' \<Rightarrow> Q (Inl e') s'' | Inr _ \<Rightarrow> Q (Inl (Raise e)) s'') s'
       | Inl e \<Rightarrow> Q (Inl e) s') s"
  by (simp add: wlp_def scoped_def bnd_def ret_def throw_def stop_with_def
      split: option.splits sum.splits stop.splits prod.splits)

lemma wlp_if [wlp_rules]: "wlp (if b then m else n) Q s = (if b then wlp m Q s else wlp n Q s)"
  by simp

text \<open>The loop rule: an invariant over the local variables and the state.\<close>

lemma while_m_induct_Some:
  assumes "while_m c b a s = Some (r, s')" and "I a s"
    and step: "\<And>a s r s'. I a s \<Longrightarrow> c a \<Longrightarrow> b a s = Some (r, s') \<Longrightarrow>
                 (case r of Inl e \<Rightarrow> Q (Inl e) s' | Inr a' \<Rightarrow> I a' s')"
    and stop: "\<And>a s. I a s \<Longrightarrow> \<not> c a \<Longrightarrow> Q (Inr a) s"
  shows "Q r s'"
proof -
  have "I a s \<longrightarrow> Q (fst x) (snd x)" if "while_m c b a s = Some x" for x
  proof (rule while_m.raw_induct [where P = "\<lambda>c' b' a s x.
      c' = c \<and> b' = b \<longrightarrow> I a s \<longrightarrow> Q (fst x) (snd x)", OF _ that, THEN mp, OF _ conjI])
    fix w :: "('a \<Rightarrow> bool) \<Rightarrow> ('a \<Rightarrow> ('b, 'a) prog) \<Rightarrow> 'a \<Rightarrow> 'b \<Rightarrow> ('a outcome \<times> 'b) option"
      and c' b' a s x
    assume IH: "\<And>c' b' a s x. w c' b' a s = Some x \<Longrightarrow>
        c' = c \<and> b' = b \<longrightarrow> I a s \<longrightarrow> Q (fst x) (snd x)"
      and eq: "(if c' a then case b' a s of None \<Rightarrow> None
         | Some (r, s') \<Rightarrow> (case r of Inl e \<Rightarrow> Some (Inl e, s') | Inr a' \<Rightarrow> w c' b' a' s')
         else Some (Inr a, s)) = Some x"
    show "c' = c \<and> b' = b \<longrightarrow> I a s \<longrightarrow> Q (fst x) (snd x)"
    proof (intro impI, elim conjE)
      assume [simp]: "c' = c" "b' = b" and I: "I a s"
      show "Q (fst x) (snd x)"
      proof (cases "c a")
        case False
        with eq stop [OF I] show ?thesis by auto
      next
        case True
        with eq obtain r1 s1 where b: "b a s = Some (r1, s1)"
          by (auto split: option.splits)
        with step [OF I True b] eq True IH show ?thesis
          by (cases r1) auto
      qed
    qed
  qed simp_all
  with assms(1,2) show ?thesis by fastforce
qed

lemma wlp_while:
  assumes "I a s"
    and "\<And>a s. I a s \<Longrightarrow> c a \<Longrightarrow>
           wlp (b a) (\<lambda>r s'. case r of Inl e \<Rightarrow> Q (Inl e) s' | Inr a' \<Rightarrow> I a' s') s"
    and "\<And>a s. I a s \<Longrightarrow> \<not> c a \<Longrightarrow> Q (Inr a) s"
  shows "wlp (while_m c b a) Q s"
proof (rule wlpI)
  fix r s' assume "while_m c b a s = Some (r, s')"
  then show "Q r s'"
    by (rule while_m_induct_Some [where I = I])
      (use assms in \<open>auto dest: wlpD\<close>)
qed

lemma wlp_for_each_same:
  "(\<And>x. x \<in> set xs \<Longrightarrow> wlp (f x) (\<lambda>r s'. s' = s) s) \<Longrightarrow> wlp (for_each xs f) (\<lambda>r s'. s' = s) s"
proof (induction xs)
  case (Cons x xs)
  then have "wlp (f x) (\<lambda>r s'. s' = s) s" "wlp (for_each xs f) (\<lambda>r s'. s' = s) s" by simp_all
  then show ?case by (auto elim!: wlp_mono split: sum.splits)
qed simp

lemma wlp_for_each:
  assumes "I s" "\<And>x s. x \<in> set xs \<Longrightarrow> I s \<Longrightarrow>
    wlp (f x) (\<lambda>r s'. case r of Inl e \<Rightarrow> E e s' | Inr _ \<Rightarrow> I s') s"
  shows "wlp (for_each xs f) (\<lambda>r s'. case r of Inl e \<Rightarrow> E e s' | Inr _ \<Rightarrow> I s') s"
  using assms
proof (induction xs arbitrary: s)
  case (Cons x xs)
  show ?case
    unfolding for_each.simps wlp_seq
  proof (rule wlp_mono [OF Cons.prems(2) [OF _ Cons.prems(1)]], goal_cases)
    case (2 r s1)
    then show ?case using Cons.IH [of s1] Cons.prems(2) by (cases r) auto
  qed simp
qed simp

section \<open>Returning\<close>

definition returns :: "('s, 'a) prog \<Rightarrow> 's \<Rightarrow> bool" where
  "returns m s = (m s \<noteq> None)"

lemma returns_iff: "returns m s \<longleftrightarrow> (\<exists>r s'. m s = Some (r, s'))"
  by (auto simp: returns_def)

lemma returns_basic [simp, returns_rules]:
  "returns (ret x) s" "returns (stop_with e) s" "returns (throw ex) s" "returns skip s"
  "returns (gets f) s" "returns (modify g) s" "returns (lift_exn l) s"
  by (simp_all add: returns_def prog_defs split: sum.splits)

lemma returns_bnd [simp, returns_rules]:
  "returns (bnd m f) s \<longleftrightarrow>
     returns m s \<and> wlp m (\<lambda>r s'. case r of Inl e \<Rightarrow> True | Inr x \<Rightarrow> returns (f x) s') s"
  by (simp add: returns_def wlp_def bnd_def split: option.splits sum.splits)

lemma returns_run:
  "returns (bnd (gets g) f) s = returns (f (g s)) s"
  "returns (bnd (lift_exn (Inr y)) f) s = returns (f y) s"
  by (simp_all add: returns_def bnd_run_simps)

lemma returns_seq [simp, returns_rules]:
  "returns (seq m n) s \<longleftrightarrow>
     returns m s \<and> wlp m (\<lambda>r s'. case r of Inl e \<Rightarrow> True | Inr x \<Rightarrow> returns n s') s"
  by (simp add: seq_def)

lemma returns_try_catch [simp, returns_rules]:
  "returns (try_catch m h) s \<longleftrightarrow>
     returns m s \<and> wlp m (\<lambda>r s'. case r of Inl (Raise e) \<Rightarrow> returns (h e) s' | _ \<Rightarrow> True) s"
  by (simp add: returns_def wlp_def try_catch_def split: option.splits sum.splits stop.splits)

lemma returns_scoped [simp, returns_rules]:
  "returns (scoped m d) s \<longleftrightarrow>
     returns m s \<and> wlp m (\<lambda>r s'. case r of Inr x \<Rightarrow> returns d s' | Inl (Raise e) \<Rightarrow> returns d s'
        | _ \<Rightarrow> True) s"
  by (simp add: returns_def wlp_def scoped_def bnd_def ret_def throw_def stop_with_def
      split: option.splits sum.splits stop.splits prod.splits)

text \<open>The same for programs whose parts return from every state.\<close>

lemma returns_bndI: "returns m s \<Longrightarrow> (\<And>x s'. returns (f x) s') \<Longrightarrow> returns (bnd m f) s"
  by (auto intro!: wlpI split: sum.splits)

lemma returns_seqI: "returns m s \<Longrightarrow> (\<And>s'. returns n s') \<Longrightarrow> returns (seq m n) s"
  by (auto intro!: wlpI split: sum.splits)

lemma returns_try_catchI: "returns m s \<Longrightarrow> (\<And>e s'. returns (h e) s') \<Longrightarrow> returns (try_catch m h) s"
  by (auto intro!: wlpI split: sum.splits stop.splits)

lemma returns_scopedI: "returns m s \<Longrightarrow> (\<And>s'. returns d s') \<Longrightarrow> returns (scoped m d) s"
  by (auto intro!: wlpI split: sum.splits stop.splits)

lemma returns_ifI: "(b \<Longrightarrow> returns m s) \<Longrightarrow> (\<not> b \<Longrightarrow> returns n s) \<Longrightarrow> returns (if b then m else n) s"
  by simp

lemma returns_prodI: "(\<And>a b. returns (f a b) s) \<Longrightarrow> returns (case p of (a, b) \<Rightarrow> f a b) s"
  by (cases p) simp

lemma returns_sumI:
  "(\<And>e. returns (f e) s) \<Longrightarrow> (\<And>x. returns (g x) s) \<Longrightarrow>
   returns (case r of Inl e \<Rightarrow> f e | Inr x \<Rightarrow> g x) s"
  by (cases r) simp_all

lemma returns_optionI:
  "returns m s \<Longrightarrow> (\<And>x. returns (g x) s) \<Longrightarrow> returns (case r of None \<Rightarrow> m | Some x \<Rightarrow> g x) s"
  by (cases r) simp_all

lemmas returns_intros = returns_prodI returns_sumI returns_optionI returns_bndI returns_seqI returns_try_catchI returns_scopedI returns_ifI

lemma returns_for_each: "(\<And>x s. returns (f x) s) \<Longrightarrow> returns (for_each xs f) s"
  by (induction xs arbitrary: s) (auto intro!: wlpI split: sum.splits)

text \<open>A loop whose body returns and decreases a measure returns.\<close>

lemma returns_while:
  fixes f :: "'a \<Rightarrow> 's \<Rightarrow> nat"
  assumes "I a s"
    and "\<And>a s. I a s \<Longrightarrow> c a \<Longrightarrow> returns (b a) s \<and>
           wlp (b a) (\<lambda>r s'. case r of Inl e \<Rightarrow> True | Inr a' \<Rightarrow> I a' s' \<and> f a' s' < f a s) s"
  shows "returns (while_m c b a) s"
  using assms(1)
proof (induction "f a s" arbitrary: a s rule: less_induct)
  case less
  show ?case
  proof (cases "c a")
    case False
    then show ?thesis by (simp add: returns_def while_m.simps)
  next
    case True
    with assms(2) [OF less.prems] obtain r1 s1 where b: "b a s = Some (r1, s1)"
      by (auto simp: returns_iff)
    with assms(2) [OF less.prems True] less.hyps True show ?thesis
      by (cases r1) (auto simp: returns_def wlp_def while_m.simps [of c b a s])
  qed
qed

text \<open>A loop whose body keeps going round under an invariant never returns.\<close>

lemma while_m_diverges:
  assumes "I a s"
    and "\<And>a s. I a s \<Longrightarrow> c a \<and> (\<exists>a' s'. b a s = Some (Inr a', s') \<and> I a' s')"
  shows "while_m c b a s = None"
proof (rule ccontr)
  assume "while_m c b a s \<noteq> None"
  then obtain r s' where "while_m c b a s = Some (r, s')" by auto
  then have "(\<lambda>_ _. False) r s'"
    by (rule while_m_induct_Some [where I = I]) (use assms in fastforce)+
  then show False .
qed

end
