(* ===== verification/FileSystem.thy ===== *)
theory FileSystem
  imports Prog
begin

text \<open>
  The file system as the programs see it, and the static operations of
  src/common/IO/FileHandler.cpp on it. A file system is a map from canonical paths (lists of
  components) to files and directories, the free bytes, and the answers of the operating
  system that are not a matter of the program: what a path string resolves to
  (\<open>canonical_of\<close>: the working directory and symbolic links, as
  \<open>std::filesystem::weakly_canonical\<close> reports them), which paths may be opened, and whether a
  directory can be removed. A \<open>stream\<close> is what \<open>std::fstream\<close> and \<open>std::cin\<close> keep while
  reading: the bytes to come and the \<open>eofbit\<close>, \<open>failbit\<close> and \<open>badbit\<close>.
\<close>

section \<open>Files and directories\<close>

type_synonym path = "string list"

datatype node = FileN bytes | DirN

record filesystem =
  nodes :: "path \<Rightarrow> node option"
  avail :: nat
  canonical_of :: "string \<Rightarrow> path"
  may_open :: "path \<Rightarrow> bool"
  dir_removable :: "path \<Rightarrow> bool"

definition FileExists :: "filesystem \<Rightarrow> string \<Rightarrow> bool" where
  "FileExists fs filepath = (nodes fs (canonical_of fs filepath) \<noteq> None)"

text \<open>\<open>std::filesystem::remove\<close>: nothing to remove is no error.\<close>

definition DeleteFile :: "filesystem \<Rightarrow> string \<Rightarrow> exn + filesystem" where
  "DeleteFile fs filepath =
     (let p = canonical_of fs filepath in
      case nodes fs p of
        None \<Rightarrow> Inr fs
      | Some (FileN c) \<Rightarrow>
          Inr (fs\<lparr>nodes := (nodes fs)(p := None), avail := avail fs + length c\<rparr>)
      | Some DirN \<Rightarrow>
          if dir_removable fs p then Inr (fs\<lparr>nodes := (nodes fs)(p := None)\<rparr>)
          else Inl FilesystemError)"

text \<open>
  \<open>std::filesystem::relative(p, base)\<close> on canonical paths: the common prefix is dropped, one
  \<open>..\<close> is written for each component of the base that is left, and an empty result is \<open>.\<close>.
\<close>

fun lexically_relative :: "path \<Rightarrow> path \<Rightarrow> path" where
  "lexically_relative [] [] = [''.'']"
| "lexically_relative (p # ps) (b # bs) =
     (if p = b then lexically_relative ps bs
      else replicate (length (b # bs)) ''..'' @ (p # ps))"
| "lexically_relative p b = replicate (length b) ''..'' @ p"

fun path_string :: "path \<Rightarrow> string" where
  "path_string [] = []"
| "path_string [c] = c"
| "path_string (c # cs) = c @ CHR ''/'' # path_string cs"

text \<open>
  The test reads \<open>relative[0]\<close> and \<open>relative[1]\<close>; on an empty string the second read is
  outside of the string, which is \<open>None\<close> here.
\<close>

definition isFilePathUnderDirectory :: "filesystem \<Rightarrow> string \<Rightarrow> string \<Rightarrow> bool option" where
  "isFilePathUnderDirectory fs filePath directoryPath =
     (case path_string (lexically_relative (canonical_of fs filePath) (canonical_of fs directoryPath)) of
        [] \<Rightarrow> None
      | [_] \<Rightarrow> Some True
      | c # d # _ \<Rightarrow> Some (c \<noteq> CHR ''.'' \<and> d \<noteq> CHR ''.''))"

text \<open>\<open>statvfs\<close> fails on a path that does not exist.\<close>

definition HasEnoughSpace :: "filesystem \<Rightarrow> string \<Rightarrow> int \<Rightarrow> bool" where
  "HasEnoughSpace fs p requiredBytes =
     (nodes fs (canonical_of fs p) \<noteq> None \<and> requiredBytes \<le> int (avail fs))"

definition GetFileSize :: "filesystem \<Rightarrow> string \<Rightarrow> exn + nat" where
  "GetFileSize fs filepath = (case nodes fs (canonical_of fs filepath) of
     Some (FileN c) \<Rightarrow> Inr (length c) | _ \<Rightarrow> Inl FilesystemError)"

section \<open>Streams\<close>

record stream =
  st_rest :: bytes
  st_eof :: bool
  st_fail :: bool
  st_bad :: bool
  st_unreadable :: bool

definition stream_of :: "bytes \<Rightarrow> stream" where
  "stream_of c = \<lparr>st_rest = c, st_eof = False, st_fail = False, st_bad = False,
                  st_unreadable = False\<rparr>"

text \<open>\<open>read(buf, n)\<close> followed by \<open>gcount()\<close>: the bytes read and the stream after it.\<close>

definition stream_read :: "nat \<Rightarrow> stream \<Rightarrow> bytes \<times> stream" where
  "stream_read n st =
     (if st_eof st \<or> st_fail st \<or> st_bad st then ([], st\<lparr>st_fail := True\<rparr>)
      else if st_unreadable st then ([], st\<lparr>st_bad := True\<rparr>)
      else let chunk = take n (st_rest st); short = (length chunk < n)
           in (chunk, st\<lparr>st_rest := drop n (st_rest st), st_eof := short, st_fail := short\<rparr>))"

text \<open>\<open>fail() && !eof()\<close>\<close>

definition read_failed :: "stream \<Rightarrow> bool" where
  "read_failed st \<longleftrightarrow> (st_fail st \<or> st_bad st) \<and> \<not> st_eof st"

text \<open>Opening for reading: the content of a file, or a directory, which opens but cannot be read.\<close>

definition open_read :: "filesystem \<Rightarrow> string \<Rightarrow> stream option" where
  "open_read fs filepath =
     (let p = canonical_of fs filepath in
      if \<not> may_open fs p then None
      else (case nodes fs p of
              None \<Rightarrow> None
            | Some (FileN c) \<Rightarrow> Some (stream_of c)
            | Some DirN \<Rightarrow> Some ((stream_of [])\<lparr>st_unreadable := True\<rparr>)))"

text \<open>Opening with \<open>std::ios_base::out\<close>: the file is created, or emptied.\<close>

definition open_write :: "filesystem \<Rightarrow> string \<Rightarrow> filesystem option" where
  "open_write fs filepath =
     (let p = canonical_of fs filepath in
      if \<not> may_open fs p then None
      else (case nodes fs p of
              None \<Rightarrow> Some (fs\<lparr>nodes := (nodes fs)(p := Some (FileN []))\<rparr>)
            | Some (FileN c) \<Rightarrow>
                Some (fs\<lparr>nodes := (nodes fs)(p := Some (FileN [])), avail := avail fs + length c\<rparr>)
            | Some DirN \<Rightarrow> None))"

text \<open>
  A flushed write at the end of an open file: whether it succeeded, and the file system after
  it. When the space runs out, what fits has been written.
\<close>

definition append_file :: "filesystem \<Rightarrow> string \<Rightarrow> bytes \<Rightarrow> bool \<times> filesystem" where
  "append_file fs filepath d =
     (let p = canonical_of fs filepath; w = take (avail fs) d in
      case nodes fs p of
        Some (FileN c) \<Rightarrow>
          (length d \<le> avail fs,
           fs\<lparr>nodes := (nodes fs)(p := Some (FileN (c @ w))), avail := avail fs - length w\<rparr>)
      | _ \<Rightarrow> (True, fs))"

section \<open>Facts\<close>

text \<open>Canonical paths have no empty component and no \<open>.\<close> or \<open>..\<close>.\<close>

definition canonical :: "path \<Rightarrow> bool" where
  "canonical p \<longleftrightarrow> (\<forall>c \<in> set p. c \<noteq> [] \<and> c \<noteq> ''.'' \<and> c \<noteq> ''..'')"

lemma canonical_simps [simp]:
  "canonical []" "canonical (c # p) \<longleftrightarrow> c \<noteq> [] \<and> c \<noteq> ''.'' \<and> c \<noteq> ''..'' \<and> canonical p"
  by (auto simp: canonical_def)

lemma path_string_Cons: "path_string (c # cs) = c @ (if cs = [] then [] else CHR ''/'' # path_string cs)"
  by (cases cs) simp_all

text \<open>A path that is not below the base has a relative path that starts with two dots.\<close>

lemma lexically_relative_outside:
  "\<not> (\<exists>r. p = b @ r) \<Longrightarrow> \<exists>cs. lexically_relative p b = ''..'' # cs"
proof (induction p b rule: lexically_relative.induct)
  case (2 p ps b bs)
  then show ?case by auto
qed auto

lemma lexically_relative_inside:
  "lexically_relative (b @ r) b = (if r = [] then [''.''] else r)"
proof (induction b)
  case Nil
  then show ?case by (cases r) simp_all
qed simp

lemma isFilePathUnderDirectory_sound:
  assumes "isFilePathUnderDirectory fs f d = Some True"
  shows "\<exists>r. canonical_of fs f = canonical_of fs d @ r"
proof (rule ccontr)
  assume "\<not> ?thesis"
  then obtain cs where "lexically_relative (canonical_of fs f) (canonical_of fs d) = ''..'' # cs"
    using lexically_relative_outside by blast
  with assms show False
    by (simp add: isFilePathUnderDirectory_def path_string_Cons split: if_splits)
qed

lemma nodes_append_file_other:
  "p \<noteq> canonical_of fs f \<Longrightarrow> nodes (snd (append_file fs f d)) p = nodes fs p"
  by (auto simp: append_file_def Let_def split: option.splits node.splits)

lemma append_file_static [simp]:
  "canonical_of (snd (append_file fs f d)) = canonical_of fs"
  "may_open (snd (append_file fs f d)) = may_open fs"
  "dir_removable (snd (append_file fs f d)) = dir_removable fs"
  by (auto simp: append_file_def Let_def split: option.splits node.splits)

lemma open_write_static:
  assumes "open_write fs f = Some fs'"
  shows "canonical_of fs' = canonical_of fs" "may_open fs' = may_open fs"
    "nodes fs' = (nodes fs)(canonical_of fs f := Some (FileN []))"
  using assms by (auto simp: open_write_def Let_def split: option.splits node.splits if_splits)

lemma DeleteFile_nodes:
  "DeleteFile fs f = Inr fs' \<Longrightarrow> nodes fs' = (nodes fs)(canonical_of fs f := None)"
  by (auto simp: DeleteFile_def Let_def split: option.splits node.splits if_splits)

lemma DeleteFile_static:
  "DeleteFile fs f = Inr fs' \<Longrightarrow> canonical_of fs' = canonical_of fs \<and> may_open fs' = may_open fs"
  by (auto simp: DeleteFile_def Let_def split: option.splits node.splits if_splits)

text \<open>Reading a good stream.\<close>

definition good_stream :: "stream \<Rightarrow> bool" where
  "good_stream st \<longleftrightarrow> \<not> st_eof st \<and> \<not> st_fail st \<and> \<not> st_bad st \<and> \<not> st_unreadable st"

lemma good_stream_of [simp]: "good_stream (stream_of c)" "st_rest (stream_of c) = c"
  by (simp_all add: good_stream_def stream_of_def)

lemma stream_read_good:
  assumes "good_stream st"
  shows "fst (stream_read n st) = take n (st_rest st)"
    "st_rest (snd (stream_read n st)) = drop n (st_rest st)"
    "n \<le> length (st_rest st) \<Longrightarrow> good_stream (snd (stream_read n st))"
    "\<not> read_failed (snd (stream_read n st))"
  using assms by (auto simp: stream_read_def good_stream_def read_failed_def Let_def)

end
