(* ===== verification/Netascii.thy ===== *)
theory Netascii
  imports Prog
begin

text \<open>
  src/common/IO/IOCommon.cpp: the two conversions between local text and NETASCII.
  \<open>netascii_wf\<close> is the format (RFC 764): a CR is followed by LF or NUL, and a LF follows a CR.
\<close>

datatype DataFormat = DF_NETASCII | DF_OCTET

definition CR :: byte where "CR = 13"
definition LF :: byte where "LF = 10"
definition NUL :: byte where "NUL = 0"

lemmas netascii_bytes = CR_def LF_def NUL_def

lemma netascii_bytes_distinct [simp]:
  "CR \<noteq> LF" "LF \<noteq> CR" "CR \<noteq> NUL" "NUL \<noteq> CR" "LF \<noteq> NUL" "NUL \<noteq> LF"
  by (simp_all add: netascii_bytes)

text \<open>The index loops of the source, on the bytes from the index on.\<close>

fun FormatToNETASCII :: "bytes \<Rightarrow> bytes" where
  "FormatToNETASCII [] = []"
| "FormatToNETASCII [x] =
     (if x = CR then [CR, NUL] else if x = LF then [CR, LF] else [x])"
| "FormatToNETASCII (x # y # ys) =
     (if x = CR then
        (if y = LF then CR # LF # FormatToNETASCII ys else CR # NUL # FormatToNETASCII (y # ys))
      else if x = LF then CR # LF # FormatToNETASCII (y # ys)
      else x # FormatToNETASCII (y # ys))"

fun FormatFromNETASCII :: "bytes \<Rightarrow> bytes" where
  "FormatFromNETASCII [] = []"
| "FormatFromNETASCII [x] = [x]"
| "FormatFromNETASCII (x # y # ys) =
     (if x = CR then
        (if y = LF then LF # FormatFromNETASCII ys
         else if y = NUL then CR # FormatFromNETASCII ys
         else x # FormatFromNETASCII (y # ys))
      else x # FormatFromNETASCII (y # ys))"

fun netascii_wf :: "bytes \<Rightarrow> bool" where
  "netascii_wf [] = True"
| "netascii_wf [x] = (x \<noteq> CR \<and> x \<noteq> LF)"
| "netascii_wf (x # y # ys) =
     (if x = CR then (y = LF \<or> y = NUL) \<and> netascii_wf ys
      else x \<noteq> LF \<and> netascii_wf (y # ys))"

text \<open>What a NETASCII round trip does to local text: a CR LF pair becomes a LF.\<close>

fun crlf_to_lf :: "bytes \<Rightarrow> bytes" where
  "crlf_to_lf [] = []"
| "crlf_to_lf [x] = [x]"
| "crlf_to_lf (x # y # ys) =
     (if x = CR \<and> y = LF then LF # crlf_to_lf ys else x # crlf_to_lf (y # ys))"

fun no_crlf :: "bytes \<Rightarrow> bool" where
  "no_crlf [] = True"
| "no_crlf [x] = True"
| "no_crlf (x # y # ys) = (\<not> (x = CR \<and> y = LF) \<and> no_crlf (y # ys))"

lemma netascii_wf_Cons [simp]: "x \<noteq> CR \<Longrightarrow> x \<noteq> LF \<Longrightarrow> netascii_wf (x # xs) = netascii_wf xs"
  by (cases xs) simp_all

lemma FormatFromNETASCII_Cons [simp]:
  "x \<noteq> CR \<Longrightarrow> FormatFromNETASCII (x # xs) = x # FormatFromNETASCII xs"
  by (cases xs) simp_all

lemma FormatToNETASCII_Cons [simp]:
  "x \<noteq> CR \<Longrightarrow> x \<noteq> LF \<Longrightarrow> FormatToNETASCII (x # xs) = x # FormatToNETASCII xs"
  "FormatToNETASCII (LF # xs) = CR # LF # FormatToNETASCII xs"
  by (cases xs; simp)+

lemma FormatToNETASCII_wf: "netascii_wf (FormatToNETASCII d)"
  by (induction d rule: FormatToNETASCII.induct) auto

lemma FormatToNETASCII_Nil_iff [simp]: "FormatToNETASCII d = [] \<longleftrightarrow> d = []"
  by (induction d rule: FormatToNETASCII.induct) auto

lemma FormatFrom_FormatTo: "FormatFromNETASCII (FormatToNETASCII d) = crlf_to_lf d"
  by (induction d rule: FormatToNETASCII.induct) auto

lemma crlf_to_lf_id: "no_crlf d \<Longrightarrow> crlf_to_lf d = d"
  by (induction d rule: crlf_to_lf.induct) auto

lemma FormatFromNETASCII_Nil_iff [simp]: "FormatFromNETASCII d = [] \<longleftrightarrow> d = []"
  by (induction d rule: FormatFromNETASCII.induct) auto

lemma FormatToNETASCII_CR:
  "FormatToNETASCII (CR # xs) =
     (case xs of [] \<Rightarrow> [CR, NUL]
      | y # ys \<Rightarrow> if y = LF then CR # LF # FormatToNETASCII ys else CR # NUL # FormatToNETASCII xs)"
  by (cases xs) simp_all

lemma no_crlf_Cons: "no_crlf (x # xs) \<longleftrightarrow> \<not> (x = CR \<and> xs \<noteq> [] \<and> hd xs = LF) \<and> no_crlf xs"
  by (cases xs) simp_all

lemma FormatTo_FormatFrom:
  "netascii_wf d \<Longrightarrow> no_crlf (FormatFromNETASCII d) \<Longrightarrow>
     FormatToNETASCII (FormatFromNETASCII d) = d"
proof (induction d rule: netascii_wf.induct)
  case (3 x y ys)
  show ?case
  proof (cases "x = CR")
    case True
    with 3 show ?thesis
      by (auto simp: FormatToNETASCII_CR no_crlf_Cons split: list.splits)
  next
    case False
    with 3 show ?thesis by (auto simp: no_crlf_Cons simp del: FormatFromNETASCII.simps(3))
  qed
qed auto

lemma length_FormatFromNETASCII: "length (FormatFromNETASCII d) \<le> length d"
  by (induction d rule: FormatFromNETASCII.induct) auto

lemma length_FormatToNETASCII: "length d \<le> length (FormatToNETASCII d)"
  by (induction d rule: FormatToNETASCII.induct) auto

lemma length_FormatToNETASCII_le: "length (FormatToNETASCII d) \<le> 2 * length d"
  by (induction d rule: FormatToNETASCII.induct) auto

text \<open>A well-formed stream can be decoded piecewise when each piece is well-formed.\<close>

lemma FormatFromNETASCII_append:
  "netascii_wf d \<Longrightarrow> FormatFromNETASCII (d @ e) = FormatFromNETASCII d @ FormatFromNETASCII e"
  by (induction d rule: netascii_wf.induct) auto

lemma netascii_wf_append: "netascii_wf d \<Longrightarrow> netascii_wf (d @ e) = netascii_wf e"
  by (induction d rule: netascii_wf.induct) auto

end
