(* ===== verification/TftpOption.thy ===== *)
theory TftpOption
  imports Prog
begin

text \<open>
  src/common/TftpPacketStuff/Option.h and Option.cpp: the option names, the \<open>Option\<close>
  constructor with its validation of the value, and \<open>Option::MakeRaw\<close>.
  \<open>valid_option\<close> is what the constructor guarantees; \<open>wire_option\<close> is what survives a trip
  over the wire. The option parser the request and the OACK packets share is at the end.
\<close>

datatype opt_name = BLKSIZE | TIMEOUT | TSIZE | UNSUPPORTED

record tftp_option =
  opt_name :: opt_name
  opt_nameStr :: string
  opt_value :: string

definition MIN_BLOCK_SIZE :: int where "MIN_BLOCK_SIZE = 8"
definition MAX_BLOCK_SIZE :: int where "MAX_BLOCK_SIZE = 65464"
definition MIN_TIMEOUT :: int where "MIN_TIMEOUT = 1"
definition MAX_TIMEOUT :: int where "MAX_TIMEOUT = 255"
definition MIN_TSIZE :: int where "MIN_TSIZE = 0"

lemmas limit_defs = MIN_BLOCK_SIZE_def MAX_BLOCK_SIZE_def MIN_TIMEOUT_def MAX_TIMEOUT_def
  MIN_TSIZE_def

definition parse_opt_name :: "string \<Rightarrow> opt_name" where
  "parse_opt_name nm =
     (if nm = ''blksize'' then BLKSIZE
      else if nm = ''timeout'' then TIMEOUT
      else if nm = ''tsize'' then TSIZE
      else UNSUPPORTED)"

text \<open>
  The \<open>switch\<close> that validates the value. Each case catches \<open>std::invalid_argument\<close> and
  nothing else, so \<open>std::out_of_range\<close> leaves the constructor as it is.
\<close>

definition check_opt_value :: "opt_name \<Rightarrow> string \<Rightarrow> exn + unit" where
  "check_opt_value nm v = (case nm of
     BLKSIZE \<Rightarrow>
       (case stoi v of
          Inl std_invalid_argument \<Rightarrow> Inl (InvalidOptionValueException ''BLKSIZE'' v)
        | Inl std_out_of_range \<Rightarrow> Inl StdOutOfRange
        | Inr blockSize \<Rightarrow>
            if blockSize \<ge> MIN_BLOCK_SIZE \<and> blockSize \<le> MAX_BLOCK_SIZE then Inr ()
            else Inl (InvalidOptionValueException ''BLKSIZE'' v))
   | TIMEOUT \<Rightarrow>
       (case stoll v of
          Inl std_invalid_argument \<Rightarrow> Inl (InvalidOptionValueException ''TIMEOUT'' v)
        | Inl std_out_of_range \<Rightarrow> Inl StdOutOfRange
        | Inr timeout \<Rightarrow>
            if timeout \<ge> MIN_TIMEOUT \<and> timeout \<le> MAX_TIMEOUT then Inr ()
            else Inl (InvalidOptionValueException ''TIMEOUT'' v))
   | TSIZE \<Rightarrow>
       (case stoull v of
          Inl std_invalid_argument \<Rightarrow> Inl (InvalidOptionValueException ''TSIZE'' v)
        | Inl std_out_of_range \<Rightarrow> Inl StdOutOfRange
        | Inr tsize \<Rightarrow>
            if tsize \<ge> MIN_TSIZE then Inr ()
            else Inl (InvalidOptionValueException ''TSIZE'' v))
   | UNSUPPORTED \<Rightarrow> Inr ())"

text \<open>\<open>Option::Option(name, value)\<close>\<close>

definition Option_ctor :: "string \<Rightarrow> string \<Rightarrow> exn + tftp_option" where
  "Option_ctor name v =
     (let lower = map tolower name;
          nm = parse_opt_name lower;
          str = map tolower lower
      in case check_opt_value nm v of
           Inl e \<Rightarrow> Inl e
         | Inr _ \<Rightarrow> Inr \<lparr>opt_name = nm, opt_nameStr = str, opt_value = v\<rparr>)"

text \<open>\<open>Option::MakeRaw\<close>\<close>

fun Option_MakeRaw :: "tftp_option \<Rightarrow> exn + bytes" where
  "Option_MakeRaw opt =
     (case opt_name opt of
        BLKSIZE \<Rightarrow> Inr (StringToVectorNullTerminated ''blksize''
                        @ StringToVectorNullTerminated (opt_value opt))
      | TIMEOUT \<Rightarrow> Inr (StringToVectorNullTerminated ''timeout''
                        @ StringToVectorNullTerminated (opt_value opt))
      | TSIZE \<Rightarrow> Inr (StringToVectorNullTerminated ''tsize''
                        @ StringToVectorNullTerminated (opt_value opt))
      | UNSUPPORTED \<Rightarrow> Inl UnsupportedOptionException)"

text \<open>The loop \<open>for (auto &option : options) raw.insert(raw.end(), option.MakeRaw())\<close>.\<close>

fun options_MakeRaw :: "tftp_option list \<Rightarrow> exn + bytes" where
  "options_MakeRaw [] = Inr []"
| "options_MakeRaw (opt # opts) =
     (case Option_MakeRaw opt of
        Inl e \<Rightarrow> Inl e
      | Inr raw \<Rightarrow> (case options_MakeRaw opts of Inl e \<Rightarrow> Inl e | Inr raws \<Rightarrow> Inr (raw @ raws)))"

section \<open>What the constructor guarantees\<close>

definition opt_name_str :: "opt_name \<Rightarrow> string" where
  "opt_name_str nm = (case nm of BLKSIZE \<Rightarrow> ''blksize'' | TIMEOUT \<Rightarrow> ''timeout''
     | TSIZE \<Rightarrow> ''tsize'' | UNSUPPORTED \<Rightarrow> [])"

text \<open>The value of a supported option is in the option's range.\<close>

definition valid_value :: "opt_name \<Rightarrow> string \<Rightarrow> bool" where
  "valid_value nm v = (case nm of
     BLKSIZE \<Rightarrow> (case stoi v of Inl _ \<Rightarrow> False | Inr n \<Rightarrow> 8 \<le> n \<and> n \<le> 65464)
   | TIMEOUT \<Rightarrow> (case stoi v of Inl _ \<Rightarrow> False | Inr n \<Rightarrow> 1 \<le> n \<and> n \<le> 255)
   | TSIZE \<Rightarrow> (case stoull v of Inl _ \<Rightarrow> False | Inr _ \<Rightarrow> True)
   | UNSUPPORTED \<Rightarrow> True)"

definition valid_option :: "tftp_option \<Rightarrow> bool" where
  "valid_option opt \<longleftrightarrow> valid_value (opt_name opt) (opt_value opt)
     \<and> opt_name opt = parse_opt_name (opt_nameStr opt)
     \<and> map tolower (opt_nameStr opt) = opt_nameStr opt"

lemma check_opt_value_ok: "check_opt_value nm v = Inr () \<longleftrightarrow> valid_value nm v"
proof (cases nm)
  case TIMEOUT
  have "(\<exists>t. stoll v = Inr t \<and> 1 \<le> t \<and> t \<le> 255) \<longleftrightarrow> (\<exists>t. stoi v = Inr t \<and> 1 \<le> t \<and> t \<le> 255)"
    by (auto dest: stoi_stoll intro!: stoll_small_stoi)
  with TIMEOUT show ?thesis
    by (simp add: check_opt_value_def valid_value_def limit_defs
        split: sum.splits sto_error.splits) auto
qed (auto simp: check_opt_value_def valid_value_def limit_defs dest: stoull_range
      split: sum.splits sto_error.splits)

lemma Option_ctor_valid: "Option_ctor name v = Inr opt \<Longrightarrow> valid_option opt \<and> opt_value opt = v"
  using check_opt_value_ok [of "parse_opt_name (map tolower name)" v]
  by (auto simp: Option_ctor_def valid_option_def Let_def split: sum.splits)

lemma Option_ctor_accepts:
  assumes "valid_value (parse_opt_name (map tolower name)) v"
  shows "Option_ctor name v = Inr \<lparr>opt_name = parse_opt_name (map tolower name),
           opt_nameStr = map tolower name, opt_value = v\<rparr>"
  using assms check_opt_value_ok [of "parse_opt_name (map tolower name)" v]
  by (simp add: Option_ctor_def Let_def)

lemma parse_opt_name_str [simp]:
  "nm \<noteq> UNSUPPORTED \<Longrightarrow> parse_opt_name (opt_name_str nm) = nm"
  by (cases nm) (simp_all add: parse_opt_name_def opt_name_str_def)

lemma parse_opt_name_supported: "parse_opt_name s = nm \<Longrightarrow> nm \<noteq> UNSUPPORTED \<Longrightarrow> s = opt_name_str nm"
  by (auto simp: parse_opt_name_def opt_name_str_def split: if_splits)

lemma map_tolower_opt_name_str [simp]: "map tolower (opt_name_str nm) = opt_name_str nm"
  by (cases nm) (simp_all add: opt_name_str_def tolower_def)

lemma nul_free_opt_name_str [simp]: "nul_free (opt_name_str nm)"
  by (cases nm) (simp_all add: opt_name_str_def byte_of_char_def)

lemma Option_MakeRaw_supported:
  "opt_name opt \<noteq> UNSUPPORTED \<Longrightarrow>
     Option_MakeRaw opt = Inr (StringToVectorNullTerminated (opt_name_str (opt_name opt))
                               @ StringToVectorNullTerminated (opt_value opt))"
  by (cases "opt_name opt") (simp_all add: opt_name_str_def)

section \<open>The option parser\<close>

text \<open>
  \<open>ReadWritePacket::ParseOptions\<close> and \<open>OackPacket::ParseOptions\<close> are the same loop; only
  the second rejects an empty value (\<open>check_empty\<close>). The index \<open>i\<close> of the source is the
  position where \<open>opts\<close>, the bytes still to be read, starts.
\<close>

function parse_options_loop ::
  "bool \<Rightarrow> bytes \<Rightarrow> tftp_option list \<Rightarrow> exn + tftp_option list" where
  "parse_options_loop check_empty opts parsed =
     (if opts = [] then Inr parsed
      else
        (let option_name = map tolower (string_of (until_nul opts)) in
         case from_nul opts of
           [] \<Rightarrow> Inl (TFTPIllegalOperationError
                   ''TFTP Illegal Operation: option name not terminated with null byte'')
         | _ # opts1 \<Rightarrow>
             (let option_value = map tolower (string_of (until_nul opts1)) in
              case from_nul opts1 of
                [] \<Rightarrow> Inl (TFTPIllegalOperationError
                        ''TFTP Illegal Operation: option value not terminated with null byte'')
              | _ # opts2 \<Rightarrow>
                  (if check_empty \<and> option_value = [] then
                     Inl (TFTPIllegalOperationError
                       (''TFTP Illegal Operation: missing value for option '' @ option_name))
                   else
                     (case Option_ctor option_name option_value of
                        Inl e \<Rightarrow> Inl e
                      | Inr new_option \<Rightarrow>
                          (if \<exists>opt \<in> set parsed. opt_name opt = opt_name new_option then
                             Inl (TFTPIllegalOperationError
                               (''TFTP Illegal Operation: duplicate option name '' @ option_name))
                           else parse_options_loop check_empty opts2 (parsed @ [new_option])))))))"
  by pat_completeness auto
termination
proof (relation "measure (\<lambda>(_, opts, _). length opts)", goal_cases)
  case (2 check_empty opts parsed nm b opts1 v b' opts2 new_option)
  then show ?case using from_nul_shorter [of opts b opts1] from_nul_shorter [of opts1 b' opts2]
    by simp
qed simp

declare parse_options_loop.simps [simp del]

definition ReadWritePacket_ParseOptions :: "bytes \<Rightarrow> exn + tftp_option list" where
  "ReadWritePacket_ParseOptions options = parse_options_loop False options []"

definition OackPacket_ParseOptions :: "bytes \<Rightarrow> exn + tftp_option list" where
  "OackPacket_ParseOptions options = parse_options_loop True options []"

text \<open>
  What a parsed list satisfies: every option is valid and printable again on the wire, and no
  two share a name.
\<close>

definition wire_option :: "tftp_option \<Rightarrow> bool" where
  "wire_option opt \<longleftrightarrow> valid_option opt \<and> nul_free (opt_value opt)
     \<and> map tolower (opt_value opt) = opt_value opt"

definition wire_options :: "tftp_option list \<Rightarrow> bool" where
  "wire_options opts \<longleftrightarrow> (\<forall>opt \<in> set opts. wire_option opt) \<and> distinct (map opt_name opts)"

lemma parse_options_loop_wire:
  "parse_options_loop ce opts parsed = Inr res \<Longrightarrow> wire_options parsed \<Longrightarrow> wire_options res"
proof (induction ce opts parsed rule: parse_options_loop.induct)
  case (1 ce opts parsed)
  show ?case
  proof (cases "opts = []")
    case True
    with "1.prems" show ?thesis by (simp add: parse_options_loop.simps)
  next
    case False
    with "1.prems"(1) obtain b opts1 b' opts2 new where
      f: "from_nul opts = b # opts1" "from_nul opts1 = b' # opts2"
      and c: "Option_ctor (map tolower (string_of (until_nul opts)))
                (map tolower (string_of (until_nul opts1))) = Inr new"
      and d: "\<not> (\<exists>opt \<in> set parsed. opt_name opt = opt_name new)"
      and e: "\<not> (ce \<and> map tolower (string_of (until_nul opts1)) = [])"
      and r: "parse_options_loop ce opts2 (parsed @ [new]) = Inr res"
      by (subst (asm) parse_options_loop.simps)
        (auto simp: Let_def split: list.splits sum.splits if_splits)
    have "wire_option new"
      using Option_ctor_valid [OF c] by (simp add: wire_option_def)
    with "1.prems"(2) d have "wire_options (parsed @ [new])"
      by (auto simp: wire_options_def)
    with "1.IH" [OF False refl f(1) refl f(2) e c d r] show ?thesis .
  qed
qed

lemma wire_options_Nil [simp]: "wire_options []"
  by (simp add: wire_options_def)

text \<open>The parser reads back what \<open>options_MakeRaw\<close> wrote.\<close>

lemma options_MakeRaw_supported:
  "\<forall>opt \<in> set opts. opt_name opt \<noteq> UNSUPPORTED \<Longrightarrow>
     options_MakeRaw opts = Inr (concat (map (\<lambda>opt.
        StringToVectorNullTerminated (opt_name_str (opt_name opt))
        @ StringToVectorNullTerminated (opt_value opt)) opts))"
  by (induction opts) (simp_all add: Option_MakeRaw_supported del: Option_MakeRaw.simps)

lemma parse_options_loop_step:
  assumes "wire_option opt" "opt_name opt \<noteq> UNSUPPORTED" "ce \<longrightarrow> opt_value opt \<noteq> []"
    and "\<forall>p \<in> set parsed. opt_name p \<noteq> opt_name opt"
  shows "parse_options_loop ce (StringToVectorNullTerminated (opt_name_str (opt_name opt))
            @ StringToVectorNullTerminated (opt_value opt) @ r) parsed
         = parse_options_loop ce r (parsed @ [opt])"
proof -
  have n: "opt_nameStr opt = opt_name_str (opt_name opt)"
    using assms(1,2) by (metis parse_opt_name_supported valid_option_def wire_option_def)
  have "Option_ctor (opt_name_str (opt_name opt)) (opt_value opt) = Inr opt"
    using Option_ctor_accepts [of "opt_name_str (opt_name opt)" "opt_value opt"] assms(1,2) n
    by (simp add: wire_option_def valid_option_def)
  with assms show ?thesis
    by (subst parse_options_loop.simps) (auto simp: Let_def wire_option_def)
qed

lemma parse_options_loop_MakeRaw:
  assumes "wire_options (parsed @ opts)" "\<forall>opt \<in> set opts. opt_name opt \<noteq> UNSUPPORTED"
    and "ce \<longrightarrow> (\<forall>opt \<in> set opts. opt_value opt \<noteq> [])"
  shows "parse_options_loop ce (concat (map (\<lambda>opt.
            StringToVectorNullTerminated (opt_name_str (opt_name opt))
            @ StringToVectorNullTerminated (opt_value opt)) opts)) parsed = Inr (parsed @ opts)"
  using assms
proof (induction opts arbitrary: parsed)
  case Nil
  then show ?case by (simp add: parse_options_loop.simps)
next
  case (Cons opt opts)
  have "opt_name opt \<notin> opt_name ` set parsed" and w: "wire_option opt"
    using Cons.prems(1) by (simp_all add: wire_options_def)
  then have w': "\<forall>p \<in> set parsed. opt_name p \<noteq> opt_name opt" by (metis image_eqI)
  have "wire_options ((parsed @ [opt]) @ opts)" using Cons.prems(1) by simp
  with Cons.IH [of "parsed @ [opt]"] Cons.prems w w' show ?case
    by (simp add: parse_options_loop_step)
qed

end
