(* ===== verification/Packets.thy ===== *)
theory Packets
  imports TftpOption
begin

text \<open>
  src/common/TftpPacketStuff: \<open>TftpPacket\<close> (the opcodes), \<open>DataPacket\<close>, \<open>AckPacket\<close> and
  \<open>ErrorPacket\<close>. A \<open>.._ctor_raw\<close> is the constructor from a received datagram, which throws
  on a malformed one; a \<open>.._MakeRaw\<close> is the serialiser. The locale \<open>packet_codec\<close> is the
  contract the session code relies on: what is serialised is read back.
\<close>

section \<open>Opcodes\<close>

datatype Opcode = RRQ | WRQ | DATA | ACK | ERROR | OACK

definition opcode_num :: "Opcode \<Rightarrow> nat" where
  "opcode_num opc = (case opc of RRQ \<Rightarrow> 1 | WRQ \<Rightarrow> 2 | DATA \<Rightarrow> 3 | ACK \<Rightarrow> 4 | ERROR \<Rightarrow> 5 | OACK \<Rightarrow> 6)"

text \<open>The opcodes are ordered by their numbers, as the enumeration is.\<close>

instantiation Opcode :: linorder
begin

definition less_eq_Opcode :: "Opcode \<Rightarrow> Opcode \<Rightarrow> bool" where
  "less_eq_Opcode a b \<longleftrightarrow> opcode_num a \<le> opcode_num b"

definition less_Opcode :: "Opcode \<Rightarrow> Opcode \<Rightarrow> bool" where
  "less_Opcode a b \<longleftrightarrow> opcode_num a < opcode_num b"

instance
proof
  fix a b :: Opcode
  assume "a \<le> b" "b \<le> a"
  then show "a = b"
    by (cases a; cases b) (simp_all add: less_eq_Opcode_def opcode_num_def)
qed (auto simp: less_eq_Opcode_def less_Opcode_def)

end

text \<open>
  \<open>TftpPacket::ParseOpcode\<close> reads the first two bytes; its callers pass exactly two.
\<close>

definition ParseOpcode :: "bytes \<Rightarrow> exn + Opcode" where
  "ParseOpcode opc =
     (if opc ! 0 = 0 \<and> opc ! 1 = 1 then Inr RRQ
      else if opc ! 0 = 0 \<and> opc ! 1 = 2 then Inr WRQ
      else if opc ! 0 = 0 \<and> opc ! 1 = 3 then Inr DATA
      else if opc ! 0 = 0 \<and> opc ! 1 = 4 then Inr ACK
      else if opc ! 0 = 0 \<and> opc ! 1 = 5 then Inr ERROR
      else if opc ! 0 = 0 \<and> opc ! 1 = 6 then Inr OACK
      else Inl (TFTPIllegalOperationError ''Invalid opcode''))"

definition GetOpcodeFromRaw :: "bytes \<Rightarrow> exn + Opcode" where
  "GetOpcodeFromRaw raw =
     (if length raw < 2 then
        Inl (TFTPIllegalOperationError ''Invalid packet: packet is too short to contain opcode'')
      else ParseOpcode (take 2 raw))"

text \<open>
  The two opcode bytes the serialisers push: \<open>static_cast<uint8_t>(opcode) >> 8\<close>, which is 0
  because the cast has dropped the high byte, and \<open>static_cast<uint8_t>(opcode)\<close>.
\<close>

definition opcode_bytes :: "Opcode \<Rightarrow> bytes" where
  "opcode_bytes opc = [drop_bit 8 (of_nat (opcode_num opc)), of_nat (opcode_num opc)]"

lemma opcode_bytes_eq [wire]:
  "opcode_bytes opc = [0, of_nat (opcode_num opc)]"
  by (cases opc) (simp_all add: opcode_bytes_def opcode_num_def)

lemma GetOpcodeFromRaw_opcode_bytes [simp, wire]:
  "GetOpcodeFromRaw (opcode_bytes opc @ r) = Inr opc"
  by (cases opc) (simp_all add: GetOpcodeFromRaw_def opcode_bytes_eq ParseOpcode_def opcode_num_def)

lemma GetOpcodeFromRaw_Cons2 [simp, wire]:
  "GetOpcodeFromRaw (0 # of_nat (opcode_num opc) # r) = Inr opc"
  using GetOpcodeFromRaw_opcode_bytes [of opc r] by (simp add: opcode_bytes_eq)

lemma GetOpcodeFromRaw_Inr:
  "GetOpcodeFromRaw raw = Inr opc \<longleftrightarrow> (\<exists>r. raw = opcode_bytes opc @ r)"
proof
  assume a: "GetOpcodeFromRaw raw = Inr opc"
  then obtain x y r where raw: "raw = x # y # r"
    by (cases raw; cases "tl raw") (auto simp: GetOpcodeFromRaw_def)
  from a show "\<exists>r. raw = opcode_bytes opc @ r" unfolding raw
    by (auto simp: GetOpcodeFromRaw_def ParseOpcode_def opcode_bytes_eq opcode_num_def
        split: if_splits)
qed auto

lemma GetOpcodeFromRaw_Inl:
  "GetOpcodeFromRaw raw = Inl e \<Longrightarrow> \<exists>m. e = TFTPIllegalOperationError m"
  by (auto simp: GetOpcodeFromRaw_def ParseOpcode_def split: if_splits)

lemma length_opcode_bytes [simp]: "length (opcode_bytes opc) = 2"
  by (simp add: opcode_bytes_def)

section \<open>The contract of a packet class\<close>

text \<open>
  \<open>enc\<close> serialises (and may throw), \<open>dec\<close> is the constructor from raw bytes, \<open>opc\<close> the opcode
  of a packet, and \<open>wf\<close> the packets the contract is about.
\<close>

locale packet_codec =
  fixes enc :: "'p \<Rightarrow> exn + bytes"
    and dec :: "bytes \<Rightarrow> exn + 'p"
    and opc :: "'p \<Rightarrow> Opcode"
    and wf :: "'p \<Rightarrow> bool"
  assumes enc_ok: "wf p \<Longrightarrow> \<exists>r. enc p = Inr (opcode_bytes (opc p) @ r)"
    and dec_enc: "wf p \<Longrightarrow> enc p = Inr raw \<Longrightarrow> dec raw = Inr p"
    and dec_opcode: "dec raw = Inr p \<Longrightarrow> GetOpcodeFromRaw raw = Inr (opc p)"
begin

lemma roundtrip: "wf p \<Longrightarrow> \<exists>raw. enc p = Inr raw \<and> dec raw = Inr p"
  using enc_ok dec_enc by blast

lemma enc_opcode: "wf p \<Longrightarrow> enc p = Inr raw \<Longrightarrow> GetOpcodeFromRaw raw = Inr (opc p)"
  using dec_enc dec_opcode by blast

lemma enc_inject: "wf p \<Longrightarrow> wf q \<Longrightarrow> enc p = enc q \<Longrightarrow> p = q"
  by (metis Inr_inject roundtrip)

lemma wrong_opcode: "GetOpcodeFromRaw raw = Inr op' \<Longrightarrow> op' \<noteq> opc p \<Longrightarrow> dec raw \<noteq> Inr p"
  using dec_opcode by fastforce

end

section \<open>DATA\<close>

record data_packet =
  dp_block_number :: "16 word"
  dp_data :: bytes

definition DataPacket :: "16 word \<Rightarrow> bytes \<Rightarrow> int \<Rightarrow> data_packet" where
  "DataPacket bn d blksize = \<lparr>dp_block_number = bn, dp_data = d\<rparr>"

definition ParseBlockNumber :: "bytes \<Rightarrow> 16 word" where
  "ParseBlockNumber bn = be16 (bn ! 0) (bn ! 1)"

lemma ParseBlockNumber_bytes [simp, wire]: "ParseBlockNumber [hi8 w, lo8 w] = w"
  by (simp add: ParseBlockNumber_def)

text \<open>The limit is computed as \<open>long unsigned int\<close>.\<close>

definition DataPacket_ctor_raw :: "bytes \<Rightarrow> int \<Rightarrow> exn + data_packet" where
  "DataPacket_ctor_raw raw0 blksize =
     (case GetOpcodeFromRaw raw0 of
        Inl e \<Rightarrow> Inl e
      | Inr opc \<Rightarrow>
          (if opc \<noteq> DATA then
             Inl (TFTPIllegalOperationError ''Invalid opcode for DataPacket'')
           else if length raw0 < 4 then
             Inl (TFTPIllegalOperationError ''Invalid DATA packet'')
           else
             (let limit = nat ((2 + 2 + blksize) mod 2 ^ 64);
                  raw = (if length raw0 > limit then take limit raw0 else raw0)
              in Inr \<lparr>dp_block_number = ParseBlockNumber (take 2 (drop 2 raw)),
                      dp_data = drop 4 raw\<rparr>)))"

definition DataPacket_MakeRaw :: "data_packet \<Rightarrow> bytes" where
  "DataPacket_MakeRaw p =
     opcode_bytes DATA @ [hi8 (dp_block_number p), lo8 (dp_block_number p)] @ dp_data p"

lemma length_DataPacket_MakeRaw [simp]:
  "length (DataPacket_MakeRaw p) = 4 + length (dp_data p)"
  by (simp add: DataPacket_MakeRaw_def)

lemma DataPacket_MakeRaw_opcode: "\<exists>r. DataPacket_MakeRaw p = opcode_bytes DATA @ r"
  by (simp add: DataPacket_MakeRaw_def)

lemma GetOpcodeFromRaw_DataPacket [simp, wire]: "GetOpcodeFromRaw (DataPacket_MakeRaw p) = Inr DATA"
  by (simp add: DataPacket_MakeRaw_def)

text \<open>What is read back from a DATA datagram: the payload cut to the block size.\<close>

lemma DataPacket_ctor_raw_MakeRaw [wire]:
  assumes "0 \<le> blksize" "blksize < 2 ^ 32"
  shows "DataPacket_ctor_raw (DataPacket_MakeRaw p) blksize =
    Inr \<lparr>dp_block_number = dp_block_number p, dp_data = take (nat blksize) (dp_data p)\<rparr>"
proof -
  have l: "nat ((4 + blksize) mod 18446744073709551616) = Suc (Suc (Suc (Suc (nat blksize))))"
    using assms by simp
  have g: "GetOpcodeFromRaw (0 # 3 # r) = Inr DATA" for r
    using GetOpcodeFromRaw_Cons2 [of DATA r] by (simp add: opcode_num_def)
  show ?thesis
    by (simp add: DataPacket_ctor_raw_def DataPacket_MakeRaw_def opcode_bytes_eq
        opcode_num_def Let_def l g)
qed

lemma DataPacket_ctor_raw_length:
  assumes "DataPacket_ctor_raw raw blksize = Inr p" "0 \<le> blksize" "blksize < 2 ^ 32"
  shows "length (dp_data p) \<le> nat blksize"
proof -
  have "nat ((2 + 2 + blksize) mod 2 ^ 64) = 4 + nat blksize"
    using assms(2,3) by (simp add: nat_add_distrib)
  with assms(1) show ?thesis
    by (auto simp: DataPacket_ctor_raw_def Let_def split: sum.splits if_splits)
qed

lemma DataPacket_ctor_raw_opcode:
  "DataPacket_ctor_raw raw blksize = Inr p \<Longrightarrow> GetOpcodeFromRaw raw = Inr DATA"
  by (auto simp: DataPacket_ctor_raw_def split: sum.splits if_splits)

text \<open>The DATA codec, for a block size that a session can have.\<close>

interpretation data_codec: packet_codec
  "\<lambda>p. Inr (DataPacket_MakeRaw p)" "\<lambda>raw. DataPacket_ctor_raw raw 512" "\<lambda>_. DATA"
  "\<lambda>p. length (dp_data p) \<le> 512"
  by unfold_locales
    (auto simp: DataPacket_MakeRaw_opcode DataPacket_ctor_raw_MakeRaw
      dest: DataPacket_ctor_raw_opcode)

section \<open>ACK\<close>

record ack_packet =
  ap_block_number :: "16 word"

definition AckPacket :: "16 word \<Rightarrow> ack_packet" where
  "AckPacket bn = \<lparr>ap_block_number = bn\<rparr>"

definition AckPacket_ctor_raw :: "bytes \<Rightarrow> exn + ack_packet" where
  "AckPacket_ctor_raw raw =
     (case GetOpcodeFromRaw raw of
        Inl e \<Rightarrow> Inl e
      | Inr opc \<Rightarrow>
          (if opc \<noteq> ACK then Inl (TFTPIllegalOperationError ''Invalid opcode for AckPacket'')
           else if length raw < 4 then Inl (TFTPIllegalOperationError ''Invalid ACK packet'')
           else Inr \<lparr>ap_block_number = ParseBlockNumber (take 2 (drop 2 raw))\<rparr>))"

definition AckPacket_MakeRaw :: "ack_packet \<Rightarrow> bytes" where
  "AckPacket_MakeRaw p =
     [0, of_nat (opcode_num ACK), hi8 (ap_block_number p), lo8 (ap_block_number p)]"

lemma AckPacket_ctor_raw_MakeRaw [simp, wire]: "AckPacket_ctor_raw (AckPacket_MakeRaw p) = Inr p"
  by (simp add: AckPacket_ctor_raw_def AckPacket_MakeRaw_def ParseBlockNumber_def
      del: of_nat_numeral)

lemma GetOpcodeFromRaw_AckPacket [simp, wire]: "GetOpcodeFromRaw (AckPacket_MakeRaw p) = Inr ACK"
  by (simp add: AckPacket_MakeRaw_def)

lemma AckPacket_MakeRaw_opcode: "\<exists>r. AckPacket_MakeRaw p = opcode_bytes ACK @ r"
  by (simp add: AckPacket_MakeRaw_def opcode_bytes_eq)

lemma AckPacket_ctor_raw_opcode:
  "AckPacket_ctor_raw raw = Inr p \<Longrightarrow> GetOpcodeFromRaw raw = Inr ACK"
  by (auto simp: AckPacket_ctor_raw_def split: sum.splits if_splits)

interpretation ack_codec: packet_codec
  "\<lambda>p. Inr (AckPacket_MakeRaw p)" AckPacket_ctor_raw "\<lambda>_. ACK" "\<lambda>_. True"
  by unfold_locales
    (auto simp: AckPacket_MakeRaw_opcode dest: AckPacket_ctor_raw_opcode)

section \<open>ERROR\<close>

datatype ErrorCode = NOT_DEFINED | FILE_NOT_FOUND | ACCESS_VIOLATION | DISK_FULL
  | ILLEGAL_OPERATION | UNKNOWN_TID | FILE_ALREADY_EXISTS | NO_SUCH_USER | FAILED_NEGOTIATION

definition error_num :: "ErrorCode \<Rightarrow> nat" where
  "error_num ec = (case ec of NOT_DEFINED \<Rightarrow> 0 | FILE_NOT_FOUND \<Rightarrow> 1 | ACCESS_VIOLATION \<Rightarrow> 2
     | DISK_FULL \<Rightarrow> 3 | ILLEGAL_OPERATION \<Rightarrow> 4 | UNKNOWN_TID \<Rightarrow> 5 | FILE_ALREADY_EXISTS \<Rightarrow> 6
     | NO_SUCH_USER \<Rightarrow> 7 | FAILED_NEGOTIATION \<Rightarrow> 8)"

record error_packet =
  ep_error_code :: ErrorCode
  ep_error_message :: string

definition ErrorPacket :: "ErrorCode \<Rightarrow> string \<Rightarrow> error_packet" where
  "ErrorPacket ec msg = \<lparr>ep_error_code = ec, ep_error_message = msg\<rparr>"

definition ParseErrorCode :: "bytes \<Rightarrow> exn + ErrorCode" where
  "ParseErrorCode ec =
     (let err_code_int = 256 * unat (ec ! 0) + unat (ec ! 1) in
      if err_code_int = 0 then Inr NOT_DEFINED
      else if err_code_int = 1 then Inr FILE_NOT_FOUND
      else if err_code_int = 2 then Inr ACCESS_VIOLATION
      else if err_code_int = 3 then Inr DISK_FULL
      else if err_code_int = 4 then Inr ILLEGAL_OPERATION
      else if err_code_int = 5 then Inr UNKNOWN_TID
      else if err_code_int = 6 then Inr FILE_ALREADY_EXISTS
      else if err_code_int = 7 then Inr NO_SUCH_USER
      else if err_code_int = 8 then Inr FAILED_NEGOTIATION
      else Inl (TFTPIllegalOperationError
                  (''Invalid error code: '' @ to_string (int err_code_int))))"

definition ParseErrorMessage :: "bytes \<Rightarrow> string" where
  "ParseErrorMessage msg = string_of msg"

text \<open>The message is everything between the code and the last byte, whatever that byte is.\<close>

definition ErrorPacket_ctor_raw :: "bytes \<Rightarrow> exn + error_packet" where
  "ErrorPacket_ctor_raw raw =
     (case GetOpcodeFromRaw raw of
        Inl e \<Rightarrow> Inl e
      | Inr opc \<Rightarrow>
          (if opc \<noteq> ERROR then Inl (TFTPIllegalOperationError ''Invalid opcode for ErrorPacket'')
           else if length raw < 5 then Inl (TFTPIllegalOperationError ''Invalid ERROR packet'')
           else
             (case ParseErrorCode (take 2 (drop 2 raw)) of
                Inl e \<Rightarrow> Inl e
              | Inr ec \<Rightarrow> Inr \<lparr>ep_error_code = ec,
                               ep_error_message = ParseErrorMessage (butlast (drop 4 raw))\<rparr>)))"

definition ErrorPacket_MakeRaw :: "error_packet \<Rightarrow> bytes" where
  "ErrorPacket_MakeRaw p =
     opcode_bytes ERROR
     @ [drop_bit 8 (of_nat (error_num (ep_error_code p))), of_nat (error_num (ep_error_code p))]
     @ bytes_of (ep_error_message p) @ [0]"

lemma ParseErrorCode_error_num:
  "ParseErrorCode [0, of_nat (error_num ec)] = Inr ec"
  by (cases ec) (simp_all add: ParseErrorCode_def error_num_def)

lemma GetOpcodeFromRaw_ErrorPacket [simp, wire]:
  "GetOpcodeFromRaw (ErrorPacket_MakeRaw p) = Inr ERROR"
  by (simp add: ErrorPacket_MakeRaw_def)

lemma ErrorPacket_ctor_raw_MakeRaw [simp, wire]:
  "ErrorPacket_ctor_raw (ErrorPacket_MakeRaw p) = Inr p"
proof -
  have "length (ErrorPacket_MakeRaw p) \<ge> 5" by (simp add: ErrorPacket_MakeRaw_def)
  moreover have "take 2 (drop 2 (ErrorPacket_MakeRaw p)) =
      [0, of_nat (error_num (ep_error_code p))]"
    by (simp add: ErrorPacket_MakeRaw_def opcode_bytes_def)
  moreover have "drop 4 (ErrorPacket_MakeRaw p) = bytes_of (ep_error_message p) @ [0]"
    by (simp add: ErrorPacket_MakeRaw_def opcode_bytes_def)
  ultimately show ?thesis
    by (simp add: ErrorPacket_ctor_raw_def ParseErrorCode_error_num ParseErrorMessage_def)
qed

lemma ErrorPacket_MakeRaw_opcode: "\<exists>r. ErrorPacket_MakeRaw p = opcode_bytes ERROR @ r"
  by (simp add: ErrorPacket_MakeRaw_def)

lemma ErrorPacket_ctor_raw_opcode:
  "ErrorPacket_ctor_raw raw = Inr p \<Longrightarrow> GetOpcodeFromRaw raw = Inr ERROR"
  by (auto simp: ErrorPacket_ctor_raw_def split: sum.splits if_splits)

interpretation error_codec: packet_codec
  "\<lambda>p. Inr (ErrorPacket_MakeRaw p)" ErrorPacket_ctor_raw "\<lambda>_. ERROR" "\<lambda>_. True"
  by unfold_locales
    (auto simp: ErrorPacket_MakeRaw_opcode dest: ErrorPacket_ctor_raw_opcode)

section \<open>The exceptions of the constructors\<close>

lemma packet_ctor_Inl:
  "DataPacket_ctor_raw raw n = Inl e \<Longrightarrow> \<exists>m. e = TFTPIllegalOperationError m"
  "AckPacket_ctor_raw raw = Inl e \<Longrightarrow> \<exists>m. e = TFTPIllegalOperationError m"
  "ErrorPacket_ctor_raw raw = Inl e \<Longrightarrow> \<exists>m. e = TFTPIllegalOperationError m"
  by (auto simp: DataPacket_ctor_raw_def AckPacket_ctor_raw_def ErrorPacket_ctor_raw_def
      ParseErrorCode_def Let_def split: sum.splits if_splits dest: GetOpcodeFromRaw_Inl)

end
