(* ===== verification/Udp.thy ===== *)
theory Udp
  imports FileSystem Netascii Packets
begin

text \<open>
  The state every session runs on, and src/common/udp and src/common/sigint.cpp on it.
  The environment is part of the state: \<open>inbox\<close> is what \<open>recvfrom\<close> is going to return, in
  order, and a run that needs more than it holds stops as \<open>Blocked\<close>; \<open>outbox\<close> is
  what \<open>sendto\<close> was given. \<open>SIGINT_RECEIVED\<close> is set by the signal handler at any time and
  never cleared: \<open>sigint_at = Some n\<close> says that the first \<open>n\<close> loads of the flag read false and
  the later ones true, and \<open>loads\<close> counts the loads. The \<open>Writer\<close> of the session (it has a
  destructor) is part of the state too, and so is \<open>uninit\<close>, the value that a local variable
  nobody initialised happens to have; src/common/IO/Writer.cpp is modelled in theory
  \<open>FileIO\<close>.
\<close>

section \<open>State\<close>

record sockaddr =
  sin_addr :: "32 word"
  sin_port :: "16 word"

text \<open>A datagram, \<open>EAGAIN\<close> after the socket's timeout, any other error of \<open>recvfrom\<close>.\<close>

datatype net_event = Datagram sockaddr bytes | RecvTimeout | RecvFailure

record writer =
  w_filepath :: string
  w_mode :: DataFormat
  w_open :: bool
  w_fail :: bool
  w_tbw_later_buffer :: bytes

record world =
  inbox :: "net_event list"
  outbox :: "(sockaddr \<times> bytes) list"
  sigint_at :: "nat option"
  loads :: nat
  fsys :: filesystem
  the_writer :: writer
  std_in :: stream
  uninit :: byte

section \<open>SIGINT\<close>

definition sigint_set :: "'b world_scheme \<Rightarrow> bool" where
  "sigint_set s = (case sigint_at s of None \<Rightarrow> False | Some n \<Rightarrow> n \<le> loads s)"

text \<open>\<open>SIGINT_RECEIVED.load()\<close>\<close>

definition sigint_load :: "('b world_scheme, bool) prog" where
  "sigint_load = (\<lambda>s. Some (Inr (sigint_set s), s\<lparr>loads := Suc (loads s)\<rparr>))"

lemma wlp_sigint_load [simp, wlp_rules]:
  "wlp sigint_load Q s = Q (Inr (sigint_set s)) (s\<lparr>loads := Suc (loads s)\<rparr>)"
  by (simp add: wlp_def sigint_load_def)

lemma returns_sigint_load [simp, returns_rules]: "returns sigint_load s"
  by (simp add: returns_def sigint_load_def)

lemma sigint_set_mono: "sigint_set s \<Longrightarrow> sigint_set (s\<lparr>loads := Suc (loads s)\<rparr>)"
  by (auto simp: sigint_set_def split: option.splits)

text \<open>
  The constructors of both programs install \<open>SigintHandler\<close> for SIGINT and for no other signal. Without
  \<open>SA_RESTART\<close> a \<open>recvfrom\<close> that is interrupted fails (\<open>RecvFailure\<close> below) instead of going on.
\<close>

datatype signal_number = SIGINT | SIGUSR1

datatype signal_handler = SIG_DFL | SigintHandler

record sigaction =
  sa_handler :: signal_handler
  sa_flags :: "32 word"

definition SA_RESTART :: "32 word" where "SA_RESTART = 0x10000000"

definition initial_actions :: "signal_number \<Rightarrow> sigaction" where
  "initial_actions = (\<lambda>_. \<lparr>sa_handler = SIG_DFL, sa_flags = 0\<rparr>)"

definition install_sigint :: "(signal_number \<Rightarrow> sigaction) \<Rightarrow> signal_number \<Rightarrow> sigaction" where
  "install_sigint actions =
     (let sa = \<lparr>sa_handler = SigintHandler, sa_flags = 0\<rparr>;
          sa' = sa\<lparr>sa_flags := and (sa_flags sa) (not SA_RESTART)\<rparr>
      in (actions(SIGINT := sa))(SIGINT := sa'))"

lemma install_sigint_simps [simp]:
  "sa_handler (install_sigint actions SIGINT) = SigintHandler"
  "and (sa_flags (install_sigint actions SIGINT)) SA_RESTART = 0"
  "install_sigint actions SIGUSR1 = actions SIGUSR1"
  by (simp_all add: install_sigint_def)

section \<open>UdpClient\<close>

text \<open>\<open>timeout_\<close> and the timeout set on the socket, in seconds; \<open>tv_usec\<close> is always 0.\<close>

record udp_client = world +
  udp_timeout :: int
  so_rcvtimeo :: int
  maxPacketSize :: nat

definition default_timeout :: int where "default_timeout = 1"

text \<open>Whether \<open>socket\<close> succeeds is a parameter; the timeout of a new socket can always be set.\<close>

definition UdpClient_ctor :: "bool \<Rightarrow> exn + unit" where
  "UdpClient_ctor socket_ok =
     (if socket_ok then Inr () else Inl (UdpException ''Error: Failed to create socket''))"

definition UdpClient_Send :: "bytes \<Rightarrow> sockaddr \<Rightarrow> ('b world_scheme, unit) prog" where
  "UdpClient_Send data reciever_address =
     modify (\<lambda>s. s\<lparr>outbox := outbox s @ [(reciever_address, data)]\<rparr>)"

text \<open>\<open>recvfrom\<close> into a buffer of \<open>maxPacketSize\<close> bytes.\<close>

definition recvfrom :: "('b udp_client_scheme, sockaddr \<times> bytes) prog" where
  "recvfrom = (\<lambda>s. case inbox s of
     [] \<Rightarrow> Some (Inl Blocked, s)
   | Datagram a d # rest \<Rightarrow> Some (Inr (a, take (maxPacketSize s) d), s\<lparr>inbox := rest\<rparr>)
   | RecvTimeout # rest \<Rightarrow> Some (Inl (Raise UdpTimeoutException), s\<lparr>inbox := rest\<rparr>)
   | RecvFailure # rest \<Rightarrow>
       Some (Inl (Raise (UdpException ''Error receiving data'')), s\<lparr>inbox := rest\<rparr>))"

definition UdpClient_Receive :: "('b udp_client_scheme, sockaddr \<times> bytes) prog" where
  "UdpClient_Receive =
     bnd sigint_load (\<lambda>sigint. if sigint then throw UdpSigintException else recvfrom)"

definition ChangeMaxPacketSize :: "16 word \<Rightarrow> ('b udp_client_scheme, unit) prog" where
  "ChangeMaxPacketSize n = modify (\<lambda>s. s\<lparr>maxPacketSize := unat n\<rparr>)"

definition ChangeTimeout :: "int \<Rightarrow> ('b udp_client_scheme, unit) prog" where
  "ChangeTimeout timeout = modify (\<lambda>s. s\<lparr>so_rcvtimeo := timeout\<rparr>)"

definition IncreaseTimeout :: "('b udp_client_scheme, unit) prog" where
  "IncreaseTimeout =
     seq (modify (\<lambda>s. s\<lparr>udp_timeout := udp_timeout s * 2\<rparr>))
         (\<lambda>s. ChangeTimeout (udp_timeout s) s)"

definition TimeoutReset :: "('b udp_client_scheme, unit) prog" where
  "TimeoutReset =
     seq (modify (\<lambda>s. s\<lparr>udp_timeout := default_timeout\<rparr>))
         (\<lambda>s. ChangeTimeout (udp_timeout s) s)"

lemma wlp_udp [simp, wlp_rules]:
  "wlp (UdpClient_Send d a) Q s = Q (Inr ()) (s\<lparr>outbox := outbox s @ [(a, d)]\<rparr>)"
  "wlp (ChangeTimeout t) Q u = Q (Inr ()) (u\<lparr>so_rcvtimeo := t\<rparr>)"
  "wlp IncreaseTimeout Q u =
     Q (Inr ()) (u\<lparr>udp_timeout := udp_timeout u * 2, so_rcvtimeo := udp_timeout u * 2\<rparr>)"
  "wlp TimeoutReset Q u =
     Q (Inr ()) (u\<lparr>udp_timeout := default_timeout, so_rcvtimeo := default_timeout\<rparr>)"
  by (simp_all add: UdpClient_Send_def ChangeTimeout_def IncreaseTimeout_def TimeoutReset_def
      wlp_def seq_def bnd_def modify_def)

lemma returns_udp [simp, returns_rules]:
  "returns (UdpClient_Send d a) s" "returns (ChangeTimeout t) u" "returns IncreaseTimeout u"
  "returns TimeoutReset u" "returns UdpClient_Receive u" "returns recvfrom u"
  by (simp_all add: returns_def UdpClient_Send_def ChangeTimeout_def IncreaseTimeout_def
      TimeoutReset_def seq_def bnd_def modify_def UdpClient_Receive_def recvfrom_def
      sigint_load_def throw_def stop_with_def split: list.splits net_event.splits)

lemma wlp_recvfrom [simp, wlp_rules]:
  "wlp recvfrom Q s = (case inbox s of
     [] \<Rightarrow> Q (Inl Blocked) s
   | Datagram a d # rest \<Rightarrow> Q (Inr (a, take (maxPacketSize s) d)) (s\<lparr>inbox := rest\<rparr>)
   | RecvTimeout # rest \<Rightarrow> Q (Inl (Raise UdpTimeoutException)) (s\<lparr>inbox := rest\<rparr>)
   | RecvFailure # rest \<Rightarrow>
       Q (Inl (Raise (UdpException ''Error receiving data''))) (s\<lparr>inbox := rest\<rparr>))"
  by (simp add: recvfrom_def wlp_def split: list.splits net_event.splits)

section \<open>Loops that wait for datagrams\<close>

text \<open>
  The contract of the bodies of the waiting loops: each round returns, and a round after which
  the loop may go on has taken at least one event from the inbox. Such a loop always returns.
\<close>

locale consuming_loop =
  fixes guard :: "'a \<Rightarrow> bool"
    and body :: "'a \<Rightarrow> ('b world_scheme, 'a) prog"
  assumes body_returns: "guard a \<Longrightarrow> returns (body a) s"
    and body_consumes: "guard a \<Longrightarrow> wlp (body a) (\<lambda>r s'. case r of Inl e \<Rightarrow> True
          | Inr a' \<Rightarrow> length (inbox s') < length (inbox s)) s"
begin

lemma loop_returns: "returns (while_m guard body a) s"
  by (rule returns_while [where I = "\<lambda>_ _. True" and f = "\<lambda>_ s. length (inbox s)"])
    (auto intro: body_returns wlp_mono [OF body_consumes] split: sum.splits)

text \<open>The loop itself never lengthens the inbox, and shortens it when the guard held at first.\<close>

lemma loop_inbox:
  "wlp (while_m guard body a) (\<lambda>r s'. case r of Inl e \<Rightarrow> True
     | Inr a' \<Rightarrow> length (inbox s') \<le> length (inbox s)
               \<and> (guard a \<longrightarrow> length (inbox s') < length (inbox s))) s"
  by (rule wlp_while [where I = "\<lambda>a' s'. length (inbox s') \<le> length (inbox s)
        \<and> (a' = a \<or> guard a \<longrightarrow> a' = a \<and> s' = s \<or> length (inbox s') < length (inbox s))"])
    (auto intro!: wlp_mono [OF body_consumes] split: sum.splits)

end

section \<open>Receiving from one peer\<close>

definition MAX_RETRIES :: nat where "MAX_RETRIES = 5"

text \<open>
  \<open>ClientHandler::RecievePacketFromClient\<close> and \<open>TftpClient::RecievePacketFromServer\<close> are the
  same code over the peer's address: a datagram from another address is answered with an
  ERROR packet and the next one awaited, five times at most.
\<close>

definition other_sender :: "sockaddr \<Rightarrow> sockaddr \<Rightarrow> bool" where
  "other_sender sender peer \<longleftrightarrow> sin_addr sender \<noteq> sin_addr peer \<or> sin_port sender \<noteq> sin_port peer"

definition unknown_sender_error :: error_packet where
  "unknown_sender_error = ErrorPacket UNKNOWN_TID ''Unknown sender''"

definition refuse_sender ::
  "sockaddr \<times> bytes \<times> nat \<Rightarrow> ('b udp_client_scheme, sockaddr \<times> bytes \<times> nat) prog" where
  "refuse_sender = (\<lambda>(sender, buffer, retries).
     seq (UdpClient_Send (ErrorPacket_MakeRaw unknown_sender_error) sender)
         (bnd UdpClient_Receive (\<lambda>(sender', buffer'). ret (sender', buffer', retries + 1))))"

definition refuse_guard :: "sockaddr \<Rightarrow> sockaddr \<times> bytes \<times> nat \<Rightarrow> bool" where
  "refuse_guard peer = (\<lambda>(sender, buffer, retries). other_sender sender peer \<and> retries < MAX_RETRIES)"

definition RecievePacketFrom :: "sockaddr \<Rightarrow> ('b udp_client_scheme, bytes) prog" where
  "RecievePacketFrom peer =
     bnd UdpClient_Receive (\<lambda>(sender, buffer).
     bnd (while_m (refuse_guard peer) refuse_sender (sender, buffer, 0)) (\<lambda>(sender, buffer, retries).
     if retries \<ge> MAX_RETRIES then throw UdpTimeoutException else ret buffer))"

lemma other_sender_iff [simp]: "other_sender a b \<longleftrightarrow> a \<noteq> b"
  by (auto simp: other_sender_def)

text \<open>What was sent to one address, in order.\<close>

definition sent_to :: "sockaddr \<Rightarrow> (sockaddr \<times> bytes) list \<Rightarrow> bytes list" where
  "sent_to a out = map snd (filter (\<lambda>(b, _). b = a) out)"

lemma sent_to_simps [simp]:
  "sent_to a [] = []"
  "sent_to a (xs @ ys) = sent_to a xs @ sent_to a ys"
  "sent_to a ((b, d) # xs) = (if b = a then d # sent_to a xs else sent_to a xs)"
  by (simp_all add: sent_to_def)

text \<open>
  The frame of a receive: only the inbox, the outbox and the load counter change, the inbox
  loses a prefix, and the peer is sent nothing.
\<close>

definition recv_frame :: "sockaddr \<Rightarrow> 'b world_scheme \<Rightarrow> 'b world_scheme \<Rightarrow> bool" where
  "recv_frame peer s s' \<longleftrightarrow> (\<exists>used out n.
     inbox s = used @ inbox s' \<and> sent_to peer out = [] \<and>
     s' = s\<lparr>inbox := inbox s', outbox := outbox s @ out, loads := loads s + n\<rparr>)"

lemma recv_frame_refl [simp]: "recv_frame peer s s"
  unfolding recv_frame_def by (rule exI [of _ "[]"], rule exI [of _ "[]"], rule exI [of _ 0]) simp

lemma recv_frameI:
  "inbox s = used @ inb \<Longrightarrow> sent_to peer out = [] \<Longrightarrow> 
   recv_frame peer s (s\<lparr>inbox := inb, outbox := outbox s @ out, loads := loads s + n\<rparr>)"
  by (auto simp: recv_frame_def)

lemma recv_frame_trans [trans]:
  assumes "recv_frame peer s s'" "recv_frame peer s' s''"
  shows "recv_frame peer s s''"
proof -
  obtain u o' n where a: "inbox s = u @ inbox s'" "sent_to peer o' = []"
    "s' = s\<lparr>inbox := inbox s', outbox := outbox s @ o', loads := loads s + n\<rparr>"
    using assms(1) unfolding recv_frame_def by blast
  obtain u2 o2 n2 where b: "inbox s' = u2 @ inbox s''" "sent_to peer o2 = []"
    "s'' = s'\<lparr>inbox := inbox s'', outbox := outbox s' @ o2, loads := loads s' + n2\<rparr>"
    using assms(2) unfolding recv_frame_def by blast
  have "outbox s' = outbox s @ o'" "loads s' = loads s + n" by (subst a(3); simp)+
  then have "s'' = s\<lparr>inbox := inbox s'', outbox := outbox s @ (o' @ o2), loads := loads s + (n + n2)\<rparr>"
    by (subst b(3), subst a(3)) (simp add: add.assoc)
  with a b show ?thesis unfolding recv_frame_def by (metis append.assoc append_Nil sent_to_simps(2))
qed

lemma recv_frame_fields:
  assumes "recv_frame peer s s'"
  shows "fsys s' = fsys s" "the_writer s' = the_writer s" "sigint_at s' = sigint_at s"
    "std_in s' = std_in s" "sent_to peer (outbox s') = sent_to peer (outbox s)"
    "\<exists>used. inbox s = used @ inbox s'" "world.more s' = world.more s"
proof -
  obtain u o' n where a: "inbox s = u @ inbox s'" "sent_to peer o' = []"
    "s' = s\<lparr>inbox := inbox s', outbox := outbox s @ o', loads := loads s + n\<rparr>"
    using assms unfolding recv_frame_def by blast
  from a(1) show "\<exists>used. inbox s = used @ inbox s'" by blast
  show "fsys s' = fsys s" "the_writer s' = the_writer s" "sigint_at s' = sigint_at s"
    "std_in s' = std_in s" "world.more s' = world.more s" by (subst a(3); simp)+
  show "sent_to peer (outbox s') = sent_to peer (outbox s)" by (subst a(3)) (simp add: a(2))
qed

lemma recv_frame_udp_fields:
  fixes s s' :: "'b udp_client_scheme"
  assumes "recv_frame peer s s'"
  shows "udp_timeout s' = udp_timeout s" "so_rcvtimeo s' = so_rcvtimeo s"
    "maxPacketSize s' = maxPacketSize s"
  using assms by (auto simp: recv_frame_def dest: arg_cong [where f = udp_timeout]
      arg_cong [where f = so_rcvtimeo] arg_cong [where f = maxPacketSize])

lemma recv_frame_length: "recv_frame peer s s' \<Longrightarrow> length (inbox s') \<le> length (inbox s)"
  using recv_frame_fields(6) [of peer s s'] by auto

lemma recv_frame_step [simp]:
  "inbox s = e # r \<Longrightarrow> recv_frame peer s (s\<lparr>loads := Suc (loads s), inbox := r\<rparr>)"
  "recv_frame peer s (s\<lparr>loads := Suc (loads s)\<rparr>)"
  "inbox s = e # r \<Longrightarrow> recv_frame peer s (s\<lparr>inbox := r\<rparr>)"
proof -
  have eq: "s\<lparr>loads := Suc (loads s), inbox := r\<rparr> = s\<lparr>inbox := r, loads := Suc (loads s)\<rparr>"
    by (cases s) simp
  show "inbox s = e # r \<Longrightarrow> recv_frame peer s (s\<lparr>loads := Suc (loads s), inbox := r\<rparr>)"
    unfolding eq using recv_frameI [of s "[e]" r peer "[]" 1] by simp
qed (use recv_frameI [of s "[]" "inbox s" peer "[]" 1] recv_frameI [of s "[e]" r peer "[]" 0]
      in simp_all)

lemma recv_frame_send:
  "a \<noteq> peer \<Longrightarrow> recv_frame peer s (s\<lparr>outbox := outbox s @ [(a, d)]\<rparr>)"
  using recv_frameI [of s "[]" "inbox s" peer "[(a, d)]" 0] by simp

text \<open>
  What a receive tells about the inbox: a packet that was returned is the first datagram of
  the peer, and the datagrams skipped before it came from others.
\<close>

definition foreign :: "sockaddr \<Rightarrow> net_event \<Rightarrow> bool" where
  "foreign peer e \<longleftrightarrow> (case e of Datagram a _ \<Rightarrow> a \<noteq> peer | _ \<Rightarrow> False)"

definition took :: "sockaddr \<Rightarrow> 'b udp_client_scheme \<Rightarrow> 'b udp_client_scheme \<Rightarrow> sockaddr \<Rightarrow> bytes \<Rightarrow> bool"
  where
  "took peer s s' a b \<longleftrightarrow> (\<exists>pre d. inbox s = pre @ Datagram a d # inbox s'
     \<and> b = take (maxPacketSize s) d \<and> (\<forall>e \<in> set pre. foreign peer e))"

definition recv_result ::
  "sockaddr \<Rightarrow> 'b udp_client_scheme \<Rightarrow> bytes outcome \<Rightarrow> 'b udp_client_scheme \<Rightarrow> bool" where
  "recv_result peer s r s' \<longleftrightarrow> recv_frame peer s s' \<and> (case r of
     Inr b \<Rightarrow> took peer s s' peer b
   | Inl (Raise e) \<Rightarrow>
       (case e of
          UdpTimeoutException \<Rightarrow> length (inbox s') < length (inbox s)
        | UdpSigintException \<Rightarrow> sigint_set s'
        | UdpException _ \<Rightarrow> length (inbox s') < length (inbox s)
        | _ \<Rightarrow> False)
   | Inl Blocked \<Rightarrow> inbox s' = []
   | _ \<Rightarrow> False)"

lemma took_length: "took peer s s' a b \<Longrightarrow> length (inbox s') < length (inbox s)"
  by (auto simp: took_def)

lemma wlp_UdpClient_Receive:
  "wlp UdpClient_Receive (\<lambda>r s'. recv_frame peer s s' \<and> (case r of
       Inr (a, b) \<Rightarrow> \<exists>d. inbox s = Datagram a d # inbox s' \<and> b = take (maxPacketSize s) d
     | Inl (Raise e) \<Rightarrow>
       (case e of
          UdpTimeoutException \<Rightarrow> length (inbox s') < length (inbox s)
        | UdpSigintException \<Rightarrow> sigint_set s'
        | UdpException _ \<Rightarrow> length (inbox s') < length (inbox s)
        | _ \<Rightarrow> False)
     | Inl Blocked \<Rightarrow> inbox s' = []
     | _ \<Rightarrow> False)) s"
  by (auto simp: UdpClient_Receive_def sigint_set_mono split: list.splits net_event.splits)

lemma took_Receive:
  "inbox s = Datagram a d # inbox s' \<Longrightarrow> took peer s s' a (take (maxPacketSize s) d)"
  by (auto simp: took_def intro: exI [of _ "[]"])

lemma took_trans:
  assumes "took peer s s1 a b" "a \<noteq> peer" "inbox s1 = Datagram a' d # inbox s2"
  shows "took peer s s2 a' (take (maxPacketSize s) d)"
proof -
  obtain pre d1 where "inbox s = pre @ Datagram a d1 # inbox s1" "\<forall>e \<in> set pre. foreign peer e"
    using assms(1) by (auto simp: took_def)
  then show ?thesis unfolding took_def
    by (intro exI [of _ "pre @ [Datagram a d1]"] exI [of _ d]) (simp add: assms foreign_def)
qed

lemma wlp_RecievePacketFrom: "wlp (RecievePacketFrom peer) (recv_result peer s) s"
proof -
  define I where "I = (\<lambda>(a, b, n :: nat) s'. recv_frame peer s s' \<and> took peer s s' a b)"
  have loop: "wlp (while_m (refuse_guard peer) refuse_sender (a, b, 0))
      (\<lambda>r s'. recv_frame peer s s' \<and> (case r of
         Inr (a', b', n) \<Rightarrow> took peer s s' a' b' \<and> (n < MAX_RETRIES \<longrightarrow> a' = peer)
       | Inl e \<Rightarrow> recv_result peer s (Inl e) s')) s1"
    if "recv_frame peer s s1" "took peer s s1 a b" for a b s1
  proof (rule wlp_while [where I = I])
    show "I (a, b, 0) s1" using that by (simp add: I_def)
  next
    fix x s2 assume I: "I x s2" and g: "refuse_guard peer x"
    obtain a b n where x: "x = (a, b, n)" by (cases x) auto
    let ?s3 = "s2\<lparr>outbox := outbox s2 @ [(a, ErrorPacket_MakeRaw unknown_sender_error)]\<rparr>"
    have 3: "recv_frame peer s ?s3" "maxPacketSize s2 = maxPacketSize s" "a \<noteq> peer"
      "took peer s ?s3 a b"
      using I g [unfolded refuse_guard_def] x recv_frame_send [of a peer s2] recv_frame_udp_fields(3) [of peer s s2]
      by (auto simp: I_def took_def intro: recv_frame_trans)
    have t: "took peer s s' a' (take (maxPacketSize s) d)"
      if "inbox s2 = Datagram a' d # inbox s'" for a' d and s' :: "'a udp_client_scheme"
      using took_trans [OF 3(4,3), of a' d s'] that by simp
    have len: "length (inbox ?s3) \<le> length (inbox s)" using 3(1) by (rule recv_frame_length)
    show "wlp (refuse_sender x) (\<lambda>r s'. case r of
         Inl e \<Rightarrow> recv_frame peer s s' \<and> (case Inl e of Inr (a', b', n) \<Rightarrow>
             took peer s s' a' b' \<and> (n < MAX_RETRIES \<longrightarrow> a' = peer)
           | Inl e \<Rightarrow> recv_result peer s (Inl e) s')
       | Inr a' \<Rightarrow> I a' s') s2"
      using len 3(2) unfolding x refuse_sender_def
      by (auto simp: I_def recv_result_def simp del: recv_frame_step intro: recv_frame_trans [OF 3(1)]
          t intro!: wlp_mono [OF wlp_UdpClient_Receive [of peer ?s3]]
          split: sum.splits stop.splits exn.splits)
  next
    fix x s2 assume "I x s2" "\<not> refuse_guard peer x"
    then show "recv_frame peer s s2 \<and> (case Inr x of
         Inr (a', b', n) \<Rightarrow> took peer s s2 a' b' \<and> (n < MAX_RETRIES \<longrightarrow> a' = peer)
       | Inl e \<Rightarrow> recv_result peer s (Inl e) s2)"
      by (auto simp: I_def refuse_guard_def)
  qed
  show ?thesis
    unfolding RecievePacketFrom_def
    by (auto intro!: wlp_mono [OF wlp_UdpClient_Receive [of peer s]] wlp_mono [OF loop] took_Receive
        simp: recv_result_def took_length split: sum.splits stop.splits exn.splits prod.splits)
qed

interpretation refuse_loop: consuming_loop
  "refuse_guard peer" "refuse_sender :: _ \<Rightarrow> ('c udp_client_scheme, _) prog" for peer
  by unfold_locales
    (auto simp: refuse_sender_def intro!: wlp_mono [OF wlp_UdpClient_Receive]
      split: sum.splits prod.splits)

lemma returns_RecievePacketFrom [simp, returns_rules]: "returns (RecievePacketFrom peer) s"
  unfolding RecievePacketFrom_def
  by (auto simp: refuse_loop.loop_returns intro!: wlpI split: sum.splits prod.splits)

end
