(* ===== verification/FileIO.thy ===== *)
theory FileIO
  imports Udp
begin

text \<open>
  src/common/IO: \<open>Reader\<close> (Reader.cpp), \<open>StdHandler\<close> (StdHandler.cpp) and \<open>Writer\<close>
  (Writer.cpp). The locales \<open>block_source\<close> and \<open>block_sink\<close> are what the transfer loops of the
  client and the server use of them in OCTET mode. Where the sources read one byte at the end
  of the input, the local variable that receives it stays uninitialised: its unspecified value
  is the parameter \<open>indet\<close>. A reader sees the content its file had when it was opened.
\<close>

section \<open>Blocks of a content\<close>

text \<open>A content cut in blocks of \<open>n\<close> bytes and a last one that is shorter, possibly empty.\<close>

function blocks :: "nat \<Rightarrow> bytes \<Rightarrow> bytes list" where
  "blocks n c = (if n = 0 \<or> length c < n then [c] else take n c # blocks n (drop n c))"
  by pat_completeness auto
termination
  by (relation "measure (\<lambda>(n, c). length c)") auto

declare blocks.simps [simp del]

lemma blocks_short: "length c < n \<Longrightarrow> blocks n c = [c]"
  by (simp add: blocks.simps)

lemma blocks_long: "0 < n \<Longrightarrow> n \<le> length c \<Longrightarrow> blocks n c = take n c # blocks n (drop n c)"
  by (subst blocks.simps) simp

lemma blocks_not_Nil [simp]: "blocks n c \<noteq> []"
  by (simp add: blocks.simps)

lemma concat_blocks [simp]: "concat (blocks n c) = c"
proof (induction n c rule: blocks.induct)
  case (1 n c)
  then show ?case by (subst blocks.simps) auto
qed

lemma length_blocks: "0 < n \<Longrightarrow> length (blocks n c) = length c div n + 1"
proof (induction n c rule: blocks.induct)
  case (1 n c)
  show ?case
  proof (cases "length c < n")
    case True
    then show ?thesis by (simp add: blocks_short)
  next
    case False
    then have "length (blocks n c) = Suc (length (blocks n (drop n c)))"
      using "1.prems" by (simp add: blocks_long)
    also have "length (blocks n (drop n c)) = length (drop n c) div n + 1"
      by (rule "1.IH") (use "1.prems" False in simp_all)
    also have "Suc (length (drop n c) div n + 1) = length c div n + 1"
      using "1.prems" False le_div_geq [of n "length c"]
      by (simp only: length_drop not_less add_Suc_right add_Suc One_nat_def add_0_right)
    finally show ?thesis .
  qed
qed

lemma blocks_last: "0 < n \<Longrightarrow> length (last (blocks n c)) < n"
proof (induction n c rule: blocks.induct)
  case (1 n c)
  show ?case
  proof (cases "length c < n")
    case True
    then show ?thesis by (simp add: blocks_short)
  next
    case False
    have "length (last (blocks n (drop n c))) < n" by (rule "1.IH") (use "1.prems" False in simp_all)
    with False "1.prems" show ?thesis by (simp add: blocks_long [of n c])
  qed
qed

lemma blocks_full: "0 < n \<Longrightarrow> b \<in> set (butlast (blocks n c)) \<Longrightarrow> length b = n"
proof (induction n c rule: blocks.induct)
  case (1 n c)
  show ?case
  proof (cases "length c < n")
    case True
    then show ?thesis using "1.prems" by (simp add: blocks_short)
  next
    case False
    with "1.prems" have "b = take n c \<or> b \<in> set (butlast (blocks n (drop n c)))"
      by (simp add: blocks_long [of n c])
    then show ?thesis
    proof
      assume "b = take n c"
      with False show ?thesis by simp
    next
      assume "b \<in> set (butlast (blocks n (drop n c)))"
      with "1.prems" False show ?thesis by (intro "1.IH") simp_all
    qed
  qed
qed

lemma blocks_length_le: "0 < n \<Longrightarrow> b \<in> set (blocks n c) \<Longrightarrow> length b \<le> n"
proof (induction n c rule: blocks.induct)
  case (1 n c)
  then show ?case
    by (cases "length c < n") (auto simp: blocks_short blocks_long)
qed

text \<open>A block list with full blocks and a short last one is the cut of its concatenation.\<close>

lemma blocks_concat:
  assumes "0 < n" "\<forall>b \<in> set bs. length b = n" "length l < n"
  shows "blocks n (concat bs @ l) = bs @ [l]"
  using assms by (induction bs) (simp_all add: blocks_short blocks_long)

text \<open>One block more of a list of blocks.\<close>

lemma take_Suc_blocks:
  assumes "blocks n c = drop k bs" "0 < n"
  shows "k < length bs" "take (Suc k) bs = take k bs @ [take n c]"
    "length c < n \<Longrightarrow> Suc k = length bs"
    "n \<le> length c \<Longrightarrow> blocks n (drop n c) = drop (Suc k) bs"
proof -
  have "drop k bs \<noteq> []" using assms blocks_not_Nil by metis
  then show k: "k < length bs" by simp
  have hd: "hd (drop k bs) = take n c"
    unfolding assms(1) [symmetric] using assms(2) by (subst blocks.simps) (auto simp: not_less)
  show "take (Suc k) bs = take k bs @ [take n c]" using take_hd_drop [OF k] hd by simp
  show "length c < n \<Longrightarrow> Suc k = length bs"
    using assms k by (auto simp: blocks_short dest: arg_cong [where f = length])
  assume le: "n \<le> length c"
  have "blocks n (drop n c) = tl (blocks n c)" using blocks_long [OF assms(2) le] by simp
  also have "\<dots> = drop (Suc k) bs" by (simp only: assms(1) drop_Suc tl_drop)
  finally show "blocks n (drop n c) = drop (Suc k) bs" .
qed

section \<open>Reading NETASCII\<close>

definition ends_line :: "bytes \<Rightarrow> bool" where
  "ends_line b \<longleftrightarrow> b \<noteq> [] \<and> (last b = CR \<or> last b = LF)"

text \<open>
  The loop that goes on reading single bytes while the buffer ends in a CR or a LF, from the
  overflow buffer first and then from the stream.
\<close>

function complete_line ::
  "byte \<Rightarrow> exn \<Rightarrow> bytes \<Rightarrow> bytes \<Rightarrow> stream \<Rightarrow> exn + (bytes \<times> bytes \<times> stream)" where
  "complete_line indet err buffer ov st =
     (if \<not> ends_line buffer then Inr (buffer, ov, st)
      else if ov \<noteq> [] then complete_line indet err (buffer @ [hd ov]) (tl ov) st
      else
        (let d = fst (stream_read 1 st); st' = snd (stream_read 1 st);
             buffer' = buffer @ [if d = [] then indet else hd d]
         in if read_failed st' then Inl err
            else if st_eof st' then Inr (buffer', [], st')
            else complete_line indet err buffer' [] st'))"
  by pat_completeness auto
termination
  by (relation "measure (\<lambda>(_, _, _, ov, st). length ov + length (st_rest st))")
    (auto simp: stream_read_def read_failed_def Let_def split: if_splits)

declare complete_line.simps [simp del]

text \<open>The test for the two bytes that end the text.\<close>

definition needs_crlf :: "nat \<Rightarrow> bytes \<Rightarrow> bool" where
  "needs_crlf num_bytes b \<longleftrightarrow> length b < num_bytes
     \<or> (length b \<ge> 2 \<and> (b ! (length b - 2) \<noteq> CR \<or> b ! (length b - 1) \<noteq> LF))"

text \<open>The bytes the overflow buffer provides, then the format conversion and the cut.\<close>

definition take_overflow ::
  "byte \<Rightarrow> exn \<Rightarrow> nat \<Rightarrow> bytes \<Rightarrow> stream \<Rightarrow> exn + (bytes \<times> bytes \<times> stream)" where
  "take_overflow indet err num_bytes ov st =
     (if length ov > 0 then
        (if length ov \<ge> num_bytes
         then complete_line indet err (take num_bytes ov) (drop num_bytes ov) st
         else Inr (ov, [], st))
      else Inr ([], ov, st))"

definition finish_netascii :: "nat \<Rightarrow> bytes \<Rightarrow> bytes \<Rightarrow> bytes \<times> bytes" where
  "finish_netascii num_bytes buffer ov =
     (let b = FormatToNETASCII buffer;
          b' = (if needs_crlf num_bytes b then b @ [CR, LF] else b)
      in if length b' > num_bytes then (take num_bytes b', drop num_bytes b') else (b', ov))"

section \<open>Reader\<close>

record reader =
  r_filepath :: string
  r_file :: "stream option"
  r_mode :: DataFormat
  r_overflow_buffer :: bytes
  r_indet :: byte

definition Reader_ctor :: "string \<Rightarrow> DataFormat \<Rightarrow> byte \<Rightarrow> reader" where
  "Reader_ctor filepath mode indet =
     \<lparr>r_filepath = filepath, r_file = None, r_mode = mode, r_overflow_buffer = [], r_indet = indet\<rparr>"

definition Reader_OpenFile :: "reader \<Rightarrow> ('b world_scheme, stream) prog" where
  "Reader_OpenFile r =
     bnd (gets fsys) (\<lambda>fs.
     case open_read fs (r_filepath r) of
       None \<Rightarrow> throw (FailedToOpenFileException (r_filepath r))
     | Some st \<Rightarrow> ret st)"

definition reader_netascii ::
  "byte \<Rightarrow> nat \<Rightarrow> bytes \<Rightarrow> stream \<Rightarrow> exn + (bytes \<times> bytes \<times> stream)" where
  "reader_netascii indet num_bytes ov0 st0 =
     (case take_overflow indet FailedToReadFromFileException num_bytes ov0 st0 of
        Inl e \<Rightarrow> Inl e
      | Inr (buffer, ov, st) \<Rightarrow>
          (case (if length buffer < num_bytes then
                   (let data = fst (stream_read (num_bytes - length buffer) st);
                        st' = snd (stream_read (num_bytes - length buffer) st);
                        buffer' = buffer @ data
                    in if read_failed st' then Inl FailedToReadFromFileException
                       else if length buffer' = num_bytes \<and> \<not> st_eof st'
                       then complete_line indet FailedToReadFromFileException buffer' ov st'
                       else Inr (buffer', ov, st'))
                 else Inr (buffer, ov, st)) of
             Inl e \<Rightarrow> Inl e
           | Inr (buffer', ov', st') \<Rightarrow>
               (let (out, ov'') = finish_netascii num_bytes buffer' ov' in Inr (out, ov'', st'))))"

definition Reader_ReadFile :: "nat \<Rightarrow> reader \<Rightarrow> ('b world_scheme, bytes \<times> reader) prog" where
  "Reader_ReadFile num_bytes r =
     bnd (gets fsys) (\<lambda>fs.
     if \<not> FileExists fs (r_filepath r) then throw (FileDoesNotExistException (r_filepath r))
     else
       bnd (case r_file r of None \<Rightarrow> Reader_OpenFile r | Some st \<Rightarrow> ret st) (\<lambda>st.
       if r_mode r = DF_NETASCII then
         (case reader_netascii (r_indet r) num_bytes (r_overflow_buffer r) st of
            Inl e \<Rightarrow> throw e
          | Inr (buffer, ov, st') \<Rightarrow>
              ret (buffer, r\<lparr>r_file := Some st', r_overflow_buffer := ov\<rparr>))
       else
         (let data = fst (stream_read num_bytes st); st' = snd (stream_read num_bytes st) in
          if read_failed st' then throw FailedToReadFromFileException
          else ret (data, r\<lparr>r_file := Some st'\<rparr>))))"

text \<open>Reading a file leaves the state alone.\<close>

lemma wlp_Reader_ReadFile: "wlp (Reader_ReadFile n r) (\<lambda>_ s'. s' = s) s"
  by (auto simp: Reader_ReadFile_def Reader_OpenFile_def Let_def
      split: sum.splits option.splits prod.splits if_splits)

lemma returns_Reader_ReadFile [simp, returns_rules]: "returns (Reader_ReadFile n r) s"
  unfolding Reader_ReadFile_def Reader_OpenFile_def Let_def
  by (intro returns_intros) (auto split: sum.splits option.splits prod.splits if_splits)

section \<open>StdHandler\<close>

record std_handler =
  sh_mode :: DataFormat
  sh_overflow_buffer :: bytes
  sh_indet :: byte

definition StdHandler_ctor :: "DataFormat \<Rightarrow> byte \<Rightarrow> std_handler" where
  "StdHandler_ctor mode indet = \<lparr>sh_mode = mode, sh_overflow_buffer = [], sh_indet = indet\<rparr>"

text \<open>
  The second loop of \<open>ReadBytesFromStdin\<close> does not update \<open>last_index\<close>: once entered it only
  ends at the end of the input.
\<close>

function read_to_eof :: "byte \<Rightarrow> bytes \<Rightarrow> stream \<Rightarrow> exn + (bytes \<times> stream)" where
  "read_to_eof indet buffer st =
     (let d = fst (stream_read 1 st); st' = snd (stream_read 1 st);
          buffer' = buffer @ [if d = [] then indet else hd d]
      in if read_failed st' then Inl FailedToReadFromStdinException
         else if st_eof st' then Inr (buffer', st')
         else read_to_eof indet buffer' st')"
  by pat_completeness auto
termination
  by (relation "measure (\<lambda>(_, _, st). length (st_rest st))")
    (auto simp: stream_read_def read_failed_def Let_def split: if_splits)

declare read_to_eof.simps [simp del]

definition std_netascii ::
  "byte \<Rightarrow> nat \<Rightarrow> bytes \<Rightarrow> stream \<Rightarrow> exn + (bytes \<times> bytes \<times> stream)" where
  "std_netascii indet num_bytes ov0 st0 =
     (case take_overflow indet FailedToReadFromStdinException num_bytes ov0 st0 of
        Inl e \<Rightarrow> Inl e
      | Inr (buffer, ov, st) \<Rightarrow>
          (case (if length buffer < num_bytes then
                   (let data = fst (stream_read (num_bytes - length buffer) st);
                        st' = snd (stream_read (num_bytes - length buffer) st);
                        buffer' = buffer @ data
                    in if read_failed st' then Inl FailedToReadFromStdinException
                       else if length buffer' = num_bytes \<and> \<not> st_eof st' \<and> ends_line buffer'
                       then map_sum id (\<lambda>(b, st''). (b, ov, st'')) (read_to_eof indet buffer' st')
                       else Inr (buffer', ov, st'))
                 else Inr (buffer, ov, st)) of
             Inl e \<Rightarrow> Inl e
           | Inr (buffer', ov', st') \<Rightarrow>
               (let (out, ov'') = finish_netascii num_bytes buffer' ov' in Inr (out, ov'', st'))))"

definition ReadBytesFromStdin ::
  "nat \<Rightarrow> std_handler \<Rightarrow> ('b world_scheme, bytes \<times> std_handler) prog" where
  "ReadBytesFromStdin num_bytes h =
     bnd (gets std_in) (\<lambda>st.
     if sh_mode h = DF_NETASCII then
       (case std_netascii (sh_indet h) num_bytes (sh_overflow_buffer h) st of
          Inl e \<Rightarrow> throw e
        | Inr (buffer, ov, st') \<Rightarrow>
            seq (modify (\<lambda>s. s\<lparr>std_in := st'\<rparr>)) (ret (buffer, h\<lparr>sh_overflow_buffer := ov\<rparr>)))
     else
       (let data = fst (stream_read num_bytes st); st' = snd (stream_read num_bytes st) in
        seq (modify (\<lambda>s. s\<lparr>std_in := st'\<rparr>))
            (if read_failed st' then throw FailedToReadFromStdinException else ret (data, h))))"

section \<open>Writer\<close>

definition Writer_ctor :: "string \<Rightarrow> DataFormat \<Rightarrow> ('b world_scheme, unit) prog" where
  "Writer_ctor filepath mode = modify (\<lambda>s. s\<lparr>the_writer :=
     \<lparr>w_filepath = filepath, w_mode = mode, w_open = False, w_fail = False,
      w_tbw_later_buffer = []\<rparr>\<rparr>)"

definition Writer_OpenFile :: "('b world_scheme, unit) prog" where
  "Writer_OpenFile =
     bnd (gets the_writer) (\<lambda>w.
     bnd (gets fsys) (\<lambda>fs.
     case open_write fs (w_filepath w) of
       None \<Rightarrow> throw (FailedToOpenFileException (w_filepath w))
     | Some fs' \<Rightarrow>
         modify (\<lambda>s. s\<lparr>fsys := fs', the_writer := w\<lparr>w_open := True, w_fail := False\<rparr>\<rparr>)))"

text \<open>\<open>file_.write(..); file_.flush();\<close>: nothing happens on a stream that has failed.\<close>

definition writer_put :: "bytes \<Rightarrow> ('b world_scheme, unit) prog" where
  "writer_put d = modify (\<lambda>s.
     let w = the_writer s in
     if w_fail w then s
     else let (ok, fs') = append_file (fsys s) (w_filepath w) d
          in s\<lparr>fsys := fs', the_writer := w\<lparr>w_fail := \<not> ok\<rparr>\<rparr>)"

definition set_later :: "bytes \<Rightarrow> ('b world_scheme, unit) prog" where
  "set_later d = modify (\<lambda>s. s\<lparr>the_writer := (the_writer s)\<lparr>w_tbw_later_buffer := d\<rparr>\<rparr>)"

definition Writer_WriteFile :: "bytes \<Rightarrow> ('b world_scheme, unit) prog" where
  "Writer_WriteFile data0 =
     bnd (gets the_writer) (\<lambda>w0.
     seq (if \<not> w_open w0 then Writer_OpenFile else skip)
     (bnd (gets the_writer) (\<lambda>w.
      let data = w_tbw_later_buffer w @ data0 in
      seq (set_later [])
      (seq (if w_mode w = DF_NETASCII then
              (let d = FormatFromNETASCII data in
               if d = [] then stop_with (Undefined ''data[data.size() - 1] of an empty vector'')
               else if last d = CR then seq (set_later [CR]) (writer_put (butlast d))
               else writer_put d)
            else writer_put data)
      (bnd (gets the_writer) (\<lambda>w'.
       if w_fail w' then throw FailedToWriteToFileException else skip))))))"

definition Writer_dtor :: "('b world_scheme, unit) prog" where
  "Writer_dtor =
     bnd (gets the_writer) (\<lambda>w.
     if w_open w then
       seq (if length (w_tbw_later_buffer w) > 0 then writer_put (w_tbw_later_buffer w) else skip)
           (modify (\<lambda>s. s\<lparr>the_writer := (the_writer s)\<lparr>w_open := False\<rparr>\<rparr>))
     else skip)"

section \<open>The contracts of the transfer loops\<close>

text \<open>
  A source of blocks: while it is good, reading \<open>n\<close> bytes returns the next \<open>n\<close> of what is
  left, all of it when fewer are, and changes nothing else but the standard input.
\<close>

locale block_source =
  fixes read :: "nat \<Rightarrow> 'r \<Rightarrow> ('b world_scheme, bytes \<times> 'r) prog"
    and left :: "'r \<Rightarrow> 'b world_scheme \<Rightarrow> bytes"
    and good :: "'r \<Rightarrow> 'b world_scheme \<Rightarrow> bool"
  assumes read_good: "good r s \<Longrightarrow> 0 < n \<Longrightarrow> \<exists>r' st.
      read n r s = Some (Inr (take n (left r s), r'), s\<lparr>std_in := st\<rparr>)
      \<and> left r' (s\<lparr>std_in := st\<rparr>) = drop n (left r s)
      \<and> (n \<le> length (left r s) \<longrightarrow> good r' (s\<lparr>std_in := st\<rparr>))"
begin

text \<open>Reading until a block is short gives the blocks of what was left.\<close>

fun read_blocks :: "nat \<Rightarrow> nat \<Rightarrow> 'r \<Rightarrow> 'b world_scheme \<Rightarrow> bytes list" where
  "read_blocks 0 n r s = []"
| "read_blocks (Suc k) n r s =
     (case read n r s of
        Some (Inr (d, r'), s') \<Rightarrow> d # (if length d < n then [] else read_blocks k n r' s')
      | _ \<Rightarrow> [])"

lemma read_blocks_eq:
  "good r s \<Longrightarrow> 0 < n \<Longrightarrow> length (left r s) < k \<Longrightarrow> read_blocks k n r s = blocks n (left r s)"
proof (induction k arbitrary: r s)
  case (Suc k)
  obtain r' st where rd: "read n r s = Some (Inr (take n (left r s), r'), s\<lparr>std_in := st\<rparr>)"
    "left r' (s\<lparr>std_in := st\<rparr>) = drop n (left r s)"
    "n \<le> length (left r s) \<longrightarrow> good r' (s\<lparr>std_in := st\<rparr>)"
    using read_good [OF Suc.prems(1,2)] by blast
  show ?case
  proof (cases "length (left r s) < n")
    case True
    with rd show ?thesis by (simp add: blocks_short)
  next
    case False
    with rd Suc.prems Suc.IH [of r' "s\<lparr>std_in := st\<rparr>"] show ?thesis by (simp add: blocks_long)
  qed
qed simp

lemma wlp_read:
  assumes "good r s" "0 < n"
  shows "wlp (read n r) (\<lambda>res s'. \<exists>r' st. res = Inr (take n (left r s), r') \<and> s' = s\<lparr>std_in := st\<rparr>
     \<and> left r' s' = drop n (left r s) \<and> (n \<le> length (left r s) \<longrightarrow> good r' s')) s"
  using read_good [OF assms] by (auto simp: wlp_def)

end

text \<open>An OCTET reader on an existing file, opened or not, and OCTET reading of standard input.\<close>

definition reader_left :: "reader \<Rightarrow> 'b world_scheme \<Rightarrow> bytes" where
  "reader_left r s = (case r_file r of
     Some st \<Rightarrow> st_rest st
   | None \<Rightarrow> (case nodes (fsys s) (canonical_of (fsys s) (r_filepath r)) of
       Some (FileN c) \<Rightarrow> c | _ \<Rightarrow> []))"

definition reader_good :: "reader \<Rightarrow> 'b world_scheme \<Rightarrow> bool" where
  "reader_good r s \<longleftrightarrow> r_mode r = DF_OCTET \<and> FileExists (fsys s) (r_filepath r) \<and>
     (case r_file r of
        Some st \<Rightarrow> good_stream st
      | None \<Rightarrow> may_open (fsys s) (canonical_of (fsys s) (r_filepath r)) \<and>
          (\<exists>c. nodes (fsys s) (canonical_of (fsys s) (r_filepath r)) = Some (FileN c)))"

lemma Reader_ReadFile_octet:
  assumes "reader_good r s"
  shows "\<exists>r'. Reader_ReadFile n r s = Some (Inr (take n (reader_left r s), r'), s)
     \<and> reader_left r' s = drop n (reader_left r s)
     \<and> (n \<le> length (reader_left r s) \<longrightarrow> reader_good r' s)"
proof -
  define st where "st = (case r_file r of Some st \<Rightarrow> st | None \<Rightarrow> stream_of (reader_left r s))"
  have st: "good_stream st" "st_rest st = reader_left r s"
    "(case r_file r of None \<Rightarrow> Reader_OpenFile r | Some st \<Rightarrow> ret st) s = Some (Inr st, s)"
    using assms by (auto simp: st_def reader_good_def reader_left_def Reader_OpenFile_def open_read_def
        bnd_def gets_def ret_def Let_def split: option.splits)
  let ?st' = "snd (stream_read n st)" and ?r' = "r\<lparr>r_file := Some (snd (stream_read n st))\<rparr>"
  have rd: "Reader_ReadFile n r s = Some (Inr (take n (reader_left r s), ?r'), s)"
    using assms st stream_read_good [OF st(1), of n]
    by (simp add: Reader_ReadFile_def reader_good_def bnd_def [of "gets fsys"] gets_def ret_def
        bnd_def Let_def)
  have l: "reader_left ?r' s = drop n (reader_left r s)"
    "n \<le> length (reader_left r s) \<longrightarrow> reader_good ?r' s"
    using assms st stream_read_good [OF st(1), of n]
    by (auto simp: reader_left_def [of ?r'] reader_good_def)
  show ?thesis by (rule exI [of _ ?r']) (intro conjI rd l)
qed

lemma world_std_in_same [simp]: "s\<lparr>std_in := std_in s\<rparr> = s"
  by simp

interpretation file_source: block_source Reader_ReadFile reader_left reader_good
proof unfold_locales
  fix r and s :: "'a world_scheme" and n :: nat
  assume "reader_good r s"
  then show "\<exists>r' st. Reader_ReadFile n r s = Some (Inr (take n (reader_left r s), r'), s\<lparr>std_in := st\<rparr>)
      \<and> reader_left r' (s\<lparr>std_in := st\<rparr>) = drop n (reader_left r s)
      \<and> (n \<le> length (reader_left r s) \<longrightarrow> reader_good r' (s\<lparr>std_in := st\<rparr>))"
    using Reader_ReadFile_octet [of r s n] by (metis world_std_in_same)
qed

definition std_left :: "std_handler \<Rightarrow> 'b world_scheme \<Rightarrow> bytes" where
  "std_left h s = st_rest (std_in s)"

definition std_good :: "std_handler \<Rightarrow> 'b world_scheme \<Rightarrow> bool" where
  "std_good h s \<longleftrightarrow> sh_mode h = DF_OCTET \<and> good_stream (std_in s)"

interpretation stdin_source: block_source ReadBytesFromStdin std_left std_good
proof unfold_locales
  fix h and s :: "'a world_scheme" and n :: nat
  assume g: "std_good h s"
  let ?st = "snd (stream_read n (std_in s))"
  have "ReadBytesFromStdin n h s = Some (Inr (take n (std_left h s), h), s\<lparr>std_in := ?st\<rparr>)"
    using g stream_read_good [of "std_in s" n]
    by (simp add: ReadBytesFromStdin_def std_good_def std_left_def bnd_def gets_def seq_def
        modify_def ret_def Let_def)
  moreover have "std_left h (s\<lparr>std_in := ?st\<rparr>) = drop n (std_left h s)"
    "n \<le> length (std_left h s) \<longrightarrow> std_good h (s\<lparr>std_in := ?st\<rparr>)"
    using g stream_read_good [of "std_in s" n] by (auto simp: std_good_def std_left_def)
  ultimately show "\<exists>r' st. ReadBytesFromStdin n h s =
        Some (Inr (take n (std_left h s), r'), s\<lparr>std_in := st\<rparr>)
      \<and> std_left r' (s\<lparr>std_in := st\<rparr>) = drop n (std_left h s)
      \<and> (n \<le> length (std_left h s) \<longrightarrow> std_good r' (s\<lparr>std_in := st\<rparr>))" by blast
qed

text \<open>
  A sink of blocks: writing appends, or throws one of the two exceptions the transfer loops
  translate; nothing but the file and the writer's own state changes.
\<close>

definition sink_frame :: "'b world_scheme \<Rightarrow> 'b world_scheme \<Rightarrow> bool" where
  "sink_frame s s' \<longleftrightarrow> s' = s\<lparr>fsys := fsys s', the_writer := the_writer s'\<rparr>
     \<and> w_filepath (the_writer s') = w_filepath (the_writer s)
     \<and> canonical_of (fsys s') = canonical_of (fsys s) \<and> may_open (fsys s') = may_open (fsys s)
     \<and> (\<forall>p. p \<noteq> canonical_of (fsys s) (w_filepath (the_writer s)) \<longrightarrow>
           nodes (fsys s') p = nodes (fsys s) p)"

lemma sink_frame_refl [simp]: "sink_frame s s"
  by (simp add: sink_frame_def)

lemma sink_frame_trans [trans]:
  assumes "sink_frame s s'" "sink_frame s' s''"
  shows "sink_frame s s''"
proof -
  have a: "s' = s\<lparr>fsys := fsys s', the_writer := the_writer s'\<rparr>"
    and b: "s'' = s'\<lparr>fsys := fsys s'', the_writer := the_writer s''\<rparr>"
    using assms by (simp_all add: sink_frame_def)
  have "s'' = s\<lparr>fsys := fsys s'', the_writer := the_writer s''\<rparr>"
    by (subst b, subst a) simp
  with assms show ?thesis by (simp add: sink_frame_def)
qed

definition write_error :: "stop \<Rightarrow> bool" where
  "write_error e \<longleftrightarrow> (\<exists>f. e = Raise (FailedToOpenFileException f)) \<or> e = Raise FailedToWriteToFileException"

locale block_sink =
  fixes put :: "bytes \<Rightarrow> ('b world_scheme, unit) prog"
    and holds :: "'b world_scheme \<Rightarrow> bytes \<Rightarrow> bool"
  assumes write_returns: "returns (put d) s"
    and write_block: "holds s c \<Longrightarrow> wlp (put d) (\<lambda>r s'. sink_frame s s' \<and> (case r of
          Inr _ \<Rightarrow> holds s' (c @ d) | Inl e \<Rightarrow> write_error e)) s"
begin

text \<open>Writing a list of blocks one after the other appends their concatenation.\<close>

lemma write_blocks:
  "holds s c \<Longrightarrow> wlp (for_each bs put) (\<lambda>r s'. case r of
     Inr _ \<Rightarrow> holds s' (c @ concat bs) | Inl e \<Rightarrow> write_error e) s"
proof (induction bs arbitrary: s c)
  case (Cons b bs)
  have "wlp (for_each bs put) (\<lambda>r s''. case r of Inl e \<Rightarrow> write_error e
      | Inr _ \<Rightarrow> holds s'' (c @ concat (b # bs))) s'" if "holds s' (c @ b)" for s'
    using Cons.IH [OF that] unfolding append_assoc concat.simps .
  note rest = this
  show ?case
    unfolding for_each.simps wlp_seq
  proof (rule wlp_mono [OF write_block [OF Cons.prems, of b]], goal_cases)
    case (1 r s')
    then show ?case using rest [of s'] by (cases r) simp_all
  qed
qed simp

end

text \<open>The OCTET writer is such a sink: \<open>c\<close> is what its file holds since it was opened.\<close>

definition writer_holds :: "'b world_scheme \<Rightarrow> bytes \<Rightarrow> bool" where
  "writer_holds s c \<longleftrightarrow> (let w = the_writer s in
     w_mode w = DF_OCTET \<and> w_tbw_later_buffer w = [] \<and> \<not> w_fail w
     \<and> (if w_open w then nodes (fsys s) (canonical_of (fsys s) (w_filepath w)) = Some (FileN c)
        else c = []))"

lemma wlp_Writer_OpenFile [simp, wlp_rules]:
  "wlp Writer_OpenFile Q s = (case open_write (fsys s) (w_filepath (the_writer s)) of
     None \<Rightarrow> Q (Inl (Raise (FailedToOpenFileException (w_filepath (the_writer s))))) s
   | Some fs' \<Rightarrow> Q (Inr ()) (s\<lparr>fsys := fs',
       the_writer := (the_writer s)\<lparr>w_open := True, w_fail := False\<rparr>\<rparr>))"
  by (simp add: Writer_OpenFile_def split: option.splits)

lemma wlp_writer_parts [simp, wlp_rules]:
  "wlp (set_later d) Q s =
     Q (Inr ()) (s\<lparr>the_writer := (the_writer s)\<lparr>w_tbw_later_buffer := d\<rparr>\<rparr>)"
  "wlp (Writer_ctor f m) Q s = Q (Inr ()) (s\<lparr>the_writer := \<lparr>w_filepath = f, w_mode = m,
     w_open = False, w_fail = False, w_tbw_later_buffer = []\<rparr>\<rparr>)"
  by (simp_all add: set_later_def Writer_ctor_def)

lemma wlp_writer_put [wlp_rules]:
  "wlp (writer_put d) Q s = (if w_fail (the_writer s) then Q (Inr ()) s
     else Q (Inr ()) (s\<lparr>fsys := snd (append_file (fsys s) (w_filepath (the_writer s)) d),
       the_writer := (the_writer s)\<lparr>w_fail :=
         \<not> fst (append_file (fsys s) (w_filepath (the_writer s)) d)\<rparr>\<rparr>))"
  by (simp add: writer_put_def Let_def split_beta)

lemma returns_writer [simp, returns_rules]:
  "returns Writer_OpenFile s" "returns (set_later d) s" "returns (writer_put d) s"
  "returns (Writer_ctor f m) s"
  by (auto simp: Writer_OpenFile_def set_later_def writer_put_def Writer_ctor_def
      split: option.splits intro!: returns_intros)

lemma returns_Writer_dtor [simp, returns_rules]: "returns Writer_dtor s"
  unfolding Writer_dtor_def by (intro returns_intros) simp_all

lemma returns_Writer_WriteFile [simp, returns_rules]: "returns (Writer_WriteFile d) s"
  unfolding Writer_WriteFile_def Let_def by (intro returns_intros) simp_all

lemma wlp_Writer_WriteFile_open:
  "wlp (Writer_WriteFile d) (\<lambda>r s'. case r of Inl e \<Rightarrow> True | Inr _ \<Rightarrow> w_open (the_writer s')) s"
  by (cases "w_open (the_writer s)")
    (auto simp: Writer_WriteFile_def wlp_writer_put Let_def split: option.splits sum.splits)

lemma writer_holds_step:
  assumes "writer_holds s c" "w_open (the_writer s)"
  shows "wlp (Writer_WriteFile d) (\<lambda>r s'. sink_frame s s' \<and> (case r of
           Inr _ \<Rightarrow> writer_holds s' (c @ d) | Inl e \<Rightarrow> write_error e)) s"
proof -
  define p where "p = canonical_of (fsys s) (w_filepath (the_writer s))"
  have a: "nodes (fsys s) p = Some (FileN c)" "w_mode (the_writer s) = DF_OCTET"
    "w_tbw_later_buffer (the_writer s) = []" "\<not> w_fail (the_writer s)"
    using assms by (auto simp: writer_holds_def Let_def p_def)
  have w: "(the_writer s)\<lparr>w_tbw_later_buffer := []\<rparr> = the_writer s"
    using a(3) by (metis writer.surjective writer.update_convs(5))
  have ap: "append_file (fsys s) (w_filepath (the_writer s)) d =
      (length d \<le> avail (fsys s), (fsys s)\<lparr>nodes := (nodes (fsys s))(p := Some (FileN (c @ take (avail (fsys s)) d))),
         avail := avail (fsys s) - length (take (avail (fsys s)) d)\<rparr>)"
    using a(1) by (simp add: append_file_def p_def Let_def)
  show ?thesis
    using assms(2) a ap
    by (auto simp: Writer_WriteFile_def w wlp_writer_put Let_def writer_holds_def p_def [symmetric]
        sink_frame_def write_error_def split: sum.splits)
qed

lemma Writer_WriteFile_closed:
  assumes "\<not> w_open (the_writer s)"
  shows "wlp (Writer_WriteFile d) Q s = (case open_write (fsys s) (w_filepath (the_writer s)) of
     None \<Rightarrow> Q (Inl (Raise (FailedToOpenFileException (w_filepath (the_writer s))))) s
   | Some fs' \<Rightarrow> wlp (Writer_WriteFile d) Q (s\<lparr>fsys := fs',
       the_writer := (the_writer s)\<lparr>w_open := True, w_fail := False\<rparr>\<rparr>))"
  using assms by (simp add: Writer_WriteFile_def split: option.splits)

lemma writer_holds_write:
  assumes h: "writer_holds s c"
  shows "wlp (Writer_WriteFile d) (\<lambda>r s'. sink_frame s s' \<and> (case r of
           Inr _ \<Rightarrow> writer_holds s' (c @ d) | Inl e \<Rightarrow> write_error e)) s"
proof (cases "w_open (the_writer s)")
  case True
  with h show ?thesis by (rule writer_holds_step)
next
  case False
  show ?thesis
  proof (cases "open_write (fsys s) (w_filepath (the_writer s))")
    case None
    then show ?thesis by (simp add: Writer_WriteFile_closed [OF False] write_error_def)
  next
    case (Some fs')
    let ?s1 = "s\<lparr>fsys := fs', the_writer := (the_writer s)\<lparr>w_open := True, w_fail := False\<rparr>\<rparr>"
    have c: "c = []" using h False by (simp add: writer_holds_def Let_def)
    have "writer_holds ?s1 c" using h c open_write_static [OF Some]
      by (simp add: writer_holds_def Let_def)
    moreover have "sink_frame s ?s1" using open_write_static [OF Some]
      by (auto simp: sink_frame_def)
    ultimately have "wlp (Writer_WriteFile d) (\<lambda>r s'. sink_frame s s' \<and> (case r of
           Inr _ \<Rightarrow> writer_holds s' (c @ d) | Inl e \<Rightarrow> write_error e)) ?s1"
      by (auto intro: wlp_mono [OF writer_holds_step] sink_frame_trans)
    with Some show ?thesis by (simp add: Writer_WriteFile_closed [OF False])
  qed
qed

interpretation octet_sink: block_sink Writer_WriteFile writer_holds
  by unfold_locales (auto intro: writer_holds_write)

end
