(* ===== verification/OptionPackets.thy ===== *)
theory OptionPackets
  imports Packets
begin

text \<open>
  src/common/TftpPacketStuff: \<open>ReadWritePacket\<close> (RRQ and WRQ), \<open>OackPacket\<close> and
  \<open>TftpPacketFactory\<close>. Both packet classes turn an invalid option value into
  \<open>TTFOptionNegotiationError\<close> and let every other exception of the option parser through.
\<close>

section \<open>RRQ and WRQ\<close>

datatype Mode = NETASCII | OCTET

record read_write_packet =
  rw_opcode :: Opcode
  rw_filepath :: string
  rw_mode :: Mode
  rw_options :: "tftp_option list"

definition MAX_REQUEST_LENGTH :: nat where "MAX_REQUEST_LENGTH = 512"

definition ReadWritePacket_ctor ::
  "Opcode \<Rightarrow> string \<Rightarrow> Mode \<Rightarrow> tftp_option list \<Rightarrow> exn + read_write_packet" where
  "ReadWritePacket_ctor opc filepath mode options =
     (if opc \<noteq> RRQ \<and> opc \<noteq> WRQ then
        Inl (TFTPIllegalOperationError ''Invalid opcode for ReadWritePacket'')
      else Inr \<lparr>rw_opcode = opc, rw_filepath = filepath, rw_mode = mode, rw_options = options\<rparr>)"

definition ParseMode :: "bytes \<Rightarrow> exn + Mode" where
  "ParseMode mode =
     (let modeStr = map tolower (string_of mode) in
      if modeStr = ''netascii'' then Inr NETASCII
      else if modeStr = ''octet'' then Inr OCTET
      else Inl (TFTPIllegalOperationError (''Invalid mode: '' @ modeStr)))"

text \<open>The \<open>catch (InvalidOptionValueException &e)\<close> around the option parser.\<close>

definition negotiation_error :: "exn + 'a \<Rightarrow> exn + 'a" where
  "negotiation_error r = (case r of
     Inl (InvalidOptionValueException _ _) \<Rightarrow> Inl TTFOptionNegotiationError
   | _ \<Rightarrow> r)"

definition ReadWritePacket_ctor_raw :: "bytes \<Rightarrow> exn + read_write_packet" where
  "ReadWritePacket_ctor_raw raw0 =
     (case GetOpcodeFromRaw raw0 of
        Inl e \<Rightarrow> Inl e
      | Inr opc \<Rightarrow>
          (if opc \<noteq> RRQ \<and> opc \<noteq> WRQ then
             Inl (TFTPIllegalOperationError ''Invalid opcode for Read or Write Packet'')
           else if length raw0 < 4 then
             Inl (TFTPIllegalOperationError ''Invalid Read or Write packet'')
           else
             (let raw = (if length raw0 > MAX_REQUEST_LENGTH
                         then take MAX_REQUEST_LENGTH raw0 else raw0) in
              case from_nul (drop 2 raw) of
                [] \<Rightarrow> Inl (TFTPIllegalOperationError ''Invalid filepath in packet'')
              | _ # after_path \<Rightarrow>
                  (case from_nul after_path of
                     [] \<Rightarrow> Inl (TFTPIllegalOperationError ''Invalid mode in packet'')
                   | _ # after_mode \<Rightarrow>
                       (case ParseMode (until_nul after_path) of
                          Inl e \<Rightarrow> Inl e
                        | Inr mode \<Rightarrow>
                            (case (if after_mode \<noteq> []
                                   then negotiation_error (ReadWritePacket_ParseOptions after_mode)
                                   else Inr []) of
                               Inl e \<Rightarrow> Inl e
                             | Inr options \<Rightarrow>
                                 Inr \<lparr>rw_opcode = opc,
                                      rw_filepath = string_of (until_nul (drop 2 raw)),
                                      rw_mode = mode, rw_options = options\<rparr>))))))"

definition ModeToString :: "Mode \<Rightarrow> string" where
  "ModeToString mode = (if mode = NETASCII then ''netascii'' else ''octet'')"

definition ReadWritePacket_MakeRaw :: "read_write_packet \<Rightarrow> exn + bytes" where
  "ReadWritePacket_MakeRaw p =
     (case options_MakeRaw (rw_options p) of
        Inl e \<Rightarrow> Inl e
      | Inr opts \<Rightarrow> Inr (opcode_bytes (rw_opcode p)
                       @ StringToVectorNullTerminated (rw_filepath p)
                       @ StringToVectorNullTerminated (ModeToString (rw_mode p))
                       @ opts))"

text \<open>The requests that survive the wire.\<close>

definition wf_request :: "read_write_packet \<Rightarrow> bool" where
  "wf_request p \<longleftrightarrow> (rw_opcode p = RRQ \<or> rw_opcode p = WRQ) \<and> nul_free (rw_filepath p)
     \<and> wire_options (rw_options p) \<and> (\<forall>opt \<in> set (rw_options p). opt_name opt \<noteq> UNSUPPORTED)
     \<and> (case ReadWritePacket_MakeRaw p of Inl _ \<Rightarrow> False | Inr raw \<Rightarrow> length raw \<le> 512)"

lemma ModeToString_facts [simp]:
  "nul_free (ModeToString m)" "ParseMode (bytes_of (ModeToString m)) = Inr m"
  by (cases m; simp add: ModeToString_def byte_of_char_def ParseMode_def tolower_def)+

lemma negotiation_error_Inr [simp]: "negotiation_error r = Inr x \<longleftrightarrow> r = Inr x"
  by (auto simp: negotiation_error_def split: sum.splits exn.splits)

lemma negotiation_error_of_Inr [simp]: "negotiation_error (Inr x) = Inr x"
  by (simp add: negotiation_error_def)

lemma ReadWritePacket_ctor_raw_opcode:
  "ReadWritePacket_ctor_raw raw = Inr p \<Longrightarrow> GetOpcodeFromRaw raw = Inr (rw_opcode p)"
  by (auto simp: ReadWritePacket_ctor_raw_def Let_def split: sum.splits if_splits list.splits)

lemma ReadWritePacket_ctor_raw_MakeRaw [wire]:
  assumes wf: "wf_request p" and raw: "ReadWritePacket_MakeRaw p = Inr raw"
  shows "ReadWritePacket_ctor_raw raw = Inr p"
proof -
  define opts where "opts = concat (map (\<lambda>opt.
     StringToVectorNullTerminated (opt_name_str (opt_name opt))
     @ StringToVectorNullTerminated (opt_value opt)) (rw_options p))"
  have eq: "raw = opcode_bytes (rw_opcode p) @ StringToVectorNullTerminated (rw_filepath p)
      @ StringToVectorNullTerminated (ModeToString (rw_mode p)) @ opts"
    using wf raw by (auto simp: wf_request_def ReadWritePacket_MakeRaw_def opts_def
        options_MakeRaw_supported)
  have len: "length raw \<le> 512" "4 \<le> length raw"
    using wf raw by (simp_all add: wf_request_def eq)
  have d: "drop 2 raw = StringToVectorNullTerminated (rw_filepath p)
      @ StringToVectorNullTerminated (ModeToString (rw_mode p)) @ opts"
    by (simp add: eq)
  have f: "until_nul (drop 2 raw) = bytes_of (rw_filepath p)"
    "from_nul (drop 2 raw) = 0 # StringToVectorNullTerminated (ModeToString (rw_mode p)) @ opts"
    unfolding d using wf by (simp_all add: wf_request_def)
  have o: "ReadWritePacket_ParseOptions opts = Inr (rw_options p)"
    using parse_options_loop_MakeRaw [of "[]" "rw_options p" False] wf
    by (simp add: wf_request_def opts_def ReadWritePacket_ParseOptions_def)
  have n: "opts = [] \<Longrightarrow> rw_options p = []"
    by (cases "rw_options p") (simp_all add: opts_def)
  have g: "GetOpcodeFromRaw raw = Inr (rw_opcode p)" by (simp add: eq)
  have r: "(if length raw > 512 then take 512 raw else raw) = raw" "\<not> length raw < 4"
    using len by simp_all
  have w: "\<not> (rw_opcode p \<noteq> RRQ \<and> rw_opcode p \<noteq> WRQ)" using wf by (simp add: wf_request_def)
  show ?thesis
    unfolding ReadWritePacket_ctor_raw_def MAX_REQUEST_LENGTH_def Let_def g r(1)
    using n r(2) w by (simp add: f o)
qed

interpretation request_codec: packet_codec
  ReadWritePacket_MakeRaw ReadWritePacket_ctor_raw rw_opcode wf_request
  by unfold_locales
    (auto simp: ReadWritePacket_ctor_raw_MakeRaw ReadWritePacket_MakeRaw_def wf_request_def
      dest: ReadWritePacket_ctor_raw_opcode split: sum.splits)

text \<open>What every accepted request satisfies.\<close>

lemma ReadWritePacket_ctor_raw_wf:
  assumes "ReadWritePacket_ctor_raw raw = Inr p"
  shows "(rw_opcode p = RRQ \<or> rw_opcode p = WRQ) \<and> nul_free (rw_filepath p)
     \<and> wire_options (rw_options p)"
proof -
  have "wire_options opts" if "ReadWritePacket_ParseOptions rest = Inr opts" for rest opts
    using parse_options_loop_wire [of False rest "[]" opts] that
    by (simp add: ReadWritePacket_ParseOptions_def)
  with assms show ?thesis
    by (auto simp: ReadWritePacket_ctor_raw_def Let_def split: sum.splits if_splits list.splits)
qed

section \<open>OACK\<close>

record oack_packet =
  oa_options :: "tftp_option list"

definition OackPacket :: "tftp_option list \<Rightarrow> oack_packet" where
  "OackPacket options = \<lparr>oa_options = options\<rparr>"

definition OackPacket_ctor_raw :: "bytes \<Rightarrow> exn + oack_packet" where
  "OackPacket_ctor_raw raw =
     (case GetOpcodeFromRaw raw of
        Inl e \<Rightarrow> Inl e
      | Inr opc \<Rightarrow>
          (if opc \<noteq> OACK then Inl (TFTPIllegalOperationError ''Invalid opcode for OackPacket'')
           else if length raw < 2 then Inl (TFTPIllegalOperationError ''Invalid OACK packet'')
           else (case negotiation_error (OackPacket_ParseOptions (drop 2 raw)) of
                   Inl e \<Rightarrow> Inl e
                 | Inr options \<Rightarrow> Inr \<lparr>oa_options = options\<rparr>)))"

definition OackPacket_MakeRaw :: "oack_packet \<Rightarrow> exn + bytes" where
  "OackPacket_MakeRaw p =
     (case options_MakeRaw (oa_options p) of
        Inl e \<Rightarrow> Inl e
      | Inr opts \<Rightarrow> Inr (opcode_bytes OACK @ opts))"

definition wf_oack :: "oack_packet \<Rightarrow> bool" where
  "wf_oack p \<longleftrightarrow> wire_options (oa_options p)
     \<and> (\<forall>opt \<in> set (oa_options p). opt_name opt \<noteq> UNSUPPORTED)"

lemma wire_option_value:
  "wire_option opt \<Longrightarrow> opt_name opt \<noteq> UNSUPPORTED \<Longrightarrow> opt_value opt \<noteq> []"
  by (auto simp: wire_option_def valid_option_def valid_value_def stoi_def stoull_def
      strto_integer_def strip_sign_def split: opt_name.splits)

lemma OackPacket_ctor_raw_opcode:
  "OackPacket_ctor_raw raw = Inr p \<Longrightarrow> GetOpcodeFromRaw raw = Inr OACK"
  by (auto simp: OackPacket_ctor_raw_def split: sum.splits if_splits)

lemma OackPacket_MakeRaw_ok: "wf_oack p \<Longrightarrow> \<exists>r. OackPacket_MakeRaw p = Inr (opcode_bytes OACK @ r)"
  by (simp add: OackPacket_MakeRaw_def wf_oack_def options_MakeRaw_supported)

lemma OackPacket_ctor_raw_MakeRaw [wire]:
  assumes wf: "wf_oack p" and raw: "OackPacket_MakeRaw p = Inr raw"
  shows "OackPacket_ctor_raw raw = Inr p"
proof -
  have v: "\<forall>opt \<in> set (oa_options p). opt_value opt \<noteq> []"
    using wf wire_option_value by (auto simp: wf_oack_def wire_options_def)
  show ?thesis
    using wf raw parse_options_loop_MakeRaw [of "[]" "oa_options p" True] v
    by (auto simp: OackPacket_MakeRaw_def OackPacket_ctor_raw_def wf_oack_def
        options_MakeRaw_supported OackPacket_ParseOptions_def negotiation_error_def)
qed

interpretation oack_codec: packet_codec
  OackPacket_MakeRaw OackPacket_ctor_raw "\<lambda>_. OACK" wf_oack
  by unfold_locales
    (auto simp: OackPacket_ctor_raw_MakeRaw OackPacket_MakeRaw_ok dest: OackPacket_ctor_raw_opcode)

lemma OackPacket_ctor_raw_wf:
  "OackPacket_ctor_raw raw = Inr p \<Longrightarrow> wire_options (oa_options p)"
  using parse_options_loop_wire [of True "drop 2 raw" "[]"]
  by (auto simp: OackPacket_ctor_raw_def OackPacket_ParseOptions_def split: sum.splits if_splits)

section \<open>The packet factory\<close>

datatype tftp_packet =
    RW_Packet read_write_packet
  | Data_Packet data_packet
  | Ack_Packet ack_packet
  | Error_Packet error_packet
  | Oack_Packet oack_packet

definition CreatePacket :: "bytes \<Rightarrow> exn + tftp_packet" where
  "CreatePacket raw =
     (case GetOpcodeFromRaw raw of
        Inl e \<Rightarrow> Inl e
      | Inr RRQ \<Rightarrow> map_sum id RW_Packet (ReadWritePacket_ctor_raw raw)
      | Inr WRQ \<Rightarrow> map_sum id RW_Packet (ReadWritePacket_ctor_raw raw)
      | Inr DATA \<Rightarrow> map_sum id Data_Packet (DataPacket_ctor_raw raw 512)
      | Inr ACK \<Rightarrow> map_sum id Ack_Packet (AckPacket_ctor_raw raw)
      | Inr ERROR \<Rightarrow> map_sum id Error_Packet (ErrorPacket_ctor_raw raw)
      | Inr OACK \<Rightarrow> map_sum id Oack_Packet (OackPacket_ctor_raw raw))"

text \<open>\<open>MakeRaw\<close> of the abstract base class: the virtual call by the packet's class.\<close>

fun MakeRaw :: "tftp_packet \<Rightarrow> exn + bytes" where
  "MakeRaw (RW_Packet p) = ReadWritePacket_MakeRaw p"
| "MakeRaw (Data_Packet p) = Inr (DataPacket_MakeRaw p)"
| "MakeRaw (Ack_Packet p) = Inr (AckPacket_MakeRaw p)"
| "MakeRaw (Error_Packet p) = Inr (ErrorPacket_MakeRaw p)"
| "MakeRaw (Oack_Packet p) = OackPacket_MakeRaw p"

fun packet_opcode :: "tftp_packet \<Rightarrow> Opcode" where
  "packet_opcode (RW_Packet p) = rw_opcode p"
| "packet_opcode (Data_Packet p) = DATA"
| "packet_opcode (Ack_Packet p) = ACK"
| "packet_opcode (Error_Packet p) = ERROR"
| "packet_opcode (Oack_Packet p) = OACK"

fun wf_packet :: "tftp_packet \<Rightarrow> bool" where
  "wf_packet (RW_Packet p) = wf_request p"
| "wf_packet (Data_Packet p) = (length (dp_data p) \<le> 512)"
| "wf_packet (Ack_Packet p) = True"
| "wf_packet (Error_Packet p) = True"
| "wf_packet (Oack_Packet p) = wf_oack p"

lemma CreatePacket_opcode:
  "CreatePacket raw = Inr p \<Longrightarrow> GetOpcodeFromRaw raw = Inr (packet_opcode p)"
  by (auto simp: CreatePacket_def map_sum_def split: sum.splits Opcode.splits
      dest: ReadWritePacket_ctor_raw_opcode)

lemma CreatePacket_MakeRaw:
  assumes "wf_packet p" "MakeRaw p = Inr raw"
  shows "CreatePacket raw = Inr p"
proof (cases p)
  case (RW_Packet q)
  with assms have "ReadWritePacket_ctor_raw raw = Inr q" "rw_opcode q = RRQ \<or> rw_opcode q = WRQ"
    "GetOpcodeFromRaw raw = Inr (rw_opcode q)"
    using request_codec.dec_enc request_codec.enc_opcode by (auto simp: wf_request_def)
  with RW_Packet show ?thesis by (auto simp: CreatePacket_def)
next
  case (Data_Packet q)
  with assms data_codec.dec_enc [of q raw] data_codec.enc_opcode [of q raw] show ?thesis
    by (simp add: CreatePacket_def)
next
  case (Oack_Packet q)
  with assms oack_codec.dec_enc [of q raw] oack_codec.enc_opcode [of q raw] show ?thesis
    by (simp add: CreatePacket_def)
qed (use assms in \<open>auto simp: CreatePacket_def\<close>)

interpretation factory_codec: packet_codec MakeRaw CreatePacket packet_opcode wf_packet
proof unfold_locales
  fix p assume "wf_packet p"
  then show "\<exists>r. MakeRaw p = Inr (opcode_bytes (packet_opcode p) @ r)"
    using request_codec.enc_ok oack_codec.enc_ok data_codec.enc_ok ack_codec.enc_ok
      error_codec.enc_ok by (cases p) auto
qed (auto simp: CreatePacket_MakeRaw CreatePacket_opcode)

end
