(* ===== verification/Waiting.thy ===== *)
theory Waiting
  imports FileIO OptionPackets "HOL-Library.Sublist"
begin

text \<open>
  Waiting for a packet of the peer, for both programs: the exception handling around
  \<open>RecievePacketFrom\<close>, the frame of a round that only waits (\<open>quiet\<close>), the ways a round gives
  up, the record of what the peer acknowledged, and the rule \<open>wlp_wait\<close> that the waiting
  rounds of the server and of the client are proved with.
\<close>

section \<open>Shared parts of the handlers\<close>

text \<open>\<open>throw RecievedErrorPacketException(who + " responded with error: " + ..)\<close>\<close>

definition throw_error_packet :: "string \<Rightarrow> bytes \<Rightarrow> ('s, 'a) prog" where
  "throw_error_packet who packet =
     bnd (lift_exn (ErrorPacket_ctor_raw packet)) (\<lambda>error.
     throw (RecievedErrorPacketException (who @ '' responded with error: '' @ ep_error_message error)))"

text \<open>\<open>"Expected .. packet with block number n, got block number m"\<close>\<close>

definition block_number_error :: "string \<Rightarrow> int \<Rightarrow> 16 word \<Rightarrow> exn" where
  "block_number_error what expected got = TFTPIllegalOperationError
     (''Expected '' @ what @ '' packet with block number '' @ to_string expected
      @ '', got block number '' @ to_string (uint got))"

definition timeout_error :: exn where
  "timeout_error = TFTPIllegalOperationError ''Error: Timeout''"

text \<open>
  \<open>catch (UdpTimeoutException &e) { .. } catch (UdpSigintException &e) { .. }\<close> of the waiting
  loops; every other exception goes on.
\<close>

definition catch_wait :: "('s, 'a) prog \<Rightarrow> ('s, 'a) prog \<Rightarrow> exn \<Rightarrow> ('s, 'a) prog" where
  "catch_wait on_timeout on_sigint e =
     (if e = UdpTimeoutException then on_timeout
      else if e = UdpSigintException then on_sigint
      else throw e)"

text \<open>The exceptions of \<open>std::stoi\<close> and its kin, where nothing catches them.\<close>

definition sto_exn :: "sto_error + 'a \<Rightarrow> exn + 'a" where
  "sto_exn r = (case r of
     Inl std_invalid_argument \<Rightarrow> Inl StdInvalidArgument
   | Inl std_out_of_range \<Rightarrow> Inl StdOutOfRange
   | Inr x \<Rightarrow> Inr x)"

definition delete_file :: "string \<Rightarrow> ('b world_scheme, unit) prog" where
  "delete_file path =
     bnd (gets fsys) (\<lambda>fs.
     case DeleteFile fs path of
       Inl e \<Rightarrow> throw e
     | Inr fs' \<Rightarrow> modify (\<lambda>s. s\<lparr>fsys := fs'\<rparr>))"

definition data_format :: "Mode \<Rightarrow> DataFormat" where
  "data_format mode = (if mode = OCTET then DF_OCTET else DF_NETASCII)"

text \<open>The writer's exceptions, translated to TFTP's.\<close>

definition write_block :: "bytes \<Rightarrow> ('b world_scheme, unit) prog" where
  "write_block data = try_catch (Writer_WriteFile data) (\<lambda>e. case e of
     FailedToWriteToFileException \<Rightarrow> throw TFTPDiskFullError
   | FailedToOpenFileException _ \<Rightarrow> throw TFTPAccessViolationError
   | _ \<Rightarrow> throw e)"

text \<open>
  The \<open>catch\<close> clauses of \<open>FollowOnIntroPacket\<close> and of \<open>TftpClient::run\<close>: the ERROR code of
  each TFTP exception.
\<close>

fun error_code_of :: "exn \<Rightarrow> ErrorCode option" where
  "error_code_of (TFTPFileNotFoundError _) = Some FILE_NOT_FOUND"
| "error_code_of TFTPAccessViolationError = Some ACCESS_VIOLATION"
| "error_code_of TFTPDiskFullError = Some DISK_FULL"
| "error_code_of (TFTPIllegalOperationError _) = Some ILLEGAL_OPERATION"
| "error_code_of TFTPUnknownTransferIDError = Some UNKNOWN_TID"
| "error_code_of (TFTPFileAlreadyExistsError _) = Some FILE_ALREADY_EXISTS"
| "error_code_of TFTPNoSuchUserError = Some NO_SUCH_USER"
| "error_code_of TTFOptionNegotiationError = Some FAILED_NEGOTIATION"
| "error_code_of _ = None"

lemma data_format_simps [simp]: "data_format OCTET = DF_OCTET" "data_format NETASCII = DF_NETASCII"
  by (simp_all add: data_format_def)

lemma wlp_delete_file [simp, wlp_rules]:
  "wlp (delete_file path) Q s = (case DeleteFile (fsys s) path of
     Inl e \<Rightarrow> Q (Inl (Raise e)) s | Inr fs' \<Rightarrow> Q (Inr ()) (s\<lparr>fsys := fs'\<rparr>))"
  by (simp add: delete_file_def split: sum.splits)

lemma returns_delete_file [simp, returns_rules]: "returns (delete_file path) s"
  by (auto simp: delete_file_def split: sum.splits intro!: returns_intros)

lemma DeleteFile_Inl: "DeleteFile fs p = Inl e \<Longrightarrow> e = FilesystemError"
  by (auto simp: DeleteFile_def Let_def split: option.splits node.splits if_splits)

lemma returns_write_block [simp, returns_rules]: "returns (write_block d) s"
  unfolding write_block_def by (intro returns_intros) (auto split: exn.splits)

section \<open>Frames\<close>

text \<open>The parts of a session that no waiting loop changes.\<close>

definition same_session :: "'b udp_client_scheme \<Rightarrow> 'b udp_client_scheme \<Rightarrow> bool" where
  "same_session s s' \<longleftrightarrow> udp_client.more s' = udp_client.more s
     \<and> maxPacketSize s' = maxPacketSize s \<and> uninit s' = uninit s \<and> std_in s' = std_in s
     \<and> (\<exists>used. inbox s = used @ inbox s')"

definition quiet :: "sockaddr \<Rightarrow> 'b udp_client_scheme \<Rightarrow> 'b udp_client_scheme \<Rightarrow> bool" where
  "quiet peer s s' \<longleftrightarrow> same_session s s' \<and> fsys s' = fsys s \<and> the_writer s' = the_writer s
     \<and> sent_to peer (outbox s') = sent_to peer (outbox s)"

lemma same_session_refl [simp]: "same_session s s"
  by (simp add: same_session_def)

lemma quiet_refl [simp]: "quiet peer s s"
  by (simp add: quiet_def)

lemma same_session_trans [trans]: "same_session s s' \<Longrightarrow> same_session s' s'' \<Longrightarrow> same_session s s''"
  by (auto simp: same_session_def)

lemma quiet_trans [trans]: "quiet peer s s' \<Longrightarrow> quiet peer s' s'' \<Longrightarrow> quiet peer s s''"
  by (auto simp: quiet_def dest: same_session_trans)

lemma quiet_session: "quiet peer s s' \<Longrightarrow> same_session s s'"
  by (simp add: quiet_def)

lemma same_session_udp [simp]:
  "same_session s (s'\<lparr>udp_timeout := t, so_rcvtimeo := u\<rparr>) \<longleftrightarrow> same_session s s'"
  "same_session s (s'\<lparr>loads := n\<rparr>) \<longleftrightarrow> same_session s s'"
  "same_session s (s'\<lparr>outbox := out\<rparr>) \<longleftrightarrow> same_session s s'"
  "same_session s (s'\<lparr>fsys := fs\<rparr>) \<longleftrightarrow> same_session s s'"
  "same_session s (s'\<lparr>the_writer := w\<rparr>) \<longleftrightarrow> same_session s s'"
  by (simp_all add: same_session_def)

lemma quiet_udp [simp]:
  "quiet peer s (s'\<lparr>udp_timeout := t, so_rcvtimeo := u\<rparr>) \<longleftrightarrow> quiet peer s s'"
  "quiet peer s (s'\<lparr>loads := n\<rparr>) \<longleftrightarrow> quiet peer s s'"
  by (simp_all add: quiet_def)

lemma same_session_inbox: "same_session s s' \<Longrightarrow> length (inbox s') \<le> length (inbox s)"
  by (auto simp: same_session_def)

lemma recv_frame_quiet:
  fixes s s' :: "'b udp_client_scheme"
  assumes f: "recv_frame peer s s'"
  shows "quiet peer s s'"
proof -
  obtain out n where
    eq: "s' = s\<lparr>inbox := inbox s', outbox := outbox s @ out, loads := loads s + n\<rparr>"
    using f unfolding recv_frame_def by blast
  have "udp_client.more s' = udp_client.more s" "maxPacketSize s' = maxPacketSize s"
    "uninit s' = uninit s"
    by (subst eq; simp)+
  with recv_frame_fields [OF f] show ?thesis
    by (simp add: quiet_def same_session_def)
qed

section \<open>Giving up\<close>

text \<open>
  How a waiting round ends without a result: the peer has been sent nothing, or the program
  was interrupted and the last thing the peer was sent is the ERROR packet that says so.
\<close>

definition interrupted :: "stop \<Rightarrow> bool" where
  "interrupted e \<longleftrightarrow> e = Terminate \<or> e = Exit 1 \<or> e = Raise FilesystemError"

definition given_up ::
  "sockaddr \<Rightarrow> bytes \<Rightarrow> 'b udp_client_scheme \<Rightarrow> stop \<Rightarrow> 'b udp_client_scheme \<Rightarrow> bool" where
  "given_up peer farewell s e s' \<longleftrightarrow> same_session s s' \<and> (quiet peer s s' \<or> (interrupted e \<and>
     sent_to peer (outbox s') = sent_to peer (outbox s) @ [farewell]))"

lemma given_upI: "quiet peer s s' \<Longrightarrow> given_up peer farewell s e s'"
  by (simp add: given_up_def quiet_def)

lemma given_up_trans:
  "quiet peer s s' \<Longrightarrow> given_up peer farewell s' e s'' \<Longrightarrow> given_up peer farewell s e s''"
  using quiet_trans [of peer s s' s''] same_session_trans [of s s' s'']
  by (auto simp: given_up_def quiet_def)

section \<open>The waiting rule\<close>

text \<open>What was received: the first datagram of the peer, nothing of the session changed.\<close>

definition received ::
  "sockaddr \<Rightarrow> 'b udp_client_scheme \<Rightarrow> bytes \<Rightarrow> 'b udp_client_scheme \<Rightarrow> bool" where
  "received peer s b s' \<longleftrightarrow> quiet peer s s' \<and> took peer s s' peer b"

lemma wlp_receive:
  "wlp (RecievePacketFrom peer) (\<lambda>r s'. case r of
       Inr b \<Rightarrow> received peer s b s'
     | Inl e \<Rightarrow> quiet peer s s' \<and>
         (e = Raise UdpTimeoutException \<and> length (inbox s') < length (inbox s)
        \<or> e = Raise UdpSigintException \<and> sigint_set s'
        \<or> (\<exists>m. e = Raise (UdpException m)) \<and> length (inbox s') < length (inbox s)
        \<or> e = Blocked \<and> inbox s' = [])) s"
  by (rule wlp_mono [OF wlp_RecievePacketFrom])
    (auto simp: recv_result_def received_def recv_frame_quiet split: sum.splits stop.splits exn.splits)

lemma received_length: "received peer s b s' \<Longrightarrow> length (inbox s') < length (inbox s)"
  by (auto simp: received_def dest: took_length)

lemma received_quiet: "received peer s b s' \<Longrightarrow> quiet peer s s'"
  by (simp add: received_def)

text \<open>The two exceptions the waiting loops handle.\<close>

definition waitable :: "stop \<Rightarrow> bool" where
  "waitable e \<longleftrightarrow> e = Raise UdpTimeoutException \<or> e = Raise UdpSigintException"

definition unhandled :: "'a outcome \<Rightarrow> bool" where
  "unhandled r = (case r of Inl e \<Rightarrow> \<not> waitable e | Inr x \<Rightarrow> True)"

lemma unhandled_simps [simp]: "unhandled (Inl e) \<longleftrightarrow> \<not> waitable e" "unhandled (Inr x)"
  by (simp_all add: unhandled_def)

lemma not_waitable [simp]:
  "\<not> waitable (Raise (TFTPIllegalOperationError m))" "\<not> waitable (Raise (UdpException m))"
  "\<not> waitable (Raise (RecievedErrorPacketException m))" "\<not> waitable Blocked"
  "\<not> waitable Terminate" "\<not> waitable (Undefined u)" "\<not> waitable (Exit n)"
  "\<not> waitable (Raise TFTPDiskFullError)" "\<not> waitable (Raise TFTPAccessViolationError)"
  "\<not> waitable (Raise (block_number_error w n b))" "\<not> waitable (Raise timeout_error)"
  by (simp_all add: waitable_def block_number_error_def timeout_error_def)

lemma ctor_not_waitable:
  "DataPacket_ctor_raw raw n = Inl e \<Longrightarrow> \<not> waitable (Raise e)"
  "AckPacket_ctor_raw raw = Inl e \<Longrightarrow> \<not> waitable (Raise e)"
  "ErrorPacket_ctor_raw raw = Inl e \<Longrightarrow> \<not> waitable (Raise e)"
  "GetOpcodeFromRaw raw = Inl e \<Longrightarrow> \<not> waitable (Raise e)"
  by (auto dest!: packet_ctor_Inl GetOpcodeFromRaw_Inl)

lemma wlp_throw_error_packet:
  "wlp (throw_error_packet w p) (\<lambda>r s'. s' = s \<and> (\<exists>e. r = Inl e \<and> \<not> waitable e)) s"
  by (auto simp: throw_error_packet_def ctor_not_waitable split: sum.splits)

lemma returns_throw_error_packet [simp, returns_rules]: "returns (throw_error_packet w p) s"
  unfolding throw_error_packet_def by (intro returns_intros) simp_all

lemma try_catch_seq:
  "wlp (try_catch (seq m n) h) Q s = wlp m (\<lambda>r s'. case r of
       Inr _ \<Rightarrow> wlp (try_catch n h) Q s'
     | Inl (Raise e) \<Rightarrow> wlp (h e) Q s' | Inl e \<Rightarrow> Q (Inl e) s') s"
  by (simp add: wlp_def try_catch_def seq_def bnd_def split: option.splits sum.splits stop.splits)

lemma wlp_catch_wait [simp, wlp_rules]:
  "wlp (catch_wait to si e) Q s = (if e = UdpTimeoutException then wlp to Q s
     else if e = UdpSigintException then wlp si Q s else Q (Inl (Raise e)) s)"
  by (simp add: catch_wait_def)

lemma returns_catch_wait: "returns to s \<Longrightarrow> returns si s \<Longrightarrow> returns (catch_wait to si e) s"
  by (simp add: catch_wait_def)

lemmas round_returns = returns_intros returns_catch_wait

text \<open>
  The rule of the waiting rounds: what is done with a packet must not raise one of the two
  exceptions itself, and it, the timeout and the interruption must each establish the result.
\<close>

lemma wlp_wait:
  assumes packet: "\<And>b s1. received peer s b s1 \<Longrightarrow> wlp (k b) (\<lambda>r s'. Q r s' \<and> unhandled r) s1"
    and timeout: "\<And>s1. quiet peer s s1 \<Longrightarrow> length (inbox s1) < length (inbox s) \<Longrightarrow> wlp to Q s1"
    and sigint: "\<And>s1. quiet peer s s1 \<Longrightarrow> sigint_set s1 \<Longrightarrow> wlp si Q s1"
    and stops: "\<And>e s1. quiet peer s s1 \<Longrightarrow> Q (Inl e) s1"
  shows "wlp (try_catch (bnd (RecievePacketFrom peer) k) (catch_wait to si)) Q s"
  unfolding wlp_try_catch wlp_bnd
proof (rule wlp_mono [OF wlp_receive], goal_cases)
  case (1 r s1)
  show ?case
  proof (cases r)
    case (Inl e)
    with 1 timeout sigint stops show ?thesis by auto
  next
    case (Inr b)
    with 1 have "received peer s b s1" by simp
    then have "wlp (k b) (\<lambda>r s'. case r of
        Inl (Raise e) \<Rightarrow> wlp (catch_wait to si e) Q s' | _ \<Rightarrow> Q r s') s1"
      by (intro wlp_mono [OF packet])
        (auto simp: unhandled_def waitable_def split: sum.splits stop.splits)
    with Inr show ?thesis by simp
  qed
qed

text \<open>Receiving when the next datagram is the peer's and nothing interrupts.\<close>

lemma receive_peer:
  assumes "sigint_at s = None" "inbox s = Datagram peer d # rest"
  shows "RecievePacketFrom peer s =
    Some (Inr (take (maxPacketSize s) d), s\<lparr>loads := Suc (loads s), inbox := rest\<rparr>)"
proof -
  have "UdpClient_Receive s =
      Some (Inr (peer, take (maxPacketSize s) d), s\<lparr>loads := Suc (loads s), inbox := rest\<rparr>)"
    using assms by (simp add: UdpClient_Receive_def sigint_load_def bnd_def recvfrom_def sigint_set_def)
  moreover have "\<not> refuse_guard peer (peer, take (maxPacketSize s) d, 0)"
    by (simp add: refuse_guard_def)
  ultimately show ?thesis
    by (simp add: RecievePacketFrom_def bnd_def while_m_exit ret_def MAX_RETRIES_def)
qed

section \<open>Acknowledgements\<close>

text \<open>The block numbers of the ACK packets the peer sent, in the order of the events.\<close>

definition ack_event :: "sockaddr \<Rightarrow> nat \<Rightarrow> net_event \<Rightarrow> int list" where
  "ack_event peer limit e = (case e of
     Datagram a d \<Rightarrow>
       if a = peer then
         (case AckPacket_ctor_raw (take limit d) of
            Inl _ \<Rightarrow> [] | Inr p \<Rightarrow> [uint (ap_block_number p)])
       else []
   | _ \<Rightarrow> [])"

definition acks :: "sockaddr \<Rightarrow> nat \<Rightarrow> net_event list \<Rightarrow> int list" where
  "acks peer limit evs = concat (map (ack_event peer limit) evs)"

lemma acks_simps [simp]:
  "acks peer limit [] = []"
  "acks peer limit (e # es) = ack_event peer limit e @ acks peer limit es"
  "acks peer limit (xs @ ys) = acks peer limit xs @ acks peer limit ys"
  by (simp_all add: acks_def)

text \<open>
  \<open>acked peer s ns s'\<close>: the ACKs \<open>ns\<close> were taken from the inbox between the two states, in this
  order, among other datagrams.
\<close>

definition acked ::
  "sockaddr \<Rightarrow> 'b udp_client_scheme \<Rightarrow> int list \<Rightarrow> 'b udp_client_scheme \<Rightarrow> bool" where
  "acked peer s ns s' \<longleftrightarrow> (\<exists>used. inbox s = used @ inbox s'
     \<and> subseq ns (acks peer (maxPacketSize s) used))"

lemma acked_refl [simp]: "acked peer s [] s"
  by (simp add: acked_def)

lemma acked_Nil: "same_session s s' \<Longrightarrow> acked peer s [] s'"
  by (auto simp: acked_def same_session_def)

lemma received_acked:
  assumes "received peer s b s'" "AckPacket_ctor_raw b = Inr p"
  shows "acked peer s [uint (ap_block_number p)] s'"
proof -
  obtain pre d where i: "inbox s = pre @ Datagram peer d # inbox s'"
    and b: "b = take (maxPacketSize s) d"
    using assms(1) by (auto simp: received_def took_def)
  have "acks peer (maxPacketSize s) (pre @ [Datagram peer d]) =
      acks peer (maxPacketSize s) pre @ [uint (ap_block_number p)]"
    using assms(2) by (simp add: ack_event_def b)
  then show ?thesis unfolding acked_def using i
    by (intro exI [of _ "pre @ [Datagram peer d]"]) (simp add: list_emb_append2)
qed

lemma acked_trans:
  assumes "acked peer s ns s1" "same_session s s1" "acked peer s1 ms s'"
  shows "acked peer s (ns @ ms) s'"
proof -
  obtain u v where "inbox s = u @ inbox s1" "inbox s1 = v @ inbox s'"
    "subseq ns (acks peer (maxPacketSize s) u)" "subseq ms (acks peer (maxPacketSize s) v)"
    using assms by (auto simp: acked_def same_session_def)
  then show ?thesis
    unfolding acked_def by (intro exI [of _ "u @ v"]) (simp add: list_emb_append_mono)
qed

lemma acked_before: "same_session s s1 \<Longrightarrow> acked peer s1 ns s' \<Longrightarrow> acked peer s ns s'"
  using acked_trans [of peer s "[]" s1 ns s'] by (simp add: acked_Nil)

lemma acked_after: "acked peer s ns s1 \<Longrightarrow> same_session s s1 \<Longrightarrow> same_session s1 s' \<Longrightarrow> acked peer s ns s'"
  using acked_trans [of peer s ns s1 "[]" s'] by (simp add: acked_Nil)

lemma acked_udp [simp]:
  "acked peer s ns (s'\<lparr>udp_timeout := t, so_rcvtimeo := u\<rparr>) \<longleftrightarrow> acked peer s ns s'"
  by (simp add: acked_def)

text \<open>Block numbers are 16-bit values on the wire.\<close>

lemma uint_block_number: "uint (w :: 16 word) < 65536"
  using uint_bounded [of w] by simp

lemma ack_event_range: "n \<in> set (ack_event peer limit e) \<Longrightarrow> 0 \<le> n \<and> n < 65536"
proof (cases e)
  case (Datagram a d)
  assume "n \<in> set (ack_event peer limit e)"
  with Datagram show ?thesis
    by (cases "AckPacket_ctor_raw (take limit d)"; cases "a = peer")
      (simp_all add: ack_event_def uint_block_number)
qed (simp_all add: ack_event_def)

lemma acks_range: "n \<in> set (acks peer limit evs) \<Longrightarrow> 0 \<le> n \<and> n < 65536"
  by (induction evs) (auto dest: ack_event_range)

lemma acked_range:
  assumes "acked peer s ns s'" "n \<in> set ns"
  shows "0 \<le> n \<and> n < 65536"
proof -
  obtain used where "subseq ns (acks peer (maxPacketSize s) used)"
    using assms(1) by (auto simp: acked_def)
  then have "n \<in> set (acks peer (maxPacketSize s) used)"
    using assms(2) by (auto dest: list_emb_set)
  then show ?thesis by (rule acks_range)
qed

section \<open>DATA packets of a list of blocks\<close>

definition data_raw :: "int \<Rightarrow> bytes \<Rightarrow> bytes" where
  "data_raw n d = DataPacket_MakeRaw \<lparr>dp_block_number = word_of_int n, dp_data = d\<rparr>"

fun data_raws :: "int \<Rightarrow> bytes list \<Rightarrow> bytes list" where
  "data_raws n [] = []"
| "data_raws n (b # bs) = data_raw n b # data_raws (n + 1) bs"

lemma data_raws_append [simp]:
  "data_raws n (xs @ ys) = data_raws n xs @ data_raws (n + int (length xs)) ys"
  by (induction xs arbitrary: n) (simp_all add: add.assoc)

lemma length_data_raws [simp]: "length (data_raws n bs) = length bs"
  by (induction bs arbitrary: n) simp_all

lemma DataPacket_MakeRaw_data_raw [simp]:
  "DataPacket_MakeRaw (DataPacket (word_of_int n) d blk) = data_raw n d"
  by (simp add: DataPacket_def data_raw_def)

end
