(* ===== verification/ClientHandler.thy ===== *)
theory ClientHandler
  imports Waiting
begin

text \<open>
  src/tftp-server/ClientHandler.h and ClientHandler.cpp: one session of the server. A loop of
  the source is \<open>while_m\<close> over a named guard and a named body (\<open>.._round\<close>); the local
  variables a loop changes are the tuple it carries. Logging is left out: it writes to the
  terminal and changes nothing.
\<close>

section \<open>State\<close>

record client_handler = udp_client +
  client_address :: sockaddr
  root_dirpath :: string
  blksize :: int
  hd_timeout :: int
  hd_tsize :: int

definition ClientHandler_ctor :: "world \<Rightarrow> sockaddr \<Rightarrow> string \<Rightarrow> client_handler" where
  "ClientHandler_ctor w addr root =
     \<lparr>inbox = inbox w, outbox = outbox w, sigint_at = sigint_at w, loads = loads w, fsys = fsys w,
      the_writer = the_writer w, std_in = std_in w, uninit = uninit w,
      udp_timeout = default_timeout, so_rcvtimeo = default_timeout, maxPacketSize = 65500,
      client_address = addr, root_dirpath = root, blksize = 512, hd_timeout = 1, hd_tsize = 0\<rparr>"

section \<open>Parts of the two handlers\<close>

definition RecievePacketFromClient :: "(client_handler, bytes) prog" where
  "RecievePacketFromClient = bnd (gets client_address) RecievePacketFrom"

definition send_to_client :: "bytes \<Rightarrow> (client_handler, unit) prog" where
  "send_to_client d = bnd (gets client_address) (UdpClient_Send d)"

fun NegotiateOptions :: "tftp_option list \<Rightarrow> (client_handler, tftp_option list) prog" where
  "NegotiateOptions [] = ret []"
| "NegotiateOptions (opt # options) =
     (case opt_name opt of
        BLKSIZE \<Rightarrow>
          bnd (lift_exn (sto_exn (stoi (opt_value opt)))) (\<lambda>n.
          seq (modify (\<lambda>s. s\<lparr>blksize := n\<rparr>))
              (bnd (NegotiateOptions options) (\<lambda>r. ret (opt # r))))
      | TIMEOUT \<Rightarrow>
          bnd (lift_exn (sto_exn (stoi (opt_value opt)))) (\<lambda>n.
          seq (modify (\<lambda>s. s\<lparr>hd_timeout := n\<rparr>))
              (seq (ChangeTimeout n)
                   (bnd (NegotiateOptions options) (\<lambda>r. ret (opt # r)))))
      | TSIZE \<Rightarrow>
          bnd (lift_exn (sto_exn (stoi (opt_value opt)))) (\<lambda>n.
          seq (modify (\<lambda>s. s\<lparr>hd_tsize := n\<rparr>))
              (bnd (NegotiateOptions options) (\<lambda>r. ret (opt # r))))
      | UNSUPPORTED \<Rightarrow> NegotiateOptions options)"

definition interrupted_error :: error_packet where
  "interrupted_error = ErrorPacket NOT_DEFINED ''User interrupted transfer''"

definition CheckForSigintWRQ :: "(client_handler, unit) prog" where
  "CheckForSigintWRQ =
     bnd sigint_load (\<lambda>sigint.
     if sigint = False then skip
     else
       seq (send_to_client (ErrorPacket_MakeRaw interrupted_error))
       (bnd (gets (\<lambda>s. w_filepath (the_writer s))) (\<lambda>path.
        seq Writer_dtor
       (seq (delete_file path)
            (stop_with Terminate)))))"

definition CheckForSigintRRQ :: "reader \<Rightarrow> (client_handler, unit) prog" where
  "CheckForSigintRRQ reader =
     bnd sigint_load (\<lambda>sigint.
     if sigint = False then skip
     else
       seq (send_to_client (ErrorPacket_MakeRaw interrupted_error))
       (seq (delete_file (r_filepath reader))
            (stop_with Terminate)))"

section \<open>Read requests\<close>

text \<open>
  The loop that measures the file for the \<open>tsize\<close> option. The value it computes is stored in
  a copy of the option and is not used.
\<close>

definition tsize_round :: "int \<times> reader \<Rightarrow> (client_handler, int \<times> reader) prog" where
  "tsize_round = (\<lambda>(bytes_read, reader).
     bnd (gets blksize) (\<lambda>blk.
     bnd (Reader_ReadFile (nat (blk mod 2 ^ 32)) reader) (\<lambda>(data, reader').
     ret (bytes_read + int (length data), reader'))))"

definition tsize_loop :: "string \<Rightarrow> DataFormat \<Rightarrow> (client_handler, unit) prog" where
  "tsize_loop real_path read_mode =
     bnd (gets uninit) (\<lambda>indet.
     bnd (gets blksize) (\<lambda>blk.
     bnd (tsize_round (0, Reader_ctor real_path read_mode indet)) (\<lambda>acc.
     seq (while_m (\<lambda>(bytes_read, _). bytes_read = blk) tsize_round acc) skip)))"

text \<open>Waiting for the ACK of the OACK: \<open>(ackReceived, retries)\<close>.\<close>

definition oack_guard :: "bool \<times> nat \<Rightarrow> bool" where
  "oack_guard = (\<lambda>(ackReceived, retries). \<not> ackReceived \<and> retries < MAX_RETRIES)"

definition oack_round :: "reader \<Rightarrow> bool \<times> nat \<Rightarrow> (client_handler, bool \<times> nat) prog" where
  "oack_round reader = (\<lambda>(ackReceived, retries).
     try_catch
       (bnd RecievePacketFromClient (\<lambda>packet.
        bnd (lift_exn (GetOpcodeFromRaw packet)) (\<lambda>opcode.
        if opcode = ACK then
          bnd (lift_exn (AckPacket_ctor_raw packet)) (\<lambda>ack.
          if ap_block_number ack \<noteq> 0
          then throw (TFTPIllegalOperationError ''Expected block number 0'')
          else ret (True, retries))
        else if opcode = RRQ then ret (ackReceived, retries + 1)
        else if opcode = ERROR then throw_error_packet ''Client'' packet
        else throw (TFTPIllegalOperationError ''Expected ACK or ERROR''))))
       (catch_wait
          (seq IncreaseTimeout (ret (ackReceived, retries + 1)))
          (seq (CheckForSigintRRQ reader) (ret (ackReceived, retries)))))"

definition send_oack :: "tftp_option list \<Rightarrow> (client_handler, unit) prog" where
  "send_oack negotiated_options =
     bnd (lift_exn (OackPacket_MakeRaw (OackPacket negotiated_options))) send_to_client"

definition oack_phase :: "reader \<Rightarrow> tftp_option list \<Rightarrow> (client_handler, unit) prog" where
  "oack_phase reader negotiated_options =
     seq (send_oack negotiated_options)
     (bnd (while_m oack_guard (oack_round reader) (False, 0)) (\<lambda>(ackReceived, retries).
      if retries \<ge> MAX_RETRIES then throw timeout_error else TimeoutReset))"

text \<open>Waiting for the ACK of a DATA block: \<open>(ackReceived, retries, block_number)\<close>.\<close>

definition ack_guard :: "bool \<times> nat \<times> int \<Rightarrow> bool" where
  "ack_guard = (\<lambda>(ackReceived, retries, block_number). \<not> ackReceived \<and> retries < MAX_RETRIES)"

definition ack_round ::
  "reader \<Rightarrow> bool \<times> nat \<times> int \<Rightarrow> (client_handler, bool \<times> nat \<times> int) prog" where
  "ack_round reader = (\<lambda>(ackReceived, retries, block_number).
     try_catch
       (bnd RecievePacketFromClient (\<lambda>response_n.
        bnd (lift_exn (GetOpcodeFromRaw response_n)) (\<lambda>opcode_n.
        if opcode_n = ACK then
          bnd (lift_exn (AckPacket_ctor_raw response_n)) (\<lambda>ack_n.
          if uint (ap_block_number ack_n) = block_number
          then ret (True, retries, block_number + 1)
          else if uint (ap_block_number ack_n) \<le> block_number
          then seq IncreaseTimeout (ret (ackReceived, retries + 1, block_number))
          else throw (block_number_error ''ACK'' block_number (ap_block_number ack_n)))
        else if opcode_n = ERROR then throw_error_packet ''Client'' response_n
        else ret (ackReceived, retries, block_number))))
       (catch_wait
          (seq IncreaseTimeout (ret (ackReceived, retries + 1, block_number)))
          (seq (CheckForSigintRRQ reader) (ret (ackReceived, retries, block_number)))))"

text \<open>One block: \<open>(block_number, last_packet_sent, reader)\<close>.\<close>

definition send_guard :: "int \<times> bool \<times> reader \<Rightarrow> bool" where
  "send_guard = (\<lambda>(block_number, last_packet_sent, reader). \<not> last_packet_sent)"

definition send_round :: "int \<times> bool \<times> reader \<Rightarrow> (client_handler, int \<times> bool \<times> reader) prog" where
  "send_round = (\<lambda>(block_number, last_packet_sent, reader).
     bnd (gets blksize) (\<lambda>blk.
     bnd (Reader_ReadFile (nat (blk mod 2 ^ 32)) reader) (\<lambda>(data, reader').
     let last' = (if int (length data) < blk then True else last_packet_sent);
         data_packet = DataPacket (word_of_int block_number) data blk
     in seq (send_to_client (DataPacket_MakeRaw data_packet))
       (bnd (while_m ack_guard (ack_round reader') (False, 0, block_number))
         (\<lambda>(ackReceived, retries, block_number').
          if retries \<ge> MAX_RETRIES \<and> \<not> last' then throw timeout_error
          else seq TimeoutReset (ret (block_number', last', reader')))))))"

definition send_file :: "reader \<Rightarrow> (client_handler, unit) prog" where
  "send_file reader = seq (while_m send_guard send_round (1, False, reader)) skip"

definition FollowOnRRQ :: "bytes \<Rightarrow> (client_handler, unit) prog" where
  "FollowOnRRQ intro_packet =
     bnd (lift_exn (ReadWritePacket_ctor_raw intro_packet)) (\<lambda>rrq.
     bnd (gets root_dirpath) (\<lambda>root.
     bnd (gets fsys) (\<lambda>fs.
     bnd (gets uninit) (\<lambda>indet.
     let read_file = root @ ''/'' @ rw_filepath rrq; read_mode = data_format (rw_mode rrq) in
     if \<not> FileExists fs read_file then
       throw (TFTPFileNotFoundError (''File does not exist: '' @ rw_filepath rrq))
     else
       (case isFilePathUnderDirectory fs read_file root of
          None \<Rightarrow> stop_with (Undefined ''relative[1] of an empty string'')
        | Some inside \<Rightarrow>
            if \<not> inside then throw TFTPAccessViolationError
            else
              (let reader = Reader_ctor read_file read_mode indet in
               bnd (NegotiateOptions (rw_options rrq)) (\<lambda>negotiated_options.
               seq (for_each negotiated_options (\<lambda>opt.
                      if opt_name opt = TSIZE then tsize_loop read_file read_mode else skip))
              (seq (if length (rw_options rrq) > 0 then oack_phase reader negotiated_options
                    else skip)
                   (send_file reader)))))))))"

section \<open>Write requests\<close>

text \<open>Waiting for the first block: \<open>(dataReceived, retries, last_packet_received)\<close>.\<close>

definition first_guard :: "bool \<times> nat \<times> bool \<Rightarrow> bool" where
  "first_guard = (\<lambda>(dataReceived, retries, last_packet_received).
     \<not> dataReceived \<and> retries < MAX_RETRIES)"

definition first_round :: "bool \<Rightarrow> tftp_option list \<Rightarrow> bool \<times> nat \<times> bool \<Rightarrow>
    (client_handler, bool \<times> nat \<times> bool) prog" where
  "first_round has_options negotiated_options = (\<lambda>(dataReceived, retries, last_packet_received).
     try_catch
       (seq (if has_options then send_oack negotiated_options
             else send_to_client (AckPacket_MakeRaw (AckPacket 0)))
       (bnd RecievePacketFromClient (\<lambda>response_n.
        bnd (lift_exn (GetOpcodeFromRaw response_n)) (\<lambda>opcode_n.
        if opcode_n = DATA then
          bnd (gets blksize) (\<lambda>blk.
          bnd (lift_exn (DataPacket_ctor_raw response_n blk)) (\<lambda>data_n.
          if uint (dp_block_number data_n) = 1 then
            seq (write_block (dp_data data_n))
                (ret (True, retries,
                      if int (length (dp_data data_n)) < blk then True else last_packet_received))
          else if uint (dp_block_number data_n) \<le> 1 then
            seq IncreaseTimeout (ret (dataReceived, retries + 1, last_packet_received))
          else throw (block_number_error ''DATA'' 2 (dp_block_number data_n))))
        else if opcode_n = ERROR then throw_error_packet ''Client'' response_n
        else ret (dataReceived, retries, last_packet_received)))))
       (catch_wait
          (seq IncreaseTimeout (ret (dataReceived, retries + 1, last_packet_received)))
          (seq CheckForSigintWRQ (ret (dataReceived, retries, last_packet_received)))))"

text \<open>
  Waiting for a later block: \<open>(dataReceived, retries, block_number, last_packet_received)\<close>.
\<close>

definition next_guard :: "bool \<times> nat \<times> int \<times> bool \<Rightarrow> bool" where
  "next_guard = (\<lambda>(dataReceived, retries, block_number, last_packet_received).
     \<not> dataReceived \<and> retries < MAX_RETRIES)"

definition next_round ::
  "bool \<times> nat \<times> int \<times> bool \<Rightarrow> (client_handler, bool \<times> nat \<times> int \<times> bool) prog" where
  "next_round = (\<lambda>(dataReceived, retries, block_number, last_packet_received).
     try_catch
       (seq (send_to_client (AckPacket_MakeRaw (AckPacket (word_of_int block_number))))
       (bnd RecievePacketFromClient (\<lambda>response_n.
        bnd (lift_exn (GetOpcodeFromRaw response_n)) (\<lambda>opcode_n.
        if opcode_n = DATA then
          bnd (gets blksize) (\<lambda>blk.
          bnd (lift_exn (DataPacket_ctor_raw response_n blk)) (\<lambda>data_n.
          if uint (dp_block_number data_n) = block_number + 1 then
            seq (write_block (dp_data data_n))
                (ret (True, retries, block_number + 1,
                      if int (length (dp_data data_n)) < blk then True else last_packet_received))
          else if uint (dp_block_number data_n) < block_number + 1 then
            seq IncreaseTimeout (ret (dataReceived, retries + 1, block_number, last_packet_received))
          else throw (block_number_error ''DATA'' (block_number + 1) (dp_block_number data_n))))
        else if opcode_n = ERROR then throw_error_packet ''Server'' response_n
        else ret (dataReceived, retries, block_number, last_packet_received)))))
       (catch_wait
          (seq IncreaseTimeout
                (if retries + 1 \<ge> MAX_RETRIES then throw timeout_error
                 else ret (dataReceived, retries + 1, block_number, last_packet_received)))
          (seq CheckForSigintWRQ (ret (dataReceived, retries, block_number, last_packet_received)))))"

text \<open>The loop over the later blocks: \<open>(block_number, last_packet_received)\<close>.\<close>

definition receive_guard :: "int \<times> bool \<Rightarrow> bool" where
  "receive_guard = (\<lambda>(block_number, last_packet_received). \<not> last_packet_received)"

definition receive_round :: "int \<times> bool \<Rightarrow> (client_handler, int \<times> bool) prog" where
  "receive_round = (\<lambda>(block_number, last_packet_received).
     bnd (while_m next_guard next_round (False, 0, block_number, last_packet_received))
       (\<lambda>(dataReceived, retries, block_number', last').
        if retries \<ge> MAX_RETRIES then throw timeout_error
        else seq TimeoutReset (ret (block_number', last'))))"

definition receive_file :: "bool \<Rightarrow> tftp_option list \<Rightarrow> (client_handler, unit) prog" where
  "receive_file has_options negotiated_options =
     bnd (while_m first_guard (first_round has_options negotiated_options) (False, 0, False))
       (\<lambda>(dataReceived, retries, last_packet_received).
     if retries \<ge> MAX_RETRIES then throw timeout_error
     else
       seq TimeoutReset
       (bnd (while_m receive_guard receive_round (1, last_packet_received)) (\<lambda>(block_number, _).
        send_to_client (AckPacket_MakeRaw (AckPacket (word_of_int block_number))))))"

definition FollowOnWRQ :: "bytes \<Rightarrow> (client_handler, unit) prog" where
  "FollowOnWRQ intro_packet =
     bnd (lift_exn (ReadWritePacket_ctor_raw intro_packet)) (\<lambda>wrq.
     bnd (gets root_dirpath) (\<lambda>root.
     bnd (gets fsys) (\<lambda>fs.
     let write_file = root @ ''/'' @ rw_filepath wrq in
     seq (Writer_ctor write_file (data_format (rw_mode wrq)))
     (scoped
       (if FileExists fs write_file then
          throw (TFTPFileAlreadyExistsError (''File already exists: '' @ rw_filepath wrq))
        else
          (case isFilePathUnderDirectory fs write_file root of
             None \<Rightarrow> stop_with (Undefined ''relative[1] of an empty string'')
           | Some inside \<Rightarrow>
               if \<not> inside then throw TFTPAccessViolationError
               else
                 bnd (NegotiateOptions (rw_options wrq)) (\<lambda>negotiated_options.
                 seq (for_each negotiated_options (\<lambda>opt.
                        if opt_name opt = TSIZE then
                          bnd (gets hd_tsize) (\<lambda>tsize.
                          if \<not> HasEnoughSpace fs root (tsize mod 2 ^ 64)
                          then throw NotEnoughSpaceException else skip)
                        else skip))
                     (receive_file (length (rw_options wrq) > 0) negotiated_options))))
       Writer_dtor))))"

section \<open>A session\<close>

definition report_and_rethrow :: "exn \<Rightarrow> (client_handler, 'a) prog" where
  "report_and_rethrow e = (case error_code_of e of
     None \<Rightarrow> throw e
   | Some code \<Rightarrow> seq (send_to_client (ErrorPacket_MakeRaw (ErrorPacket code (tftp_what e)))) (throw e))"

definition FollowOnIntroPacket :: "bytes \<Rightarrow> (client_handler, unit) prog" where
  "FollowOnIntroPacket intro_packet =
     bnd (try_catch (lift_exn (GetOpcodeFromRaw intro_packet)) (\<lambda>e.
            seq (send_to_client (ErrorPacket_MakeRaw
                   (ErrorPacket ILLEGAL_OPERATION ''Invalid opcode in intro packet''))) (throw e)))
       (\<lambda>opcode_1.
     try_catch
       (if opcode_1 = RRQ then FollowOnRRQ intro_packet
        else if opcode_1 = WRQ then FollowOnWRQ intro_packet
        else throw (TFTPIllegalOperationError ''Expected RRQ or WRQ''))
       report_and_rethrow)"

end
