(* ===== verification/SessionLemmas.thy ===== *)
theory SessionLemmas
  imports ClientHandler
begin

text \<open>
  The parts of a server session that both transfer directions use: an interruption, option
  negotiation, and the error report of \<open>FollowOnIntroPacket\<close>.
\<close>

section \<open>The state of a session\<close>

abbreviation client :: "client_handler \<Rightarrow> sockaddr" where
  "client s \<equiv> client_address s"

lemma same_session_fields:
  "same_session s s' \<Longrightarrow> client_address s' = client_address s \<and> root_dirpath s' = root_dirpath s
     \<and> blksize s' = blksize s \<and> hd_timeout s' = hd_timeout s \<and> hd_tsize s' = hd_tsize s"
  by (cases s; cases s') (simp add: same_session_def)

lemma quiet_fields:
  "quiet p s s' \<Longrightarrow> client_address s' = client_address s \<and> root_dirpath s' = root_dirpath s
     \<and> blksize s' = blksize s \<and> fsys s' = fsys s \<and> the_writer s' = the_writer s
     \<and> sent_to p (outbox s') = sent_to p (outbox s) \<and> same_session s s'"
  by (auto simp: quiet_def dest: same_session_fields)

section \<open>Interruption\<close>

text \<open>The ERROR packet of an interrupted session is the last thing the client is sent.\<close>

definition interrupted_raw :: bytes where
  "interrupted_raw = ErrorPacket_MakeRaw interrupted_error"

lemma wlp_send_to_client [simp, wlp_rules]:
  "wlp (send_to_client d) Q s = Q (Inr ()) (s\<lparr>outbox := outbox s @ [(client_address s, d)]\<rparr>)"
  by (simp add: send_to_client_def)

lemma returns_send_to_client [simp, returns_rules]: "returns (send_to_client d) s"
  by (simp add: send_to_client_def)

lemma wlp_CheckForSigintRRQ:
  "sigint_set s \<Longrightarrow>
   wlp (CheckForSigintRRQ reader) (\<lambda>r s'. \<exists>e. r = Inl e \<and> given_up (client s) interrupted_raw s e s') s"
  by (auto simp: CheckForSigintRRQ_def given_up_def interrupted_def
      interrupted_raw_def dest: DeleteFile_Inl split: sum.splits)

lemma returns_CheckForSigintRRQ [simp, returns_rules]: "returns (CheckForSigintRRQ reader) s"
  unfolding CheckForSigintRRQ_def by (intro returns_intros) simp_all

lemma wlp_CheckForSigintWRQ:
  assumes "sigint_set s"
  shows "wlp CheckForSigintWRQ (\<lambda>r s'. \<exists>e. r = Inl e \<and> given_up (client s) interrupted_raw s e s') s"
  using assms
  by (auto simp: CheckForSigintWRQ_def Writer_dtor_def wlp_writer_put given_up_def
      interrupted_def interrupted_raw_def dest: DeleteFile_Inl split: sum.splits)

lemma returns_CheckForSigintWRQ [simp, returns_rules]: "returns CheckForSigintWRQ s"
  unfolding CheckForSigintWRQ_def by (intro returns_intros) simp_all

section \<open>Receiving from the client\<close>

lemma returns_RecievePacketFromClient [simp, returns_rules]: "returns RecievePacketFromClient s"
  by (simp add: RecievePacketFromClient_def)

text \<open>\<open>wlp_wait\<close> for \<open>RecievePacketFromClient\<close>.\<close>

lemma wlp_wait_client:
  assumes "wlp (try_catch (bnd (RecievePacketFrom (client s)) k) (catch_wait to si)) Q s"
  shows "wlp (try_catch (bnd RecievePacketFromClient k) (catch_wait to si)) Q s"
  using assms by (simp add: RecievePacketFromClient_def)

lemma returns_report_and_rethrow [simp, returns_rules]: "returns (report_and_rethrow e) s"
  unfolding report_and_rethrow_def by (cases "error_code_of e") (auto intro!: returns_intros)

lemma returns_send_oack [simp, returns_rules]: "returns (send_oack opts) s"
  unfolding send_oack_def by (intro returns_intros) simp_all

section \<open>Option negotiation\<close>

text \<open>The block size a request asks for, \<open>d\<close> when it asks for none.\<close>

fun chosen_blksize :: "int \<Rightarrow> tftp_option list \<Rightarrow> int" where
  "chosen_blksize d [] = d"
| "chosen_blksize d (opt # opts) = chosen_blksize
     (if opt_name opt = BLKSIZE then (case stoi (opt_value opt) of Inl _ \<Rightarrow> d | Inr n \<Rightarrow> n) else d) opts"

definition supported :: "tftp_option list \<Rightarrow> tftp_option list" where
  "supported opts = filter (\<lambda>opt. opt_name opt \<noteq> UNSUPPORTED) opts"

lemma valid_blksize:
  "valid_option opt \<Longrightarrow> opt_name opt = BLKSIZE \<Longrightarrow>
     \<exists>n. stoi (opt_value opt) = Inr n \<and> 8 \<le> n \<and> n \<le> 65464"
  by (cases "stoi (opt_value opt)") (simp_all add: valid_option_def valid_value_def)

lemma valid_timeout:
  "valid_option opt \<Longrightarrow> opt_name opt = TIMEOUT \<Longrightarrow>
     \<exists>n. stoi (opt_value opt) = Inr n \<and> 1 \<le> n \<and> n \<le> 255"
  by (cases "stoi (opt_value opt)") (simp_all add: valid_option_def valid_value_def)

lemma chosen_blksize_range:
  "\<forall>opt \<in> set opts. valid_option opt \<Longrightarrow> 8 \<le> d \<Longrightarrow> d \<le> 65464 \<Longrightarrow>
   8 \<le> chosen_blksize d opts \<and> chosen_blksize d opts \<le> 65464"
proof (induction opts arbitrary: d)
  case (Cons opt opts)
  show ?case
  proof (cases "opt_name opt = BLKSIZE")
    case True
    with Cons.prems valid_blksize obtain n where
      "stoi (opt_value opt) = Inr n" "8 \<le> n" "n \<le> 65464" by (metis list.set_intros(1))
    with True Cons show ?thesis by simp
  qed (use Cons in simp)
qed simp

text \<open>A state that differs at most in what option negotiation sets.\<close>

definition negotiated :: "client_handler \<Rightarrow> client_handler \<Rightarrow> bool" where
  "negotiated s s' \<longleftrightarrow> (\<exists>b t z r. s' = s\<lparr>so_rcvtimeo := r, blksize := b, hd_timeout := t, hd_tsize := z\<rparr>)"

lemma negotiated_refl [simp]: "negotiated s s"
  unfolding negotiated_def by (rule exI [of _ "blksize s"], rule exI [of _ "hd_timeout s"],
      rule exI [of _ "hd_tsize s"], rule exI [of _ "so_rcvtimeo s"]) simp

lemma negotiated_fields:
  "negotiated s s' \<Longrightarrow> inbox s' = inbox s \<and> outbox s' = outbox s \<and> fsys s' = fsys s
     \<and> the_writer s' = the_writer s \<and> client_address s' = client_address s
     \<and> root_dirpath s' = root_dirpath s \<and> maxPacketSize s' = maxPacketSize s
     \<and> uninit s' = uninit s \<and> std_in s' = std_in s \<and> loads s' = loads s \<and> sigint_at s' = sigint_at s"
  by (auto simp: negotiated_def)

lemma negotiated_updates:
  "negotiated (s\<lparr>blksize := b\<rparr>) s' \<Longrightarrow> negotiated s s'"
  "negotiated (s\<lparr>hd_tsize := z\<rparr>) s' \<Longrightarrow> negotiated s s'"
  "negotiated (s\<lparr>hd_timeout := t, so_rcvtimeo := r\<rparr>) s' \<Longrightarrow> negotiated s s'"
  unfolding negotiated_def by (cases s; auto)+

lemma NegotiateOptions_spec:
  "\<forall>opt \<in> set opts. valid_option opt \<Longrightarrow>
   wlp (NegotiateOptions opts) (\<lambda>r s'. negotiated s s' \<and> (case r of
       Inl e \<Rightarrow> e = Raise StdOutOfRange \<or> e = Raise StdInvalidArgument
     | Inr opts' \<Rightarrow> opts' = supported opts \<and> blksize s' = chosen_blksize (blksize s) opts)) s"
proof (induction opts arbitrary: s)
  case (Cons opt opts)
  have IH: "wlp (NegotiateOptions opts) (\<lambda>r s'. negotiated s1 s' \<and> (case r of
       Inl e \<Rightarrow> e = Raise StdOutOfRange \<or> e = Raise StdInvalidArgument
     | Inr opts' \<Rightarrow> opts' = supported opts \<and> blksize s' = chosen_blksize (blksize s1) opts)) s1" for s1
    by (rule Cons.IH) (use Cons.prems in simp)
  show ?case
  proof (cases "opt_name opt")
    case BLKSIZE
    with Cons.prems valid_blksize [of opt] obtain n where "stoi (opt_value opt) = Inr n" by auto
    with BLKSIZE show ?thesis
      by (auto simp: sto_exn_def supported_def intro: negotiated_updates
          intro!: wlp_mono [OF IH] split: sum.splits)
  next
    case TIMEOUT
    with Cons.prems valid_timeout [of opt] obtain n where "stoi (opt_value opt) = Inr n" by auto
    with TIMEOUT show ?thesis
      by (auto simp: sto_exn_def supported_def intro: negotiated_updates
          intro!: wlp_mono [OF IH] split: sum.splits)
  next
    case TSIZE
    then show ?thesis
      by (auto simp: sto_exn_def supported_def intro: negotiated_updates
          intro!: wlp_mono [OF IH] split: sum.splits sto_error.splits)
  next
    case UNSUPPORTED
    then show ?thesis
      by (auto simp: supported_def intro!: wlp_mono [OF IH] split: sum.splits)
  qed
qed (simp add: supported_def)

lemma returns_NegotiateOptions [simp, returns_rules]: "returns (NegotiateOptions opts) s"
proof (induction opts arbitrary: s)
  case (Cons opt opts)
  show ?case
    by (cases "opt_name opt"; simp only: NegotiateOptions.simps opt_name.case;
        (intro returns_intros)?; simp add: Cons)
qed simp

text \<open>The only value that \<open>stoi\<close> may refuse is a \<open>tsize\<close> that does not fit an \<open>int\<close>.\<close>

definition int_tsize :: "tftp_option list \<Rightarrow> bool" where
  "int_tsize opts \<longleftrightarrow> (\<forall>opt \<in> set opts. opt_name opt = TSIZE \<longrightarrow> (\<exists>n. stoi (opt_value opt) = Inr n))"

lemma NegotiateOptions_Inr:
  "\<forall>opt \<in> set opts. valid_option opt \<Longrightarrow> int_tsize opts \<Longrightarrow>
   wlp (NegotiateOptions opts) (\<lambda>r _. \<exists>x. r = Inr x) s"
proof (induction opts arbitrary: s)
  case (Cons opt opts)
  have IH: "wlp (NegotiateOptions opts) (\<lambda>r _. \<exists>x. r = Inr x) s1" for s1
    by (rule Cons.IH) (use Cons.prems in \<open>simp_all add: int_tsize_def\<close>)
  have v: "valid_option opt" "opt_name opt = TSIZE \<longrightarrow> (\<exists>n. stoi (opt_value opt) = Inr n)"
    using Cons.prems by (simp_all add: int_tsize_def)
  show ?case
    by (cases "opt_name opt")
      (use v valid_blksize [OF v(1)] valid_timeout [OF v(1)] in
        \<open>auto simp: sto_exn_def intro!: wlp_mono [OF IH]\<close>)
qed simp

lemma NegotiateOptions_run:
  assumes "\<forall>opt \<in> set opts. valid_option opt" "int_tsize opts"
  obtains s1 where "NegotiateOptions opts s = Some (Inr (supported opts), s1)" "negotiated s s1"
    "blksize s1 = chosen_blksize (blksize s) opts"
proof -
  obtain r s1 where n: "NegotiateOptions opts s = Some (r, s1)"
    using returns_NegotiateOptions [of opts s] by (auto simp: returns_iff)
  with wlpD [OF NegotiateOptions_spec [OF assms(1)] n] wlpD [OF NegotiateOptions_Inr [OF assms] n] that
  show ?thesis by auto
qed

section \<open>Requests\<close>

text \<open>The file a request names, and the OACK that answers its options.\<close>

definition request_path :: "client_handler \<Rightarrow> read_write_packet \<Rightarrow> string" where
  "request_path s p = root_dirpath s @ ''/'' @ rw_filepath p"

definition oack_raw :: "tftp_option list \<Rightarrow> bytes" where
  "oack_raw opts = (case OackPacket_MakeRaw (OackPacket (supported opts)) of
     Inl _ \<Rightarrow> [] | Inr raw \<Rightarrow> raw)"

lemma oack_raw_eq: "OackPacket_MakeRaw (OackPacket (supported opts)) = Inr (oack_raw opts)"
proof -
  have "\<forall>opt \<in> set (supported opts). opt_name opt \<noteq> UNSUPPORTED" by (simp add: supported_def)
  then show ?thesis
    by (simp add: oack_raw_def OackPacket_MakeRaw_def OackPacket_def options_MakeRaw_supported)
qed

definition request_bs :: "read_write_packet \<Rightarrow> int" where
  "request_bs p = chosen_blksize 512 (rw_options p)"

lemma ReadWritePacket_valid:
  "ReadWritePacket_ctor_raw raw = Inr p \<Longrightarrow> \<forall>opt \<in> set (rw_options p). valid_option opt"
  using ReadWritePacket_ctor_raw_wf [of raw p] by (auto simp: wire_options_def wire_option_def)

end
