(* ===== verification/Arrivals.thy ===== *)
theory Arrivals
  imports Waiting
begin

text \<open>
  Networks that lose, delay and repeat datagrams: the packets a side waits for arrive in order, and
  before each of them fewer than five other events, among them timeouts, datagrams of strangers and
  packets the side does not wait for. The rule for a waiting round says that it then gets what it
  waits for, or tries again with fewer disturbances left.
\<close>

section \<open>Loops\<close>

lemma wlp_while_go:
  "c a \<Longrightarrow> wlp (while_m c b a) Q s = wlp (b a) (\<lambda>r s'. case r of
     Inl e \<Rightarrow> Q (Inl e) s' | Inr a' \<Rightarrow> wlp (while_m c b a') Q s') s"
  by (simp add: wlp_def while_m.simps [of c b a] split: option.splits sum.splits)

lemma wlp_while_out: "\<not> c a \<Longrightarrow> wlp (while_m c b a) Q s = Q (Inr a) s"
  by (simp add: wlp_def while_m_exit)

section \<open>What arrives\<close>

text \<open>A packet that is waited for, and the packets that may be received in its place.\<close>

type_synonym due = "bytes \<times> (bytes \<Rightarrow> bool)"

definition disturbance :: "sockaddr \<Rightarrow> (bytes \<Rightarrow> bool) \<Rightarrow> net_event \<Rightarrow> bool" where
  "disturbance peer stale ev = (case ev of
     Datagram a x \<Rightarrow> a \<noteq> peer \<or> stale x | RecvTimeout \<Rightarrow> True | RecvFailure \<Rightarrow> False)"

lemma disturbance_simps [simp]:
  "disturbance peer stale (Datagram a x) \<longleftrightarrow> a \<noteq> peer \<or> stale x"
  "disturbance peer stale RecvTimeout" "\<not> disturbance peer stale RecvFailure"
  by (simp_all add: disturbance_def)

text \<open>
  The events \<open>evs\<close> bring the packets \<open>ds\<close> and leave \<open>rest\<close>; \<open>k\<close> disturbances have happened since the
  last packet.
\<close>

fun arrives :: "sockaddr \<Rightarrow> due list \<Rightarrow> nat \<Rightarrow> net_event list \<Rightarrow> net_event list \<Rightarrow> bool" where
  "arrives peer [] k rest evs \<longleftrightarrow> evs = rest"
| "arrives peer ((d, stale) # ds) k rest [] \<longleftrightarrow> False"
| "arrives peer ((d, stale) # ds) k rest (ev # evs) \<longleftrightarrow>
     ev = Datagram peer d \<and> arrives peer ds 0 rest evs
   \<or> disturbance peer stale ev \<and> Suc k < MAX_RETRIES \<and> arrives peer ((d, stale) # ds) (Suc k) rest evs"

text \<open>Nothing is lost or repeated.\<close>

lemma arrives_all:
  "evs = map (\<lambda>(d, _). Datagram peer d) ds @ rest \<Longrightarrow> arrives peer ds k rest evs"
  by (induction ds arbitrary: k evs) auto

text \<open>
  A request is sent again until the answer \<open>d\<close>, after which the packets \<open>ds\<close> arrive; \<open>k\<close> times
  there has been no answer.
\<close>

fun answered_then :: "sockaddr \<Rightarrow> bytes \<Rightarrow> due list \<Rightarrow> nat \<Rightarrow> net_event list \<Rightarrow> net_event list \<Rightarrow> bool" where
  "answered_then a d ds k rest [] \<longleftrightarrow> False"
| "answered_then a d ds k rest (ev # evs) \<longleftrightarrow> ev = Datagram a d \<and> arrives a ds 0 rest evs
   \<or> ev = RecvTimeout \<and> Suc k < MAX_RETRIES \<and> answered_then a d ds (Suc k) rest evs"

lemma arrives_restart: "arrives peer ds k rest evs \<Longrightarrow> arrives peer ds 0 rest evs"
proof -
  have "arrives peer ds k rest evs \<Longrightarrow> j \<le> k \<Longrightarrow> arrives peer ds j rest evs" for j
    by (induction peer ds k rest evs arbitrary: j rule: arrives.induct) auto
  then show "arrives peer ds k rest evs \<Longrightarrow> ?thesis" by simp
qed

section \<open>One receive\<close>

text \<open>Nothing that may be received is longer than the buffer.\<close>

definition fitting :: "'b udp_client_scheme \<Rightarrow> due \<Rightarrow> bool" where
  "fitting s w \<longleftrightarrow> (case w of (d, stale) \<Rightarrow> length d \<le> maxPacketSize s
     \<and> (\<forall>x. stale x \<longrightarrow> length x \<le> maxPacketSize s))"

definition brought :: "sockaddr \<Rightarrow> due \<Rightarrow> due list \<Rightarrow> net_event list \<Rightarrow> nat \<Rightarrow> bytes outcome \<Rightarrow> net_event list \<Rightarrow> bool" where
  "brought peer w ds rest k r evs \<longleftrightarrow> r = Inr (fst w) \<and> arrives peer ds 0 rest evs
     \<or> (\<exists>j. k < j \<and> j < MAX_RETRIES \<and> arrives peer (w # ds) j rest evs
          \<and> (r = Inl (Raise UdpTimeoutException) \<or> (\<exists>x. r = Inr x \<and> snd w x)))"

lemma brought_later: "brought peer w ds rest (Suc k) r evs \<Longrightarrow> brought peer w ds rest k r evs"
  by (auto simp: brought_def intro: Suc_lessD)

lemma refuse_brought:
  assumes "arrives peer (w # ds) k rest (inbox s)" "sigint_at s = None" "fitting s w" "n \<le> k" "k < MAX_RETRIES"
  shows "wlp (bnd UdpClient_Receive (\<lambda>(sender, buffer).
      bnd (while_m (refuse_guard peer) refuse_sender (sender, buffer, n)) (\<lambda>(sender, buffer, retries).
      if retries \<ge> MAX_RETRIES then throw UdpTimeoutException else ret buffer)))
    (\<lambda>r s'. brought peer w ds rest k r (inbox s')) s"
  using assms
proof (induction "inbox s" arbitrary: s k n)
  case Nil
  then show ?case by (cases w) simp
next
  case (Cons ev evs)
  obtain d stale where w: "w = (d, stale)" by (cases w) auto
  have ns: "\<not> sigint_set s" using Cons.prems(2) by (simp add: sigint_set_def)
  note i = Cons.hyps(2) [symmetric]
  have here: "\<not> refuse_guard peer (peer, b, n)" for b by (simp add: refuse_guard_def)
  consider (due) "ev = Datagram peer d" "arrives peer ds 0 rest evs"
    | (timeout) "ev = RecvTimeout" "Suc k < MAX_RETRIES" "arrives peer (w # ds) (Suc k) rest evs"
    | (stale) x where "ev = Datagram peer x" "stale x" "Suc k < MAX_RETRIES" "arrives peer (w # ds) (Suc k) rest evs"
    | (stranger) a x where "ev = Datagram a x" "a \<noteq> peer" "Suc k < MAX_RETRIES" "arrives peer (w # ds) (Suc k) rest evs"
    using Cons.prems(1) unfolding i w by (cases ev) auto
  then show ?case
  proof cases
    case due
    then show ?thesis
      using Cons.prems(3-5) ns i
      by (simp add: UdpClient_Receive_def wlp_while_out [where c = "refuse_guard peer", OF here] w fitting_def brought_def)
  next
    case timeout
    then show ?thesis
      using Cons.prems(3) ns i by (auto simp: UdpClient_Receive_def brought_def)
  next
    case stale
    then have "length x \<le> maxPacketSize s" using Cons.prems(3) by (simp add: fitting_def w)
    then show ?thesis
      using stale Cons.prems(3-5) ns i
      by (auto simp: UdpClient_Receive_def wlp_while_out [where c = "refuse_guard peer", OF here] w brought_def)
  next
    case stranger
    let ?b = "take (maxPacketSize s) x"
    let ?s1 = "s\<lparr>loads := Suc (loads s), inbox := evs, outbox := outbox s @ [(a, ErrorPacket_MakeRaw unknown_sender_error)]\<rparr>"
    have g: "refuse_guard peer (a, ?b, n)"
      using stranger(2) Cons.prems(4,5) by (simp add: refuse_guard_def)
    have "wlp (bnd UdpClient_Receive (\<lambda>(sender, buffer).
      bnd (while_m (refuse_guard peer) refuse_sender (sender, buffer, Suc n)) (\<lambda>(sender, buffer, retries).
      if retries \<ge> MAX_RETRIES then throw UdpTimeoutException else ret buffer)))
      (\<lambda>r s'. brought peer w ds rest (Suc k) r (inbox s')) ?s1"
      by (rule Cons.hyps(1)) (use Cons.prems stranger in \<open>simp_all add: fitting_def\<close>)
    then have "wlp (bnd UdpClient_Receive (\<lambda>(sender, buffer).
      bnd (while_m (refuse_guard peer) refuse_sender (sender, buffer, Suc n)) (\<lambda>(sender, buffer, retries).
      if retries \<ge> MAX_RETRIES then throw UdpTimeoutException else ret buffer)))
      (\<lambda>r s'. brought peer w ds rest k r (inbox s')) ?s1"
      by (rule wlp_mono) (rule brought_later)
    then show ?thesis
      using stranger(1) ns i
      by (simp add: UdpClient_Receive_def wlp_while_go [where c = "refuse_guard peer", OF g] refuse_sender_def split_def
          cong: sum.case_cong)
  qed
qed

lemma wlp_receive_brought:
  assumes "arrives peer (w # ds) k rest (inbox s)" "sigint_at s = None" "fitting s w" "k < MAX_RETRIES"
  shows "wlp (RecievePacketFrom peer) (\<lambda>r s'. recv_frame peer s s' \<and> brought peer w ds rest k r (inbox s')) s"
  by (rule wlp_mono [OF wlp_conj [OF wlp_RecievePacketFrom
        refuse_brought [OF assms(1-3) le0 assms(4), folded RecievePacketFrom_def]]])
    (simp add: recv_result_def)

section \<open>One round\<close>

text \<open>
  The rule of a waiting round: it handles the packet, or a stale one, or the timeout; there is no
  other way it can go.
\<close>

lemma wlp_wait_due:
  assumes a: "arrives peer (w # ds) k rest (inbox s)" "sigint_at s = None" "fitting s w" "k < MAX_RETRIES"
    and due: "\<And>s'. recv_frame peer s s' \<Longrightarrow> arrives peer ds 0 rest (inbox s') \<Longrightarrow>
      wlp (f (fst w)) (\<lambda>r s''. Q r s'' \<and> unhandled r) s'"
    and stale: "\<And>j x s'. recv_frame peer s s' \<Longrightarrow> arrives peer (w # ds) j rest (inbox s') \<Longrightarrow>
      k < j \<Longrightarrow> j < MAX_RETRIES \<Longrightarrow> snd w x \<Longrightarrow> wlp (f x) (\<lambda>r s''. Q r s'' \<and> unhandled r) s'"
    and timeout: "\<And>j s'. recv_frame peer s s' \<Longrightarrow> arrives peer (w # ds) j rest (inbox s') \<Longrightarrow>
      k < j \<Longrightarrow> j < MAX_RETRIES \<Longrightarrow> wlp to Q s'"
  shows "wlp (try_catch (bnd (RecievePacketFrom peer) f) (catch_wait to si)) Q s"
  unfolding wlp_try_catch wlp_bnd
proof (rule wlp_mono [OF wlp_receive_brought [OF a]], goal_cases)
  case (1 r s')
  have handled: "wlp (f x) (\<lambda>r s''. case r of Inr _ \<Rightarrow> Q r s'' | Inl (Raise e) \<Rightarrow> wlp (catch_wait to si e) Q s''
      | Inl _ \<Rightarrow> Q r s'') s'" if "wlp (f x) (\<lambda>r s''. Q r s'' \<and> unhandled r) s'" for x
    by (rule wlp_mono [OF that]) (auto simp: unhandled_def waitable_def split: sum.splits stop.splits)
  from 1 consider "r = Inr (fst w)" "arrives peer ds 0 rest (inbox s')"
    | j where "k < j" "j < MAX_RETRIES" "arrives peer (w # ds) j rest (inbox s')" "r = Inl (Raise UdpTimeoutException)"
    | j x where "k < j" "j < MAX_RETRIES" "arrives peer (w # ds) j rest (inbox s')" "r = Inr x" "snd w x"
    unfolding brought_def by blast
  then show ?case
  proof cases
    case 1
    then show ?thesis using handled [OF due [of s']] \<open>recv_frame peer s s' \<and> _\<close> by simp
  next
    case 2
    then show ?thesis using timeout [of s' j] \<open>recv_frame peer s s' \<and> _\<close> by simp
  next
    case 3
    then show ?thesis using handled [OF stale [of s' j x]] \<open>recv_frame peer s s' \<and> _\<close> by simp
  qed
qed

section \<open>DATA packets and acknowledgements\<close>

text \<open>
  Who waits for block \<open>n\<close> of at most \<open>m\<close> bytes goes on waiting when an earlier block is received
  again, or anything else that is no ERROR packet; \<open>lim\<close> is the size of the buffer.
\<close>

definition stale_data :: "nat \<Rightarrow> nat \<Rightarrow> int \<Rightarrow> bytes \<Rightarrow> bool" where
  "stale_data lim m n x \<longleftrightarrow> length x \<le> lim \<and> (case GetOpcodeFromRaw x of
     Inl _ \<Rightarrow> False
   | Inr opc \<Rightarrow> opc \<noteq> ERROR \<and> (opc = DATA \<longrightarrow> (case DataPacket_ctor_raw x (int m) of
       Inl _ \<Rightarrow> False | Inr p \<Rightarrow> uint (dp_block_number p) < n)))"

fun data_due :: "nat \<Rightarrow> nat \<Rightarrow> int \<Rightarrow> bytes list \<Rightarrow> due list" where
  "data_due lim m n [] = []"
| "data_due lim m n (b # bs) = (data_raw n b, stale_data lim m n) # data_due lim m (n + 1) bs"

text \<open>Who waits for the ACK of block \<open>n\<close> goes on waiting in the same way.\<close>

definition ack_raw :: "int \<Rightarrow> bytes" where
  "ack_raw n = AckPacket_MakeRaw (AckPacket (word_of_int n))"

definition ack_dgram :: "sockaddr \<Rightarrow> int \<Rightarrow> net_event" where
  "ack_dgram peer n = Datagram peer (ack_raw n)"

definition stale_ack :: "nat \<Rightarrow> int \<Rightarrow> bytes \<Rightarrow> bool" where
  "stale_ack lim n x \<longleftrightarrow> length x \<le> lim \<and> (case GetOpcodeFromRaw x of
     Inl _ \<Rightarrow> False
   | Inr opc \<Rightarrow> opc \<noteq> ERROR \<and> (opc = ACK \<longrightarrow> (case AckPacket_ctor_raw x of
       Inl _ \<Rightarrow> False | Inr p \<Rightarrow> ap_block_number p < word_of_int n)))"

definition ack_due :: "nat \<Rightarrow> int \<Rightarrow> due" where
  "ack_due lim n = (ack_raw n, stale_ack lim n)"

lemma stale_dataE:
  assumes "stale_data lim m n x"
  obtains (old) p where "GetOpcodeFromRaw x = Inr DATA" "DataPacket_ctor_raw x (int m) = Inr p"
      "uint (dp_block_number p) < n"
    | (other) opc where "GetOpcodeFromRaw x = Inr opc" "opc \<noteq> DATA" "opc \<noteq> ERROR"
  using assms by (auto simp: stale_data_def split: sum.splits)

lemma stale_ackE:
  assumes "stale_ack lim n x"
  obtains (old) p where "GetOpcodeFromRaw x = Inr ACK" "AckPacket_ctor_raw x = Inr p"
      "ap_block_number p < word_of_int n"
    | (other) opc where "GetOpcodeFromRaw x = Inr opc" "opc \<noteq> ACK" "opc \<noteq> ERROR"
  using assms by (auto simp: stale_ack_def split: sum.splits)

lemma length_data_raw [simp]: "length (data_raw n b) = 4 + length b"
  by (simp add: data_raw_def)

lemma length_ack_raw [simp]: "length (ack_raw n) = 4"
  by (simp add: ack_raw_def AckPacket_MakeRaw_def)

lemma take_AckPacket [simp]: "4 \<le> n \<Longrightarrow> take n (AckPacket_MakeRaw p) = AckPacket_MakeRaw p"
  by (simp add: AckPacket_MakeRaw_def)

lemma ack_raw_parse [simp]:
  "GetOpcodeFromRaw (ack_raw n) = Inr ACK" "AckPacket_ctor_raw (ack_raw n) = Inr (AckPacket (word_of_int n))"
  by (simp_all add: ack_raw_def)

lemma data_raw_opcode [simp]: "GetOpcodeFromRaw (data_raw n b) = Inr DATA"
  by (simp add: data_raw_def)

lemma data_raw_parse:
  "0 \<le> blk \<Longrightarrow> blk < 2 ^ 32 \<Longrightarrow> DataPacket_ctor_raw (data_raw n b) blk =
     Inr \<lparr>dp_block_number = word_of_int n, dp_data = take (nat blk) b\<rparr>"
  unfolding data_raw_def by (simp add: DataPacket_ctor_raw_MakeRaw)

lemma fitting_data: "4 + m \<le> maxPacketSize s \<Longrightarrow> length b \<le> m \<Longrightarrow>
    fitting s (data_raw n b, stale_data (maxPacketSize s) m n)"
  by (simp add: fitting_def stale_data_def)

lemma fitting_ack: "4 \<le> maxPacketSize s \<Longrightarrow> fitting s (ack_due (maxPacketSize s) n)"
  by (simp add: fitting_def ack_due_def stale_ack_def)

text \<open>Nothing is lost or repeated.\<close>

lemma data_due_all:
  "arrives peer (data_due lim m n bs) k rest (map (Datagram peer) (data_raws n bs) @ rest)"
proof (rule arrives_all)
  show "map (Datagram peer) (data_raws n bs) @ rest = map (\<lambda>(d, _). Datagram peer d) (data_due lim m n bs) @ rest"
    by (induction bs arbitrary: n) simp_all
qed

lemma ack_due_all:
  "arrives peer (map (ack_due lim) ns) k rest (map (ack_dgram peer) ns @ rest)"
  by (rule arrives_all) (simp add: ack_due_def ack_dgram_def)

end
