(* ===== verification/ReadRequest.thy ===== *)
theory ReadRequest
  imports SessionLemmas Arrivals
begin

text \<open>
  What the server's read requests guarantee. The waiting loops are shown to return and to
  keep the session (\<open>given_up\<close>, \<open>quiet\<close>); the sending loop is shown to send the blocks of the
  file in order, each one once, and the next one only after the ACK of the one before, under
  any behaviour of the network.
\<close>

section \<open>Waiting for one ACK\<close>

lemma ack_round_spec:
  "wlp (ack_round reader (False, n, bn)) (\<lambda>r s'. case r of
     Inl e \<Rightarrow> given_up (client s) interrupted_raw s e s'
   | Inr (a, n', bn') \<Rightarrow> quiet (client s) s s' \<and> length (inbox s') < length (inbox s)
       \<and> (if a then n' = n \<and> bn' = bn + 1 \<and> acked (client s) s [bn] s'
          else n' \<le> n + 1 \<and> bn' = bn)) s"
  unfolding ack_round_def prod.case
proof (rule wlp_wait_client, rule wlp_wait, goal_cases)
  case (1 b s1)
  then show ?case
    using received_acked [OF 1]
    by (auto simp: given_upI received_length received_quiet ctor_not_waitable
        intro!: wlp_mono [OF wlp_throw_error_packet] split: sum.splits)
next
  case (3 s1)
  then have "client s1 = client s" by (simp add: quiet_fields)
  with 3 show ?case
    using wlp_CheckForSigintRRQ [OF 3(2), of reader]
    by (auto elim!: wlp_mono intro: given_up_trans)
qed (simp_all add: given_upI)

lemma returns_ack_round [simp, returns_rules]: "returns (ack_round reader a) s"
  unfolding ack_round_def
  by (cases a; simp only: prod.case; intro round_returns; simp)

interpretation ack_loop: consuming_loop ack_guard "ack_round reader" for reader
proof unfold_locales
  fix a s assume "ack_guard a"
  then obtain n bn where "a = (False, n, bn)" by (cases a) (simp add: ack_guard_def)
  then show "wlp (ack_round reader a) (\<lambda>r s'. case r of Inl e \<Rightarrow> True
      | Inr a' \<Rightarrow> length (inbox s') < length (inbox s)) s"
    by (auto intro!: wlp_mono [OF ack_round_spec] split: sum.splits)
qed simp

definition ack_result ::
  "client_handler \<Rightarrow> int \<Rightarrow> (bool \<times> nat \<times> int) outcome \<Rightarrow> client_handler \<Rightarrow> bool" where
  "ack_result s bn r s' = (case r of
     Inl e \<Rightarrow> given_up (client s) interrupted_raw s e s'
   | Inr (a, n, bn') \<Rightarrow> quiet (client s) s s' \<and> (if a then n < MAX_RETRIES \<and> bn' = bn + 1
       \<and> acked (client s) s [bn] s' else n \<ge> MAX_RETRIES \<and> bn' = bn))"

definition ack_inv :: "client_handler \<Rightarrow> int \<Rightarrow> bool \<times> nat \<times> int \<Rightarrow> client_handler \<Rightarrow> bool" where
  "ack_inv s bn = (\<lambda>(a, n, bn') s'. quiet (client s) s s' \<and>
     (if a then n < MAX_RETRIES \<and> bn' = bn + 1 \<and> acked (client s) s [bn] s' else bn' = bn))"

lemma ack_loop_spec:
  "wlp (while_m ack_guard (ack_round reader) (False, 0, bn)) (ack_result s bn) s"
proof (rule wlp_while [where I = "ack_inv s bn"])
  fix x s1
  assume I: "ack_inv s bn x s1" and g: "ack_guard x"
  then obtain n where x: "x = (False, n, bn)" "n < MAX_RETRIES" "quiet (client s) s s1"
    by (cases x) (auto simp: ack_inv_def ack_guard_def split: if_splits)
  then have c: "client s1 = client s" "same_session s s1" by (simp_all add: quiet_fields)
  show "wlp (ack_round reader x) (\<lambda>r s'. case r of
      Inl e \<Rightarrow> ack_result s bn (Inl e) s' | Inr a' \<Rightarrow> ack_inv s bn a' s') s1"
    unfolding x(1)
  proof (rule wlp_mono [OF ack_round_spec], goal_cases)
    case (1 r s')
    then show ?case
      using x c quiet_trans [OF x(3)] given_up_trans [OF x(3)] acked_before [OF c(2)]
      by (cases r) (auto simp: ack_result_def ack_inv_def split: if_splits)
  qed
qed (auto simp: ack_inv_def ack_result_def ack_guard_def)

section \<open>Sending the file\<close>

lemma reader_fsys:
  assumes "fsys s' = fsys s"
  shows "reader_left r s' = reader_left r s" "reader_good r s' = reader_good r s"
  by (simp_all only: reader_left_def reader_good_def assms)

lemma nat_blksize: "0 < n \<Longrightarrow> n < 2 ^ 32 \<Longrightarrow> nat (n mod 2 ^ 32) = nat n"
  by simp

text \<open>
  The invariant of the sending loop after \<open>k\<close> blocks: what was sent, what was acknowledged,
  and what the reader has left. \<open>bs\<close> are the blocks of the file.
\<close>

definition sent_blocks ::
  "client_handler \<Rightarrow> bytes list \<Rightarrow> nat \<Rightarrow> bytes list \<Rightarrow> client_handler \<Rightarrow> bool" where
  "sent_blocks s bs k extra s' \<longleftrightarrow> k \<le> length bs \<and> same_session s s'
     \<and> sent_to (client s) (outbox s') =
         sent_to (client s) (outbox s) @ data_raws 1 (take k bs) @ extra
     \<and> acked (client s) s [1..int k - 1] s'"

definition send_inv ::
  "client_handler \<Rightarrow> bytes list \<Rightarrow> int \<times> bool \<times> reader \<Rightarrow> client_handler \<Rightarrow> bool" where
  "send_inv s bs = (\<lambda>(bn, last, rd) s'. \<exists>k. sent_blocks s bs k [] s' \<and> fsys s' = fsys s \<and>
     (if last then k = length bs
      else bn = int k + 1 \<and> acked (client s) s [1..int k] s' \<and> reader_good rd s
         \<and> blocks (nat (blksize s)) (reader_left rd s) = drop k bs))"

definition send_result ::
  "client_handler \<Rightarrow> bytes list \<Rightarrow> 'a outcome \<Rightarrow> client_handler \<Rightarrow> bool" where
  "send_result s bs r s' = (case r of
     Inr _ \<Rightarrow> sent_blocks s bs (length bs) [] s' \<and> fsys s' = fsys s
   | Inl e \<Rightarrow> \<exists>k extra. sent_blocks s bs k extra s'
       \<and> (extra = [] \<or> interrupted e \<and> extra = [interrupted_raw]))"

lemma sent_blocks_quiet:
  assumes "sent_blocks s bs k extra s1" "quiet (client s) s1 s'"
  shows "sent_blocks s bs k extra s'"
  using assms same_session_trans [of s s1 s'] acked_after [of "client s" s _ s1 s']
  by (simp add: sent_blocks_def quiet_def)

lemma sent_blocks_given_up:
  assumes b: "sent_blocks s bs k [] s1" and g: "given_up (client s) interrupted_raw s1 e s'"
  shows "send_result s bs (Inl e) s'"
proof -
  have ses: "same_session s s1" "same_session s1 s'"
    using b g by (simp_all add: sent_blocks_def given_up_def)
  have "sent_blocks s bs k (if quiet (client s) s1 s' then [] else [interrupted_raw]) s'"
    using b g same_session_trans [OF ses] acked_after [OF _ ses]
    by (auto simp: sent_blocks_def given_up_def quiet_def)
  moreover have "quiet (client s) s1 s' \<or> interrupted e" using g by (auto simp: given_up_def)
  ultimately show ?thesis by (auto simp: send_result_def split: if_splits)
qed

lemma sent_blocks_fields:
  "sent_blocks s bs k extra s1 \<Longrightarrow> same_session s s1 \<and> client s1 = client s \<and> blksize s1 = blksize s"
  by (auto simp: sent_blocks_def dest: same_session_fields)

text \<open>After the DATA packet of block \<open>k + 1\<close>: waiting for its ACK.\<close>

lemma send_wait_spec:
  assumes s3: "sent_blocks s bs (Suc k) [] s3" "fsys s3 = fsys s"
    and last: "last' \<Longrightarrow> Suc k = length bs"
    and more: "\<not> last' \<Longrightarrow> reader_good rd s \<and>
      blocks (nat (blksize s)) (reader_left rd s) = drop (Suc k) bs"
  shows "wlp (bnd (while_m ack_guard (ack_round rd) (False, 0, int k + 1)) (\<lambda>(a, retries, bn').
      if retries \<ge> MAX_RETRIES \<and> \<not> last' then throw timeout_error
      else seq TimeoutReset (ret (bn', last', rd)))) (\<lambda>r s'. case r of
      Inl e \<Rightarrow> send_result s bs (Inl e :: 'a outcome) s' | Inr a' \<Rightarrow> send_inv s bs a' s') s3"
  unfolding wlp_bnd
proof (rule wlp_mono [OF ack_loop_spec], goal_cases)
  case (1 r s')
  have f: "same_session s s3" "client s3 = client s" using sent_blocks_fields [OF s3(1)] by simp_all
  show ?case
  proof (cases r)
    case (Inl e)
    with 1 f sent_blocks_given_up [OF s3(1), of e s'] show ?thesis
      by (simp add: ack_result_def send_result_def)
  next
    case (Inr x)
    obtain a m bn' where x: "x = (a, m, bn')" by (cases x)
    have q: "quiet (client s) s3 s'" using 1 f by (simp add: Inr x ack_result_def)
    have b: "sent_blocks s bs (Suc k) [] s'" "fsys s' = fsys s"
      using sent_blocks_quiet [OF s3(1) q] q s3(2) by (simp_all add: quiet_def)
    have up: "[1..1 + int k] = [1..int k] @ [int k + 1]"
      using upto_rec2 [of 1 "int k + 1"] by (simp add: add.commute)
    have ak: "bn' = int (Suc k) + 1 \<and> acked (client s) s [1..int (Suc k)] s'" if a
      using 1 f that acked_trans [of "client s" s "[1..int k]" s3 "[int k + 1]" s'] s3(1)
      by (simp add: Inr x ack_result_def up sent_blocks_def)
    have out: "m \<ge> MAX_RETRIES" if "\<not> a" using 1 that by (simp add: Inr x ack_result_def)
    show ?thesis
    proof (cases last')
      case True
      with b last show ?thesis
        by (auto simp: Inr x send_inv_def sent_blocks_def)
    next
      case False
      show ?thesis
      proof (cases a)
        case True
        have "m < MAX_RETRIES" using 1 True by (simp add: Inr x ack_result_def)
        with False True b ak more show ?thesis
          by (auto simp: Inr x send_inv_def sent_blocks_def intro!: exI [of _ "Suc k"])
      next
        case nack: False
        with False b out show ?thesis
          by (auto simp: Inr x send_result_def)
      qed
    qed
  qed
qed

lemma send_round_spec:
  assumes I: "send_inv s bs (bn, False, rd) s1" and blk: "0 < blksize s" "blksize s < 2 ^ 32"
  shows "wlp (send_round (bn, False, rd)) (\<lambda>r s'. case r of
      Inl e \<Rightarrow> send_result s bs (Inl e :: 'a outcome) s' | Inr a' \<Rightarrow> send_inv s bs a' s') s1"
proof -
  define n where "n = nat (blksize s)"
  define c where "c = reader_left rd s"
  obtain k where k: "sent_blocks s bs k [] s1" "fsys s1 = fsys s" "bn = int k + 1"
    "acked (client s) s [1..int k] s1" "reader_good rd s" "blocks n c = drop k bs"
    using I unfolding send_inv_def prod.case if_False n_def [symmetric] c_def [symmetric]
    by (elim exE conjE)
  have f: "client s1 = client s" "blksize s1 = blksize s" using sent_blocks_fields [OF k(1)] by simp_all
  have n: "0 < n" "nat (blksize s1 mod 2 ^ 32) = n" "blksize s = int n"
    using blk f by (simp_all add: n_def)
  note tk = take_Suc_blocks [OF k(6) n(1)]
  obtain rd' where rd: "Reader_ReadFile n rd s1 = Some (Inr (take n c, rd'), s1)"
      "reader_left rd' s = drop n c" "n \<le> length c \<longrightarrow> reader_good rd' s"
    using Reader_ReadFile_octet [of rd s1 n] k(5)
    unfolding reader_fsys [OF k(2)] c_def [symmetric] by blast
  let ?s3 = "s1\<lparr>outbox := outbox s1 @ [(client s, data_raw bn (take n c))]\<rparr>"
  have s3: "sent_blocks s bs (Suc k) [] ?s3" "fsys ?s3 = fsys s"
    using k(1,4) tk(1,2) by (simp_all add: sent_blocks_def acked_def k(2,3) add.commute)
  show ?thesis
    unfolding send_round_def prod.case wlp_bnd_eq [where m = "gets blksize", OF gets_eq] n(2)
      wlp_bnd_eq [where m = "Reader_ReadFile n rd", OF rd(1)]
    using send_wait_spec [OF s3, of True rd'] send_wait_spec [OF s3, of False rd'] rd(2,3) tk(3,4)
    by (cases "length c < n")
      (simp_all add: Let_def f n_def [symmetric] n(3) k(3) data_raw_def DataPacket_def del: wlp_bnd)
qed

text \<open>The sending loop.\<close>

lemma send_file_spec:
  assumes "reader_good rd s" "0 < blksize s" "blksize s < 2 ^ 32"
  shows "wlp (send_file rd)
    (send_result s (blocks (nat (blksize s)) (reader_left rd s))) s"
proof -
  define bs where "bs = blocks (nat (blksize s)) (reader_left rd s)"
  have "wlp (while_m send_guard send_round (1, False, rd)) (\<lambda>r s'. case r of
      Inl e \<Rightarrow> send_result s bs (Inl e :: unit outcome) s'
    | Inr _ \<Rightarrow> send_result s bs (Inr () :: unit outcome) s') s"
  proof (rule wlp_while [where I = "send_inv s bs"])
    show "send_inv s bs (1, False, rd) s"
      using assms(1) by (auto simp: send_inv_def sent_blocks_def bs_def intro!: exI [of _ 0])
  next
    fix a s1
    assume I: "send_inv s bs a s1" and g: "send_guard a"
    then obtain bn rd1 where a: "a = (bn, False, rd1)" by (cases a) (simp add: send_guard_def)
    from send_round_spec [OF I [unfolded a] assms(2,3), where 'a = unit]
    show "wlp (send_round a) (\<lambda>r s'. case r of
        Inl e \<Rightarrow> (case Inl e of Inl e \<Rightarrow> send_result s bs (Inl e :: unit outcome) s'
          | Inr _ \<Rightarrow> send_result s bs (Inr () :: unit outcome) s')
      | Inr a' \<Rightarrow> send_inv s bs a' s') s1"
      unfolding a sum.case .
  next
    fix a s1
    assume "send_inv s bs a s1" "\<not> send_guard a"
    then show "case Inr a of Inl e \<Rightarrow> send_result s bs (Inl e :: unit outcome) s1
        | Inr _ \<Rightarrow> send_result s bs (Inr () :: unit outcome) s1"
      by (cases a) (auto simp: send_inv_def send_guard_def send_result_def)
  qed
  then show ?thesis
    unfolding send_file_def wlp_seq bs_def [symmetric] by (auto elim!: wlp_mono split: sum.splits)
qed

lemma ack_loop_consumes:
  "wlp (while_m ack_guard (ack_round rd) (False, 0, bn)) (\<lambda>r s'. case r of Inl e \<Rightarrow> True
     | Inr a' \<Rightarrow> length (inbox s') < length (inbox s)) s"
  by (rule wlp_mono [OF ack_loop.loop_inbox])
    (simp add: ack_guard_def MAX_RETRIES_def split: sum.splits)

interpretation send_loop: consuming_loop send_guard send_round
proof unfold_locales
  fix a s assume g: "send_guard a"
  obtain bn last rd where a: "a = (bn, last, rd)" by (cases a)
  show "returns (send_round a) s"
    unfolding send_round_def a prod.case Let_def
    by (intro returns_intros) (simp_all add: ack_loop.loop_returns)
  show "wlp (send_round a) (\<lambda>r s'. case r of Inl e \<Rightarrow> True
      | Inr a' \<Rightarrow> length (inbox s') < length (inbox s)) s"
    unfolding send_round_def a prod.case Let_def wlp_bnd wlp_gets sum.case
    by (rule wlp_mono [OF wlp_Reader_ReadFile])
      (auto intro!: wlp_mono [OF ack_loop_consumes] split: sum.splits)
qed

lemma returns_send_file [simp, returns_rules]: "returns (send_file rd) s"
  unfolding send_file_def by (intro returns_intros) (simp_all add: send_loop.loop_returns)

section \<open>The OACK and its acknowledgement\<close>

lemma oack_round_spec:
  "wlp (oack_round reader (False, n)) (\<lambda>r s'. case r of
     Inl e \<Rightarrow> given_up (client s) interrupted_raw s e s'
   | Inr (a, n') \<Rightarrow> quiet (client s) s s' \<and> length (inbox s') < length (inbox s)
       \<and> (if a then n' = n \<and> acked (client s) s [0] s' else n' \<le> n + 1)) s"
  unfolding oack_round_def prod.case
proof (rule wlp_wait_client, rule wlp_wait, goal_cases)
  case (1 b s1)
  then show ?case
    using received_acked [OF 1]
    by (auto simp: given_upI received_length received_quiet ctor_not_waitable
        intro!: wlp_mono [OF wlp_throw_error_packet] split: sum.splits)
next
  case (3 s1)
  then have "client s1 = client s" by (simp add: quiet_fields)
  with 3 show ?case
    using wlp_CheckForSigintRRQ [OF 3(2), of reader]
    by (auto elim!: wlp_mono intro: given_up_trans)
qed (simp_all add: given_upI)

lemma returns_oack_round [simp, returns_rules]: "returns (oack_round reader a) s"
  unfolding oack_round_def
  by (cases a; simp only: prod.case; intro round_returns; simp)

interpretation oack_loop: consuming_loop oack_guard "oack_round reader" for reader
proof unfold_locales
  fix a s assume "oack_guard a"
  then obtain n where "a = (False, n)" by (cases a) (simp add: oack_guard_def)
  then show "wlp (oack_round reader a) (\<lambda>r s'. case r of Inl e \<Rightarrow> True
      | Inr a' \<Rightarrow> length (inbox s') < length (inbox s)) s"
    by (auto intro!: wlp_mono [OF oack_round_spec] split: sum.splits)
qed simp

definition oack_result :: "client_handler \<Rightarrow> (bool \<times> nat) outcome \<Rightarrow> client_handler \<Rightarrow> bool" where
  "oack_result s r s' = (case r of
     Inl e \<Rightarrow> given_up (client s) interrupted_raw s e s'
   | Inr (a, n) \<Rightarrow> quiet (client s) s s'
       \<and> (if a then n < MAX_RETRIES \<and> acked (client s) s [0] s' else n \<ge> MAX_RETRIES))"

definition oack_inv :: "client_handler \<Rightarrow> bool \<times> nat \<Rightarrow> client_handler \<Rightarrow> bool" where
  "oack_inv s = (\<lambda>(a, n) s'. quiet (client s) s s' \<and>
     (a \<longrightarrow> n < MAX_RETRIES \<and> acked (client s) s [0] s'))"

lemma oack_loop_spec:
  "wlp (while_m oack_guard (oack_round reader) (False, 0)) (oack_result s) s"
proof (rule wlp_while [where I = "oack_inv s"])
  fix x s1
  assume I: "oack_inv s x s1" and g: "oack_guard x"
  then obtain n where x: "x = (False, n)" "n < MAX_RETRIES" "quiet (client s) s s1"
    by (cases x) (auto simp: oack_inv_def oack_guard_def)
  then have c: "client s1 = client s" "same_session s s1" by (simp_all add: quiet_fields)
  show "wlp (oack_round reader x) (\<lambda>r s'. case r of
      Inl e \<Rightarrow> oack_result s (Inl e) s' | Inr a' \<Rightarrow> oack_inv s a' s') s1"
    unfolding x(1)
  proof (rule wlp_mono [OF oack_round_spec], goal_cases)
    case (1 r s')
    then show ?case
      using x c quiet_trans [OF x(3)] given_up_trans [OF x(3)] acked_before [OF c(2)]
      by (cases r) (auto simp: oack_result_def oack_inv_def split: if_splits)
  qed
qed (auto simp: oack_inv_def oack_result_def oack_guard_def)

text \<open>The OACK is sent once; the phase ends well only after an ACK of block 0.\<close>

definition oack_sent ::
  "client_handler \<Rightarrow> bytes \<Rightarrow> unit outcome \<Rightarrow> client_handler \<Rightarrow> bool" where
  "oack_sent s raw r s' \<longleftrightarrow> same_session s s' \<and> (\<exists>extra.
     sent_to (client s) (outbox s') = sent_to (client s) (outbox s) @ raw # extra
     \<and> (case r of
          Inr _ \<Rightarrow> extra = [] \<and> fsys s' = fsys s \<and> acked (client s) s [0] s'
        | Inl e \<Rightarrow> extra = [] \<or> interrupted e \<and> extra = [interrupted_raw]))"

lemma oack_phase_spec:
  assumes "OackPacket_MakeRaw (OackPacket opts) = Inr raw"
  shows "wlp (oack_phase reader opts) (oack_sent s raw) s"
proof -
  let ?s1 = "s\<lparr>outbox := outbox s @ [(client s, raw)]\<rparr>"
  have *: "wlp (while_m oack_guard (oack_round reader) (False, 0))
      (\<lambda>r s'. case r of Inl e \<Rightarrow> oack_sent s raw (Inl e) s'
       | Inr (ackReceived, retries) \<Rightarrow>
           wlp (if retries \<ge> MAX_RETRIES then throw timeout_error else TimeoutReset)
             (oack_sent s raw) s') ?s1"
  proof (rule wlp_mono [OF oack_loop_spec], goal_cases)
    case (1 r s')
    then show ?case
      by (auto simp: oack_result_def oack_sent_def given_up_def quiet_def same_session_def acked_def
          split: sum.splits if_splits)
  qed
  show ?thesis
    unfolding oack_phase_def using *
    by (auto simp: send_oack_def assms elim!: wlp_mono split: sum.splits)
qed

lemma returns_oack_phase [simp, returns_rules]: "returns (oack_phase reader opts) s"
  unfolding oack_phase_def by (intro returns_intros) (simp_all add: oack_loop.loop_returns)

section \<open>The whole transfer\<close>

text \<open>
  What a read request has done when it stops: \<open>pre\<close> is what was sent before the data (the OACK),
  \<open>a0\<close> the acknowledgement of it, \<open>bs\<close> the blocks of the file.
\<close>

definition served ::
  "client_handler \<Rightarrow> bytes list \<Rightarrow> int list \<Rightarrow> bytes list \<Rightarrow> 'a outcome \<Rightarrow> client_handler \<Rightarrow> bool" where
  "served s pre a0 bs r s' \<longleftrightarrow> (\<exists>k extra. k \<le> length bs
     \<and> sent_to (client s) (outbox s') =
         sent_to (client s) (outbox s) @ pre @ data_raws 1 (take k bs) @ extra
     \<and> (k > 0 \<longrightarrow> acked (client s) s (a0 @ [1..int k - 1]) s')
     \<and> (case r of
          Inr _ \<Rightarrow> k = length bs \<and> extra = []
        | Inl e \<Rightarrow> extra = [] \<or> interrupted e \<and> extra = [interrupted_raw]))"

lemma send_result_served:
  assumes "send_result s bs r s'"
  shows "served s [] [] bs r s'"
proof (cases r)
  case (Inl e)
  with assms obtain k extra where "sent_blocks s bs k extra s'"
    "extra = [] \<or> interrupted e \<and> extra = [interrupted_raw]"
    by (auto simp: send_result_def)
  then show ?thesis
    unfolding served_def Inl sum.case
    by (intro exI [of _ k] exI [of _ extra]) (simp add: sent_blocks_def)
next
  case (Inr x)
  with assms show ?thesis
    unfolding served_def Inr sum.case
    by (intro exI [of _ "length bs"] exI [of _ "[]"]) (simp add: send_result_def sent_blocks_def)
qed

text \<open>The transfer after the OACK phase.\<close>

lemma oack_served:
  assumes o: "oack_sent s raw (Inr ()) s1" and v: "served s1 [] [] bs r s'"
  shows "served s [raw] [0] bs r s'"
proof -
  have ses: "same_session s s1" and out: "sent_to (client s) (outbox s1) =
      sent_to (client s) (outbox s) @ [raw]" and ak: "acked (client s) s [0] s1"
    using o by (auto simp: oack_sent_def)
  have c: "client s1 = client s" using same_session_fields [OF ses] by simp
  obtain k extra where k: "k \<le> length bs" "sent_to (client s) (outbox s') =
      sent_to (client s) (outbox s1) @ data_raws 1 (take k bs) @ extra"
    "k > 0 \<longrightarrow> acked (client s) s1 [1..int k - 1] s'"
    "case r of Inr _ \<Rightarrow> k = length bs \<and> extra = []
      | Inl e \<Rightarrow> extra = [] \<or> interrupted e \<and> extra = [interrupted_raw]"
    using v by (auto simp: served_def c)
  show ?thesis
    unfolding served_def using k acked_trans [OF ak ses]
    by (intro exI [of _ k] exI [of _ extra]) (simp add: out)
qed

lemma transfer_spec:
  assumes rd: "reader_good rd s" and blk: "0 < blksize s" "blksize s < 2 ^ 32"
    and oack: "OackPacket_MakeRaw (OackPacket opts) = Inr raw"
  defines "bs \<equiv> blocks (nat (blksize s)) (reader_left rd s)"
  shows "wlp (seq (if b then oack_phase rd opts else skip) (send_file rd))
    (served s (if b then [raw] else []) (if b then [0] else []) bs) s"
proof (cases b)
  case False
  have "wlp (send_file rd) (served s [] [] bs) s"
    unfolding bs_def by (rule wlp_mono [OF send_file_spec [OF rd blk] send_result_served])
  with False show ?thesis by simp
next
  case True
  have "wlp (oack_phase rd opts) (\<lambda>r s1. case r of
      Inl e \<Rightarrow> served s [raw] [0] bs (Inl e :: unit outcome) s1
    | Inr _ \<Rightarrow> wlp (send_file rd) (served s [raw] [0] bs) s1) s"
  proof (rule wlp_mono [OF oack_phase_spec [OF oack]], goal_cases)
    case (1 r s1)
    show ?case
    proof (cases r)
      case (Inl e)
      with 1 show ?thesis by (auto simp: oack_sent_def served_def intro: exI [of _ 0])
    next
      case (Inr x)
      then have o: "oack_sent s raw (Inr ()) s1" using 1 by simp
      then have f: "blksize s1 = blksize s" "fsys s1 = fsys s"
        by (auto simp: oack_sent_def dest: same_session_fields)
      have "wlp (send_file rd) (send_result s1 bs) s1"
        using send_file_spec [of rd s1] rd blk
        by (simp add: f(1) bs_def reader_fsys [OF f(2)])
      then show ?thesis
        using Inr o by (auto elim!: wlp_mono intro: oack_served send_result_served)
    qed
  qed
  with True show ?thesis by simp
qed

section \<open>The \<open>tsize\<close> option\<close>

lemma wlp_tsize_loop: "wlp (tsize_loop f m) (\<lambda>_ s'. s' = s) s"
proof -
  have r: "wlp (tsize_round a) (\<lambda>_ s'. s' = s) s" for a
    by (cases a) (auto simp: tsize_round_def intro!: wlp_mono [OF wlp_Reader_ReadFile] split: sum.splits)
  have l: "wlp (while_m c tsize_round a) (\<lambda>_ s'. s' = s) s" for c a
    by (rule wlp_while [where I = "\<lambda>_ s'. s' = s"])
      (auto intro!: wlp_mono [OF r] split: sum.splits)
  show ?thesis
    by (auto simp: tsize_loop_def intro!: wlp_mono [OF r] wlp_mono [OF l] split: sum.splits)
qed

section \<open>The request\<close>

text \<open>A readable file under the root directory, with content \<open>c\<close>.\<close>

definition readable :: "client_handler \<Rightarrow> string \<Rightarrow> bytes \<Rightarrow> bool" where
  "readable s f c \<longleftrightarrow> isFilePathUnderDirectory (fsys s) f (root_dirpath s) = Some True
     \<and> nodes (fsys s) (canonical_of (fsys s) f) = Some (FileN c)
     \<and> may_open (fsys s) (canonical_of (fsys s) f)"

text \<open>
  The outcome of a read request: nothing was sent (the negotiation failed), or the OACK, if
  options were requested, and blocks of the file were.
\<close>

definition rrq_outcome ::
  "client_handler \<Rightarrow> read_write_packet \<Rightarrow> bytes \<Rightarrow> unit outcome \<Rightarrow> client_handler \<Rightarrow> bool" where
  "rrq_outcome s p c r s' \<longleftrightarrow>
     (\<exists>e. r = Inl e \<and> outbox s' = outbox s) \<or>
     served s (if rw_options p = [] then [] else [oack_raw (rw_options p)])
       (if rw_options p = [] then [] else [0]) (blocks (nat (request_bs p)) c) r s'"

lemma served_negotiated:
  "negotiated s s1 \<Longrightarrow> served s1 pre a0 bs r s' \<Longrightarrow> served s pre a0 bs r s'"
  using negotiated_fields [of s s1] by (auto simp: served_def acked_def)

lemma FollowOnRRQ_octet:
  assumes parse: "ReadWritePacket_ctor_raw raw = Inr p" and mode: "rw_mode p = OCTET"
    and rdbl: "readable s (request_path s p) c" and fresh: "blksize s = 512"
  shows "wlp (FollowOnRRQ raw) (rrq_outcome s p c) s"
proof -
  let ?f = "request_path s p" and ?m = "data_format (rw_mode p)"
  define rd where "rd = Reader_ctor ?f ?m (uninit s)"
  define b where "b \<longleftrightarrow> rw_options p \<noteq> []"
  have go: "wlp (seq (for_each negs (\<lambda>opt. if opt_name opt = TSIZE then tsize_loop ?f ?m else skip))
      (seq (if b then oack_phase rd negs else skip) (send_file rd))) (rrq_outcome s p c) s1"
    if n: "negotiated s s1" "negs = supported (rw_options p)"
      "blksize s1 = chosen_blksize (blksize s) (rw_options p)" for negs s1
  proof -
    have f1: "fsys s1 = fsys s" "outbox s1 = outbox s" using negotiated_fields [OF n(1)] by simp_all
    have rd1: "reader_good rd s1" "reader_left rd s1 = c"
      using rdbl by (simp_all add: f1(1) readable_def rd_def Reader_ctor_def
          reader_good_def reader_left_def FileExists_def mode data_format_def)
    have blk: "blksize s1 = request_bs p" "0 < blksize s1" "blksize s1 < 2 ^ 32"
      using n(3) fresh chosen_blksize_range [OF ReadWritePacket_valid [OF parse], of 512]
      by (simp_all add: request_bs_def)
    have oa: "OackPacket_MakeRaw (OackPacket negs) = Inr (oack_raw (rw_options p))"
      by (simp add: n(2) oack_raw_eq)
    have tr: "wlp (seq (if b then oack_phase rd negs else skip) (send_file rd))
        (rrq_outcome s p c) s1"
    proof (rule wlp_mono [OF transfer_spec [OF rd1(1) blk(2,3) oa, of b]], goal_cases)
      case (1 r s')
      from served_negotiated [OF n(1) 1] show ?case
        by (cases b) (simp_all add: rrq_outcome_def b_def rd1(2) blk(1))
    qed
    show ?thesis
      unfolding wlp_seq [of "for_each _ _"]
      by (rule wlp_mono [OF wlp_for_each_same])
        (use tr f1 wlp_tsize_loop in \<open>auto simp: rrq_outcome_def split: sum.splits\<close>)
  qed
  have under: "FileExists (fsys s) ?f" "isFilePathUnderDirectory (fsys s) ?f (root_dirpath s) = Some True"
    using rdbl by (simp_all add: readable_def FileExists_def)
  have "wlp (NegotiateOptions (rw_options p)) (\<lambda>r s1. case r of
      Inl e \<Rightarrow> rrq_outcome s p c (Inl e) s1
    | Inr negs \<Rightarrow> wlp (seq (for_each negs (\<lambda>opt. if opt_name opt = TSIZE then tsize_loop ?f ?m else skip))
      (seq (if b then oack_phase rd negs else skip) (send_file rd))) (rrq_outcome s p c) s1) s"
  proof (rule wlp_mono [OF NegotiateOptions_spec [OF ReadWritePacket_valid [OF parse]]], goal_cases)
    case (1 r s1)
    then have n: "negotiated s s1" by simp
    show ?case
    proof (cases r)
      case (Inl e)
      with negotiated_fields [OF n] show ?thesis by (simp add: rrq_outcome_def)
    next
      case (Inr negs)
      with 1 have "negs = supported (rw_options p)"
        "blksize s1 = chosen_blksize (blksize s) (rw_options p)" by simp_all
      from go [OF n this] show ?thesis unfolding Inr sum.case .
    qed
  qed
  then show ?thesis
    unfolding FollowOnRRQ_def wlp_bnd wlp_lift_exn parse sum.case wlp_gets Let_def
      request_path_def [symmetric] eqTrueI [OF under(1)] under(2) not_True_eq_False if_False
      option.case length_greater_0_conv b_def rd_def .
qed

section \<open>A client that acknowledges every block\<close>

text \<open>
  The acknowledgements of the blocks from \<open>n\<close> to \<open>z\<close> will arrive, \<open>k\<close> disturbances having happened
  since the last one. The loop sends each block and takes the ACK, so it ends with every block sent.
\<close>

definition coop :: "nat \<Rightarrow> int \<Rightarrow> int \<Rightarrow> net_event list \<Rightarrow> client_handler \<Rightarrow> bool" where
  "coop k n z rest s \<longleftrightarrow> sigint_at s = None \<and> 4 \<le> maxPacketSize s \<and> 0 \<le> n \<and> z < 65536 \<and> k < MAX_RETRIES
     \<and> arrives (client s) (map (ack_due (maxPacketSize s)) [n..z]) k rest (inbox s)"

lemma coop_steps [simp]:
  "coop k n z rest (s\<lparr>outbox := out\<rparr>) = coop k n z rest s"
  "coop k n z rest (s\<lparr>udp_timeout := t, so_rcvtimeo := u\<rparr>) = coop k n z rest s"
  by (simp_all add: coop_def)

lemma coop_few: "q \<le> k \<Longrightarrow> coop k n z rest s \<Longrightarrow> q < MAX_RETRIES"
  by (simp add: coop_def)

lemma handler_recv_fields:
  fixes s s' :: client_handler
  assumes "recv_frame peer s s'"
  shows "client s' = client s" "blksize s' = blksize s"
  using assms by (auto simp: recv_frame_def dest: arg_cong [where f = client_address] arg_cong [where f = blksize])

text \<open>What the sender does not change while it waits.\<close>

definition same_source :: "client_handler \<Rightarrow> client_handler \<Rightarrow> bool" where
  "same_source s s' \<longleftrightarrow> fsys s' = fsys s \<and> client s' = client s \<and> blksize s' = blksize s
     \<and> maxPacketSize s' = maxPacketSize s \<and> sigint_at s' = sigint_at s"

lemma same_source_steps [simp]:
  "same_source s s"
  "same_source (s\<lparr>outbox := out\<rparr>) s' = same_source s s'"
  "same_source s (s'\<lparr>outbox := out\<rparr>) = same_source s s'"
  "same_source s (s'\<lparr>udp_timeout := t, so_rcvtimeo := u\<rparr>) = same_source s s'"
  by (simp_all add: same_source_def)

lemma same_source_trans: "same_source s s1 \<Longrightarrow> same_source s1 s' \<Longrightarrow> same_source s s'"
  by (simp add: same_source_def)

lemma recv_same_source: "recv_frame peer s s' \<Longrightarrow> same_source s s'"
  using recv_frame_fields [of peer s s'] recv_frame_udp_fields [of peer s s'] handler_recv_fields [of peer s s']
  by (simp add: same_source_def)

lemma coop_later:
  assumes "coop k n z rest s" "recv_frame (client s) s s'" "j < MAX_RETRIES" "n \<le> i"
    and "arrives (client s) (map (ack_due (maxPacketSize s)) [i..z]) j rest (inbox s')"
  shows "coop j i z rest s'"
  using assms recv_same_source [OF assms(2)] by (simp add: coop_def same_source_def)

text \<open>One round: the ACK, or another try. \<open>q\<close> counts the tries the handler counts.\<close>

lemma ack_round_coop:
  assumes a: "coop k n z rest s" and n: "n \<le> z" and q: "q \<le> k"
  shows "wlp (ack_round rd (False, q, n)) (\<lambda>r s'. same_source s s'
     \<and> (r = Inr (True, q, n + 1) \<and> coop 0 (n + 1) z rest s'
      \<or> (\<exists>p j. r = Inr (False, p, n) \<and> p \<le> j \<and> coop j n z rest s'))) s"
proof -
  have m: "4 \<le> maxPacketSize s" "0 \<le> n" "n < 65536" using a n by (simp_all add: coop_def)
  have num: "uint (word_of_int n :: 16 word) = n" using m by (simp add: uint_word_of_int)
  have due: "arrives (client s) (ack_due (maxPacketSize s) n # map (ack_due (maxPacketSize s)) [n + 1..z]) k rest (inbox s)"
    "sigint_at s = None" "fitting s (ack_due (maxPacketSize s) n)" "k < MAX_RETRIES"
    using a n fitting_ack [OF m(1)] by (simp_all add: coop_def upto_rec1)
  have eq: "ack_due l n # map (ack_due l) [n + 1..z] = map (ack_due l) [n..z]" for l
    using n by (simp add: upto_rec1)
  show ?thesis
    unfolding ack_round_def prod.case
  proof (rule wlp_wait_client, rule wlp_wait_due [OF due], goal_cases)
    case (1 s')
    have "coop 0 (n + 1) z rest s'" using coop_later [OF a 1(1) _ _ 1(2)] by (simp add: MAX_RETRIES_def)
    with recv_same_source [OF 1(1)] show ?case by (simp add: ack_due_def AckPacket_def num)
  next
    case (2 j x s')
    have l: "coop j n z rest s'" "same_source s s'"
      using coop_later [OF a 2(1) _ _ 2(2) [unfolded eq]] 2(4) recv_same_source [OF 2(1)] by simp_all
    from 2(5) have "stale_ack (maxPacketSize s) n x" by (simp add: ack_due_def)
    then show ?case
    proof (cases rule: stale_ackE)
      case (old p)
      then have "uint (ap_block_number p) < n" by (simp add: word_less_def num)
      with old show ?thesis using l 2(3) q by (auto intro!: exI [of _ j])
    next
      case (other opc)
      then show ?thesis using l 2(3) q by (auto intro!: exI [of _ j])
    qed
  next
    case (3 j s')
    have "coop j n z rest s'" "same_source s s'"
      using coop_later [OF a 3(1) _ _ 3(2) [unfolded eq]] 3(4) recv_same_source [OF 3(1)] by simp_all
    with 3(3) q show ?case by (auto intro!: exI [of _ j])
  qed
qed

lemma ack_loop_coop:
  assumes a: "coop 0 n z rest s" "n \<le> z"
  shows "wlp (while_m ack_guard (ack_round rd) (False, 0, n)) (\<lambda>r s'.
    \<exists>q. q < MAX_RETRIES \<and> r = Inr (True, q, n + 1) \<and> coop 0 (n + 1) z rest s' \<and> same_source s s') s"
proof -
  define I where "I = (\<lambda>(got, q, bn) s'. same_source s s' \<and> q < MAX_RETRIES
     \<and> (if got then bn = n + 1 \<and> coop 0 (n + 1) z rest s'
        else bn = n \<and> (\<exists>k. q \<le> k \<and> coop k n z rest s')))"
  show ?thesis
  proof (rule wlp_while [where I = I], goal_cases)
    case 1
    show ?case using a(1) by (auto simp: I_def MAX_RETRIES_def)
  next
    case (2 x s')
    then obtain q k where x: "x = (False, q, n)" "q \<le> k" "coop k n z rest s'" "same_source s s'" "q < MAX_RETRIES"
      by (cases x) (auto simp: I_def ack_guard_def)
    show ?case
      unfolding x(1) by (rule wlp_mono [OF ack_round_coop [OF x(3) a(2) x(2)]])
        (use x(4,5) in \<open>elim disjE exE conjE; auto simp: I_def intro: coop_few same_source_trans\<close>)
  next
    case (3 x s')
    then show ?case by (cases x) (auto simp: I_def ack_guard_def split: if_splits)
  qed
qed

text \<open>One block, and the rest of the loop for the blocks that are left.\<close>

lemma send_round_coop:
  assumes a: "coop 0 n z rest s" "n \<le> z" and blk: "0 < blksize s" "blksize s < 2 ^ 32"
    and rd: "Reader_ReadFile (nat (blksize s)) rd s = Some (Inr (d, rd'), s)"
  shows "wlp (send_round (n, False, rd)) (\<lambda>r s'. r = Inr (n + 1, int (length d) < blksize s, rd')
     \<and> coop 0 (n + 1) z rest s' \<and> same_source s s') s"
proof -
  have b: "nat (blksize s mod 2 ^ 32) = nat (blksize s)" using blk by simp
  have rdw: "wlp (Reader_ReadFile (nat (blksize s)) rd) Q s = Q (Inr (d, rd')) s" for Q
    using rd by (simp add: wlp_def)
  have "coop 0 n z rest (s\<lparr>outbox := outbox s @ [(client s, data_raw n d)]\<rparr>)" using a(1) by simp
  note loop = ack_loop_coop [OF this a(2)]
  show ?thesis
    unfolding send_round_def prod.case wlp_bnd [of "gets blksize"] wlp_gets sum.case b wlp_bnd [of "Reader_ReadFile _ _"] rdw
    by (cases "int (length d) < blksize s")
      (simp_all add: Let_def, (rule wlp_mono [OF loop], auto simp: not_le [symmetric])+)
qed

lemma send_loop_coop:
  assumes "reader_good rd s" "0 < blksize s" "blksize s < 2 ^ 32"
    and "coop 0 n z rest s"
    and "z = n + int (length (blocks (nat (blksize s)) (reader_left rd s))) - 1"
  shows "wlp (while_m send_guard send_round (n, False, rd)) (\<lambda>r s'. (\<exists>a. r = Inr a) \<and> inbox s' = rest) s"
  using assms
proof (induction "length (reader_left rd s)" arbitrary: rd s n rule: less_induct)
  case less
  let ?n = "nat (blksize s)" and ?c = "reader_left rd s"
  have n: "0 < ?n" using less.prems by simp
  obtain rd' where rd: "Reader_ReadFile ?n rd s = Some (Inr (take ?n ?c, rd'), s)"
    "reader_left rd' s = drop ?n ?c" "?n \<le> length ?c \<longrightarrow> reader_good rd' s"
    using Reader_ReadFile_octet [OF less.prems(1)] by blast
  have le: "n \<le> z" using less.prems(5) by (cases "blocks ?n ?c") auto
  have sh: "(int (length (take ?n ?c)) < blksize s) = (length ?c < ?n)"
    using less.prems(2) by auto
  note round = send_round_coop [OF less.prems(4) le less.prems(2,3) rd(1), unfolded sh]
  have g: "send_guard (n, False, rd)" by (simp add: send_guard_def)
  show ?case
  proof (cases "length ?c < ?n")
    case True
    have out: "\<not> send_guard (n + 1, True, rd')" by (simp add: send_guard_def)
    have "z = n" using less.prems(5) True by (simp add: blocks_short)
    then show ?thesis
      unfolding wlp_while_go [where c = send_guard, OF g]
      by (rule_tac wlp_mono [OF round]) (use True in \<open>auto simp: wlp_while_out [where c = send_guard, OF out] coop_def\<close>)
  next
    case False
    have others: "wlp (while_m send_guard send_round (n + 1, False, rd')) (\<lambda>r s'. (\<exists>a. r = Inr a) \<and> inbox s' = rest) s1"
      if s1: "coop 0 (n + 1) z rest s1" "same_source s s1" for s1
    proof (rule less.hyps [OF _ _ _ _ s1(1)])
      have f: "fsys s1 = fsys s" "blksize s1 = blksize s" using s1(2) by (simp_all add: same_source_def)
      show "length (reader_left rd' s1) < length ?c"
        unfolding reader_fsys [OF f(1)] rd(2) using False n by simp
      show "reader_good rd' s1" unfolding reader_fsys [OF f(1)] using rd(3) False by simp
      show "0 < blksize s1" "blksize s1 < 2 ^ 32" using less.prems f by simp_all
      show "z = n + 1 + int (length (blocks (nat (blksize s1)) (reader_left rd' s1))) - 1"
        unfolding reader_fsys [OF f(1)] rd(2) f(2) using less.prems(5) False n by (simp add: blocks_long)
    qed
    show ?thesis
      unfolding wlp_while_go [where c = send_guard, OF g]
      by (rule wlp_mono [OF round]) (use False others in auto)
  qed
qed

text \<open>
  The OACK phase with a client that acknowledges it; in its place the request may be received
  again.
\<close>

definition oack_ack_due :: "nat \<Rightarrow> due" where
  "oack_ack_due lim = (ack_raw 0, \<lambda>x. length x \<le> lim \<and> GetOpcodeFromRaw x = Inr RRQ)"

definition greeted :: "nat \<Rightarrow> due list \<Rightarrow> net_event list \<Rightarrow> client_handler \<Rightarrow> bool" where
  "greeted k ds rest s \<longleftrightarrow> sigint_at s = None \<and> 4 \<le> maxPacketSize s \<and> k < MAX_RETRIES
     \<and> arrives (client s) (oack_ack_due (maxPacketSize s) # ds) k rest (inbox s)"

lemma oack_round_greeted:
  assumes a: "greeted k ds rest s" and q: "q \<le> k"
  shows "wlp (oack_round rd (False, q)) (\<lambda>r s'. same_source s s'
     \<and> (r = Inr (True, q) \<and> arrives (client s) ds 0 rest (inbox s')
      \<or> (\<exists>p j. r = Inr (False, p) \<and> p \<le> j \<and> greeted j ds rest s'))) s"
proof -
  have due: "arrives (client s) (oack_ack_due (maxPacketSize s) # ds) k rest (inbox s)"
    "sigint_at s = None" "fitting s (oack_ack_due (maxPacketSize s))" "k < MAX_RETRIES"
    using a by (simp_all add: greeted_def fitting_def oack_ack_due_def)
  have later: "greeted j ds rest s'" if "same_source s s'" "j < MAX_RETRIES"
    "arrives (client s) (oack_ack_due (maxPacketSize s) # ds) j rest (inbox s')" for j s'
    using that a by (simp add: greeted_def same_source_def)
  show ?thesis
    unfolding oack_round_def prod.case
  proof (rule wlp_wait_client, rule wlp_wait_due [OF due], goal_cases)
    case (1 s')
    then show ?case using recv_same_source [OF 1(1)] by (simp add: oack_ack_due_def AckPacket_def)
  next
    case (2 j x s')
    note l = later [OF recv_same_source [OF 2(1)] 2(4,2)] recv_same_source [OF 2(1)]
    have "GetOpcodeFromRaw x = Inr RRQ" using 2(5) by (simp add: oack_ack_due_def)
    then show ?case using l 2(3) q by (auto intro!: exI [of _ j])
  next
    case (3 j s')
    note l = later [OF recv_same_source [OF 3(1)] 3(4,2)] recv_same_source [OF 3(1)]
    then show ?case using 3(3) q by (auto simp: greeted_def intro!: exI [of _ j])
  qed
qed

lemma oack_phase_coop:
  assumes s: "greeted 0 ds rest s" and raw: "OackPacket_MakeRaw (OackPacket opts) = Inr raw"
  shows "wlp (oack_phase rd opts) (\<lambda>r s'. r = Inr () \<and> same_source s s' \<and> arrives (client s) ds 0 rest (inbox s')) s"
proof -
  let ?s1 = "s\<lparr>outbox := outbox s @ [(client s, raw)]\<rparr>"
  define I where "I = (\<lambda>(got, q) s'. same_source s s' \<and> q < MAX_RETRIES
     \<and> (if got then arrives (client s) ds 0 rest (inbox s') else (\<exists>k. q \<le> k \<and> greeted k ds rest s')))"
  have few: "q \<le> k \<Longrightarrow> greeted k ds rest s' \<Longrightarrow> q < MAX_RETRIES" for q k s'
    by (simp add: greeted_def)
  have "wlp (while_m oack_guard (oack_round rd) (False, 0)) (\<lambda>r s'. \<exists>q. q < MAX_RETRIES \<and> r = Inr (True, q)
     \<and> same_source s s' \<and> arrives (client s) ds 0 rest (inbox s')) ?s1"
  proof (rule wlp_while [where I = I], goal_cases)
    case 1
    show ?case using s by (auto simp: I_def MAX_RETRIES_def greeted_def intro!: exI [of _ 0])
  next
    case (2 x s')
    then obtain q k where x: "x = (False, q)" "q \<le> k" "greeted k ds rest s'" "same_source s s'" "q < MAX_RETRIES"
      by (cases x) (auto simp: I_def oack_guard_def)
    then have "client s' = client s" by (simp add: same_source_def)
    then show ?case
      unfolding x(1) by (rule_tac wlp_mono [OF oack_round_greeted [OF x(3,2)]])
        (use x(4,5) in \<open>elim disjE exE conjE; auto simp: I_def intro: few same_source_trans\<close>)
  next
    case (3 x s')
    then show ?case by (cases x) (auto simp: I_def oack_guard_def split: if_splits)
  qed
  then show ?thesis
    by (simp add: oack_phase_def send_oack_def raw) (erule wlp_mono, auto)
qed

end
