(* ===== verification/Receiving.thy ===== *)
theory Receiving
  imports Waiting
begin

text \<open>
  Receiving a file as numbered blocks, for both programs (the server's write requests, the
  client's downloads): the DATA packets of the peer in the inbox, the frame of a round that
  writes to the file, what one round of the waiting loops does with a block, and the
  invariant of the transfer. \<open>peer\<close> is the other side, \<open>blk\<close> the block size.
\<close>

section \<open>The blocks the peer sent\<close>

definition data_event :: "sockaddr \<Rightarrow> nat \<Rightarrow> int \<Rightarrow> net_event \<Rightarrow> (int \<times> bytes) list" where
  "data_event peer limit blk e = (case e of
     Datagram a d \<Rightarrow>
       if a = peer then
         (case DataPacket_ctor_raw (take limit d) blk of
            Inl _ \<Rightarrow> [] | Inr p \<Rightarrow> [(uint (dp_block_number p), dp_data p)])
       else []
   | _ \<Rightarrow> [])"

definition datas :: "sockaddr \<Rightarrow> nat \<Rightarrow> int \<Rightarrow> net_event list \<Rightarrow> (int \<times> bytes) list" where
  "datas peer limit blk evs = concat (map (data_event peer limit blk) evs)"

lemma datas_simps [simp]:
  "datas peer limit blk [] = []"
  "datas peer limit blk (e # es) = data_event peer limit blk e @ datas peer limit blk es"
  "datas peer limit blk (xs @ ys) = datas peer limit blk xs @ datas peer limit blk ys"
  by (simp_all add: datas_def)

text \<open>\<open>got peer blk s nds s'\<close>: these numbered blocks were taken from the inbox, in this order.\<close>

definition got :: "sockaddr \<Rightarrow> int \<Rightarrow> 'b udp_client_scheme \<Rightarrow> (int \<times> bytes) list \<Rightarrow>
    'b udp_client_scheme \<Rightarrow> bool" where
  "got peer blk s nds s' \<longleftrightarrow> (\<exists>used. inbox s = used @ inbox s'
     \<and> subseq nds (datas peer (maxPacketSize s) blk used))"

lemma got_Nil: "same_session s s' \<Longrightarrow> got peer blk s [] s'"
  by (auto simp: got_def same_session_def)

lemma received_got:
  assumes "received peer s b s'" "DataPacket_ctor_raw b blk = Inr p"
  shows "got peer blk s [(uint (dp_block_number p), dp_data p)] s'"
proof -
  obtain pre d where i: "inbox s = pre @ Datagram peer d # inbox s'"
    and b: "b = take (maxPacketSize s) d"
    using assms(1) by (auto simp: received_def took_def)
  have "datas peer (maxPacketSize s) blk (pre @ [Datagram peer d]) =
      datas peer (maxPacketSize s) blk pre @ [(uint (dp_block_number p), dp_data p)]"
    using assms(2) by (simp add: data_event_def b)
  then show ?thesis unfolding got_def using i
    by (intro exI [of _ "pre @ [Datagram peer d]"]) (simp add: list_emb_append2)
qed

lemma got_trans:
  assumes "got peer blk s ns s1" "same_session s s1" "got peer blk s1 ms s'"
  shows "got peer blk s (ns @ ms) s'"
proof -
  obtain u v where "inbox s = u @ inbox s1" "inbox s1 = v @ inbox s'"
    "subseq ns (datas peer (maxPacketSize s) blk u)" "subseq ms (datas peer (maxPacketSize s) blk v)"
    using assms by (auto simp: got_def same_session_def)
  then show ?thesis
    unfolding got_def by (intro exI [of _ "u @ v"]) (simp add: list_emb_append_mono)
qed

lemma got_before: "same_session s s1 \<Longrightarrow> got peer blk s1 ns s' \<Longrightarrow> got peer blk s ns s'"
  using got_trans [of peer blk s "[]" s1 ns s'] by (simp add: got_Nil)

lemma got_after: "got peer blk s ns s1 \<Longrightarrow> same_session s s1 \<Longrightarrow> same_session s1 s' \<Longrightarrow> got peer blk s ns s'"
  using got_trans [of peer blk s ns s1 "[]" s'] by (simp add: got_Nil)

fun numbered :: "int \<Rightarrow> bytes list \<Rightarrow> (int \<times> bytes) list" where
  "numbered n [] = []"
| "numbered n (b # bs) = (n, b) # numbered (n + 1) bs"

lemma numbered_append [simp]:
  "numbered n (xs @ ys) = numbered n xs @ numbered (n + int (length xs)) ys"
  by (induction xs arbitrary: n) (simp_all add: add.assoc)

section \<open>Frames\<close>

text \<open>Only the writer's file changes; \<open>x\<close> is what the peer is sent.\<close>

definition files_only :: "'b world_scheme \<Rightarrow> 'b world_scheme \<Rightarrow> bool" where
  "files_only s s' \<longleftrightarrow> canonical_of (fsys s') = canonical_of (fsys s)
     \<and> w_filepath (the_writer s') = w_filepath (the_writer s)
     \<and> (\<forall>p. p \<noteq> canonical_of (fsys s) (w_filepath (the_writer s)) \<longrightarrow>
           nodes (fsys s') p = nodes (fsys s) p)"

definition peer_frame ::
  "sockaddr \<Rightarrow> 'b udp_client_scheme \<Rightarrow> bytes list \<Rightarrow> 'b udp_client_scheme \<Rightarrow> bool" where
  "peer_frame peer s x s' \<longleftrightarrow> same_session s s' \<and> files_only s s'
     \<and> sent_to peer (outbox s') = sent_to peer (outbox s) @ x"

lemma peer_frame_refl [simp]: "peer_frame peer s [] s"
  by (simp add: peer_frame_def files_only_def)

lemma peer_frame_trans:
  "peer_frame peer s x s1 \<Longrightarrow> peer_frame peer s1 y s' \<Longrightarrow> peer_frame peer s (x @ y) s'"
  using same_session_trans [of s s1 s'] by (simp add: peer_frame_def files_only_def)

lemma quiet_peer_frame: "quiet peer s s' \<Longrightarrow> peer_frame peer s [] s'"
  by (simp add: quiet_def peer_frame_def files_only_def)

lemma peer_frame_quiet:
  "peer_frame peer s x s1 \<Longrightarrow> quiet peer s1 s2 \<Longrightarrow> peer_frame peer s x s2"
  using peer_frame_trans [of peer s x s1 "[]" s2] quiet_peer_frame [of peer s1 s2] by simp

lemma peer_frame_udp [simp]:
  "peer_frame peer s x (s'\<lparr>udp_timeout := t, so_rcvtimeo := u\<rparr>) \<longleftrightarrow> peer_frame peer s x s'"
  "peer_frame peer s x (s'\<lparr>loads := n\<rparr>) \<longleftrightarrow> peer_frame peer s x s'"
  by (simp_all add: peer_frame_def files_only_def)

lemma peer_frame_send: "peer_frame peer s [d] (s\<lparr>outbox := outbox s @ [(peer, d)]\<rparr>)"
  by (simp add: peer_frame_def files_only_def)

lemma peer_frame_session: "peer_frame peer s x s' \<Longrightarrow> same_session s s'"
  by (simp add: peer_frame_def)

lemma writer_holds_quiet: "quiet p s s' \<Longrightarrow> writer_holds s' c = writer_holds s c"
  by (simp only: writer_holds_def quiet_def)

lemma writer_holds_udp [simp]:
  "writer_holds (s\<lparr>udp_timeout := t, so_rcvtimeo := u\<rparr>) c \<longleftrightarrow> writer_holds s c"
  "writer_holds (s\<lparr>outbox := out\<rparr>) c \<longleftrightarrow> writer_holds s c"
  "writer_holds (s\<lparr>loads := n\<rparr>) c \<longleftrightarrow> writer_holds s c"
  by (simp_all add: writer_holds_def)

lemma wlp_write_block:
  assumes "writer_holds s c"
  shows "wlp (write_block d) (\<lambda>r s'. peer_frame peer s [] s' \<and> inbox s' = inbox s \<and> (case r of
       Inr _ \<Rightarrow> writer_holds s' (c @ d) \<and> w_open (the_writer s') | Inl e \<Rightarrow> \<not> waitable e)) s"
proof -
  have f: "peer_frame peer s [] s' \<and> inbox s' = inbox s" if sf: "sink_frame s s'" for s'
  proof -
    have eq: "s' = s\<lparr>fsys := fsys s', the_writer := the_writer s'\<rparr>" and fo: "files_only s s'"
      using sf unfolding sink_frame_def files_only_def by blast+
    have "udp_client.more s' = udp_client.more s" "maxPacketSize s' = maxPacketSize s"
      "uninit s' = uninit s" "std_in s' = std_in s" "inbox s' = inbox s" "outbox s' = outbox s"
      by (subst eq; simp)+
    with fo show ?thesis by (simp add: peer_frame_def same_session_def)
  qed
  show ?thesis
    unfolding write_block_def wlp_try_catch
  proof (rule wlp_mono [OF wlp_conj [OF octet_sink.write_block [OF assms] wlp_Writer_WriteFile_open]],
      goal_cases)
    case (1 r s')
    then have "peer_frame peer s [] s' \<and> inbox s' = inbox s" using f by blast
    moreover have "\<exists>g. e = Raise (FailedToOpenFileException g) \<or> e = Raise FailedToWriteToFileException"
      if "r = Inl e" for e using 1 that by (simp add: write_error_def)
    ultimately show ?case using 1 by (cases r) auto
  qed
qed

lemma wlp_Writer_dtor:
  "wlp Writer_dtor (\<lambda>r s'. r = Inr () \<and> peer_frame peer s [] s' \<and> inbox s' = inbox s
     \<and> outbox s' = outbox s
     \<and> (w_tbw_later_buffer (the_writer s) = [] \<longrightarrow> fsys s' = fsys s)) s"
  by (auto simp: Writer_dtor_def wlp_writer_put peer_frame_def files_only_def nodes_append_file_other)

section \<open>Waiting for one block\<close>

text \<open>
  A round that answers with \<open>reply\<close>: it ends the wait with block \<open>n\<close> written, goes on, or
  stops. \<open>farewell\<close> is the ERROR packet of an interruption.
\<close>

definition heard_block ::
  "sockaddr \<Rightarrow> int \<Rightarrow> 'b udp_client_scheme \<Rightarrow> bytes list \<Rightarrow> bytes \<Rightarrow> int \<Rightarrow> bool \<Rightarrow> bool \<Rightarrow>
   'b udp_client_scheme \<Rightarrow> bool" where
  "heard_block peer blk s replies c n fin fin' s' \<longleftrightarrow> peer_frame peer s replies s' \<and> (\<exists>d.
     got peer blk s [(n, d)] s' \<and> writer_holds s' (c @ d)
     \<and> w_open (the_writer s') \<and> int (length d) \<le> blk \<and> fin' = (fin \<or> int (length d) < blk))"

definition still_waiting ::
  "sockaddr \<Rightarrow> 'b udp_client_scheme \<Rightarrow> bytes list \<Rightarrow> bytes \<Rightarrow> 'b udp_client_scheme \<Rightarrow> bool" where
  "still_waiting peer s replies c s' \<longleftrightarrow> peer_frame peer s replies s' \<and> writer_holds s' c
     \<and> w_open (the_writer s') = w_open (the_writer s)"

definition stopped ::
  "sockaddr \<Rightarrow> bytes \<Rightarrow> 'b udp_client_scheme \<Rightarrow> bytes list \<Rightarrow> stop \<Rightarrow> 'b udp_client_scheme \<Rightarrow> bool"
  where
  "stopped peer farewell s replies e s' \<longleftrightarrow> peer_frame peer s replies s'
     \<or> interrupted e \<and> peer_frame peer s (replies @ [farewell]) s'"

definition block_reply :: "int \<Rightarrow> bytes" where
  "block_reply n = AckPacket_MakeRaw (AckPacket (word_of_int n))"

text \<open>What the rounds do with a block of the expected number.\<close>

lemma write_block_heard:
  assumes w: "writer_holds s2 c" and f: "peer_frame peer s replies s2"
    and rc: "received peer s1 b s2" "DataPacket_ctor_raw b blk = Inr p"
    and s1: "same_session s s1"
    and blk: "0 < blk" "blk < 2 ^ 32"
  shows "wlp (write_block (dp_data p)) (\<lambda>r s'. inbox s' = inbox s2 \<and> (case r of
       Inr _ \<Rightarrow> heard_block peer blk s replies c (uint (dp_block_number p)) fin
                (fin \<or> int (length (dp_data p)) < blk) s'
     | Inl e \<Rightarrow> stopped peer farewell s replies e s' \<and> \<not> waitable e)) s2"
proof (rule wlp_mono [OF wlp_write_block [OF w, where peer = peer]], goal_cases)
  case (1 r s')
  then have fr: "peer_frame peer s replies s'" using peer_frame_trans [OF f, of "[]" s'] by simp
  have "length (dp_data p) \<le> nat blk"
    using DataPacket_ctor_raw_length [OF rc(2)] blk by simp
  moreover have "got peer blk s [(uint (dp_block_number p), dp_data p)] s'"
  proof (rule got_after [OF got_before [OF s1 received_got [OF rc]]])
    show "same_session s s2" using f by (rule peer_frame_session)
    show "same_session s2 s'" using 1 by (simp add: peer_frame_def)
  qed
  ultimately show ?case
    using 1 fr blk
    by (cases r) (auto simp: heard_block_def stopped_def intro!: exI [of _ "dp_data p"])
qed

lemma write_block_any:
  "wlp (write_block d) (\<lambda>r s'. inbox s' = inbox s \<and> (case r of Inl e \<Rightarrow> \<not> waitable e | Inr _ \<Rightarrow> True)) s"
  by (cases "w_open (the_writer s)")
    (auto simp: write_block_def Writer_WriteFile_def wlp_writer_put Let_def
      split: option.splits sum.splits)

text \<open>
  Consumption of the inbox, from any state: a round takes an event unless it stops.
\<close>

lemma round_consumes:
  assumes k: "\<And>b s'. wlp (k b) (\<lambda>r s''. (case r of Inl _ \<Rightarrow> True | Inr _ \<Rightarrow> length (inbox s'') \<le> length (inbox s'))
      \<and> unhandled r) s'"
    and to: "\<And>s'. wlp to (\<lambda>r s''. case r of Inl _ \<Rightarrow> True | Inr _ \<Rightarrow> length (inbox s'') \<le> length (inbox s')) s'"
    and si: "\<And>s'. sigint_set s' \<Longrightarrow> wlp si (\<lambda>r s''. \<exists>e. r = Inl e) s'"
  shows "wlp (try_catch (bnd (RecievePacketFrom peer) k) (catch_wait to si))
    (\<lambda>r s'. case r of Inl e \<Rightarrow> True | Inr a' \<Rightarrow> length (inbox s') < length (inbox s)) s"
proof (rule wlp_wait, goal_cases)
  case (1 b s1)
  show ?case
    using received_length [OF 1] by (intro wlp_mono [OF k]) (auto split: sum.splits)
next
  case (2 s1)
  then show ?case by (intro wlp_mono [OF to]) (auto split: sum.splits)
next
  case (3 s1)
  then show ?case by (intro wlp_mono [OF si]) auto
qed simp

section \<open>The transfer\<close>

text \<open>
  The invariant: the blocks \<open>bs\<close> have been received in order and written, and \<open>ns\<close> are the block
  numbers acknowledged so far, 0 standing for the first answer. A greeting is the least number that
  is certainly acknowledged, and the bytes of the first answer: the server answers the request
  before the first block, the client need not.
\<close>

type_synonym greeting = "nat \<times> bytes"

definition reply_of :: "greeting \<Rightarrow> nat \<Rightarrow> bytes" where
  "reply_of first n = (if n = 0 then snd first else block_reply (int n))"

text \<open>The numbers never go back, and all those below \<open>k\<close>, from \<open>l\<close> on, are among them.\<close>

definition acks_upto :: "nat \<Rightarrow> nat \<Rightarrow> nat list \<Rightarrow> bool" where
  "acks_upto l k ns \<longleftrightarrow> sorted ns \<and> (\<forall>n \<in> set ns. n \<le> k) \<and> {l..<k} \<subseteq> set ns"

lemma acks_upto_simps [simp]:
  "acks_upto l 0 []"
  "acks_upto l k (ns @ [k]) \<longleftrightarrow> acks_upto l k ns"
  by (auto simp: acks_upto_def sorted_append)

lemma acks_upto_all: "acks_upto l k ns \<Longrightarrow> k \<in> set ns \<Longrightarrow> {l..k} \<subseteq> set ns"
  by (auto simp: acks_upto_def order.order_iff_strict)

lemma acks_upto_const: "set ms \<subseteq> {k} \<Longrightarrow> acks_upto l k (ns @ ms) \<longleftrightarrow> acks_upto l k ns"
proof -
  assume "set ms \<subseteq> {k}"
  then have "ms = replicate (length ms) k" by (intro replicate_eqI) auto
  then have "sorted ms" by (metis sorted_replicate)
  with \<open>set ms \<subseteq> {k}\<close> show ?thesis by (fastforce simp: acks_upto_def sorted_append)
qed

lemma acks_upto_Suc: "acks_upto l k ns \<Longrightarrow> k < l \<or> k \<in> set ns \<Longrightarrow> acks_upto l (Suc k) ns"
  by (auto simp: acks_upto_def less_Suc_eq)

definition recv_inv :: "sockaddr \<Rightarrow> int \<Rightarrow>
  'b udp_client_scheme \<Rightarrow> greeting \<Rightarrow> bytes list \<Rightarrow> nat list \<Rightarrow> 'b udp_client_scheme \<Rightarrow> bool" where
  "recv_inv peer blk s first bs ns s' \<longleftrightarrow> peer_frame peer s (map (reply_of first) ns) s'
     \<and> writer_holds s' (concat bs) \<and> (bs \<noteq> [] \<longrightarrow> w_open (the_writer s')) \<and> acks_upto (fst first) (length bs) ns
     \<and> got peer blk s (numbered 1 bs) s'"

definition recv_stopped :: "sockaddr \<Rightarrow> int \<Rightarrow> bytes \<Rightarrow>
  'b udp_client_scheme \<Rightarrow> greeting \<Rightarrow> stop \<Rightarrow> 'b udp_client_scheme \<Rightarrow> bool" where
  "recv_stopped peer blk farewell s first e s' \<longleftrightarrow> (\<exists>bs ns extra.
     peer_frame peer s (map (reply_of first) ns @ extra) s' \<and> acks_upto (fst first) (length bs) ns
     \<and> got peer blk s (numbered 1 bs) s'
     \<and> (extra = [] \<or> interrupted e \<and> extra = [farewell]))"

text \<open>The last block, and only the last one, is short.\<close>

definition shape :: "int \<Rightarrow> bool \<Rightarrow> bytes list \<Rightarrow> bool" where
  "shape blk fin bs \<longleftrightarrow> (if fin
     then bs \<noteq> [] \<and> (\<forall>b \<in> set (butlast bs). int (length b) = blk) \<and> int (length (last bs)) < blk
     else \<forall>b \<in> set bs. int (length b) = blk)"

lemma shape_snoc:
  "shape blk False bs \<Longrightarrow> int (length d) \<le> blk \<Longrightarrow> shape blk (int (length d) < blk) (bs @ [d])"
  by (auto simp: shape_def)

lemma shape_blocks:
  assumes "0 < blk" "shape blk True bs"
  shows "blocks (nat blk) (concat bs) = bs"
proof -
  have bs: "bs = butlast bs @ [last bs]" using assms(2) by (simp add: shape_def)
  have "blocks (nat blk) (concat (butlast bs) @ last bs) = butlast bs @ [last bs]"
    by (rule blocks_concat) (use assms in \<open>auto simp: shape_def\<close>)
  moreover have "concat (butlast bs) @ last bs = concat bs" by (subst (3) bs) simp
  ultimately show ?thesis using bs by simp
qed

lemma recv_inv_still:
  assumes "recv_inv peer blk s first bs ns s1"
    "still_waiting peer s1 (map (reply_of first) ms) (concat bs) s'" "set ms \<subseteq> {length bs}"
  shows "recv_inv peer blk s first bs (ns @ ms) s'"
proof -
  have f: "peer_frame peer s (map (reply_of first) ns) s1" "same_session s s1"
    using assms(1) by (simp_all add: recv_inv_def peer_frame_def)
  have "acks_upto (fst first) (length bs) (ns @ ms)"
    using assms(1,3) acks_upto_const [of ms "length bs"] by (simp add: recv_inv_def)
  then show ?thesis
    using assms(1,2) peer_frame_trans [OF f(1)] got_after [OF _ f(2)]
    by (auto simp: recv_inv_def still_waiting_def peer_frame_def)
qed

lemma recv_inv_heard:
  assumes "recv_inv peer blk s first bs ns s1"
    "heard_block peer blk s1 (map (reply_of first) ms) (concat bs) (int (length bs) + 1) False fin s'"
    "set ms \<subseteq> {length bs}" "length bs < fst first \<or> ms \<noteq> []"
  shows "\<exists>d. recv_inv peer blk s first (bs @ [d]) (ns @ ms) s'
    \<and> int (length d) \<le> blk \<and> fin = (int (length d) < blk)"
proof -
  have f: "peer_frame peer s (map (reply_of first) ns) s1" "same_session s s1"
    using assms(1) by (simp_all add: recv_inv_def peer_frame_def)
  have "acks_upto (fst first) (Suc (length bs)) (ns @ ms)"
  proof (rule acks_upto_Suc)
    show "acks_upto (fst first) (length bs) (ns @ ms)"
      using assms(1,3) acks_upto_const [of ms "length bs"] by (simp add: recv_inv_def)
    show "length bs < fst first \<or> length bs \<in> set (ns @ ms)" using assms(3,4) by (cases ms) auto
  qed
  moreover obtain d where d: "got peer blk s1 [(int (length bs) + 1, d)] s'"
    "writer_holds s' (concat bs @ d)" "w_open (the_writer s')" "int (length d) \<le> blk"
    "fin = (int (length d) < blk)"
    using assms(2) by (auto simp: heard_block_def)
  moreover have "peer_frame peer s (map (reply_of first) (ns @ ms)) s'"
    using assms(2) peer_frame_trans [OF f(1), of "map (reply_of first) ms" s']
    by (simp add: heard_block_def)
  moreover have "got peer blk s (numbered 1 (bs @ [d])) s'"
    using got_trans [OF _ f(2) d(1)] assms(1) by (simp add: recv_inv_def add.commute)
  ultimately show ?thesis by (intro exI [of _ d]) (simp add: recv_inv_def)
qed

lemma recv_inv_stopped:
  assumes "recv_inv peer blk s first bs ns s1"
    "stopped peer farewell s1 (map (reply_of first) ms) e s'" "set ms \<subseteq> {length bs}"
  shows "recv_stopped peer blk farewell s first e s'"
proof -
  have f: "peer_frame peer s (map (reply_of first) ns) s1" "same_session s s1"
    using assms(1) by (simp_all add: recv_inv_def peer_frame_def)
  have ses: "same_session s1 s'" using assms(2) by (auto simp: stopped_def peer_frame_def)
  have a: "acks_upto (fst first) (length bs) (ns @ ms)"
    using assms(1,3) acks_upto_const [of ms "length bs"] by (simp add: recv_inv_def)
  obtain x where x: "peer_frame peer s1 (map (reply_of first) ms @ x) s'"
    "x = [] \<or> interrupted e \<and> x = [farewell]"
    using assms(2) unfolding stopped_def by (metis append_Nil2)
  show ?thesis
    unfolding recv_stopped_def
    using assms(1) peer_frame_trans [OF f(1) x(1)] x(2) got_after [OF _ f(2) ses] a
    by (intro exI [of _ bs] exI [of _ "ns @ ms"] exI [of _ x]) (simp add: recv_inv_def)
qed

lemma recv_inv_stop: "recv_inv peer blk s first bs ns s1 \<Longrightarrow> recv_stopped peer blk farewell s first e s1"
  unfolding recv_inv_def recv_stopped_def
  by (intro exI [of _ bs] exI [of _ ns] exI [of _ "[]"]) simp

lemma recv_inv_start: "writer_holds s [] \<Longrightarrow> recv_inv peer blk s first [] [] s"
  by (simp add: recv_inv_def got_Nil)

lemma recv_inv_fields:
  "recv_inv peer blk s first bs ns s1 \<Longrightarrow> same_session s s1 \<and> writer_holds s1 (concat bs)"
  by (auto simp: recv_inv_def peer_frame_def)

lemma recv_inv_udp [simp]:
  "recv_inv peer blk s first bs ns (s'\<lparr>udp_timeout := t, so_rcvtimeo := u\<rparr>) \<longleftrightarrow>
     recv_inv peer blk s first bs ns s'"
  "recv_inv peer blk s first bs ns (s'\<lparr>loads := n\<rparr>) \<longleftrightarrow> recv_inv peer blk s first bs ns s'"
  by (simp_all add: recv_inv_def got_def)

text \<open>The state of one wait: still for the block after \<open>bs\<close>, or over with it.\<close>

definition wait_inv :: "sockaddr \<Rightarrow> int \<Rightarrow>
  'b udp_client_scheme \<Rightarrow> greeting \<Rightarrow> bytes list \<Rightarrow> bool \<Rightarrow> bool \<Rightarrow> 'b udp_client_scheme \<Rightarrow> bool" where
  "wait_inv peer blk s first bs a fin s' \<longleftrightarrow> (if a
     then \<exists>d ns. recv_inv peer blk s first (bs @ [d]) ns s' \<and> int (length d) \<le> blk
            \<and> fin = (int (length d) < blk)
     else \<not> fin \<and> (\<exists>ns. recv_inv peer blk s first bs ns s'))"

text \<open>A wait that is over, and did not run out of retries, has the next block.\<close>

lemma wait_over:
  assumes "wait_inv peer blk s first bs a fin s'" "shape blk False bs" "a"
  shows "\<exists>bs' ns. recv_inv peer blk s first bs' ns s' \<and> length bs' = Suc (length bs) \<and> shape blk fin bs'"
proof -
  obtain d ns where d: "recv_inv peer blk s first (bs @ [d]) ns s'" "int (length d) \<le> blk"
    "fin = (int (length d) < blk)"
    using assms(1,3) by (auto simp: wait_inv_def)
  show ?thesis
    using d shape_snoc [OF assms(2) d(2)]
    by (intro exI [of _ "bs @ [d]"] exI [of _ ns]) simp
qed

lemma wait_timeout: "wait_inv peer blk s first bs a fin s' \<Longrightarrow> recv_stopped peer blk farewell s first e s'"
  by (auto simp: wait_inv_def dest: recv_inv_stop split: if_splits)

definition transfer_inv :: "sockaddr \<Rightarrow> int \<Rightarrow>
  'b udp_client_scheme \<Rightarrow> greeting \<Rightarrow> int \<times> bool \<Rightarrow> 'b udp_client_scheme \<Rightarrow> bool" where
  "transfer_inv peer blk s first = (\<lambda>(bn, fin) s'. \<exists>bs ns. recv_inv peer blk s first bs ns s'
     \<and> bs \<noteq> [] \<and> bn = int (length bs) \<and> shape blk fin bs)"

text \<open>The result of the transfer.\<close>

definition whole_result :: "sockaddr \<Rightarrow> int \<Rightarrow> bytes \<Rightarrow>
  'b udp_client_scheme \<Rightarrow> greeting \<Rightarrow> unit outcome \<Rightarrow> 'b udp_client_scheme \<Rightarrow> bool" where
  "whole_result peer blk farewell s first r s' = (case r of
     Inl e \<Rightarrow> recv_stopped peer blk farewell s first e s'
   | Inr _ \<Rightarrow> \<exists>bs ns. recv_inv peer blk s first bs (ns @ [length bs]) s' \<and> shape blk True bs)"

lemma send_last_ack:
  assumes "recv_inv peer blk s first bs ns s1" "bs \<noteq> []"
  shows "recv_inv peer blk s first bs (ns @ [length bs])
    (s1\<lparr>outbox := outbox s1 @ [(peer, block_reply (int (length bs)))]\<rparr>)"
proof (rule recv_inv_still [OF assms(1)])
  show "still_waiting peer s1 (map (reply_of first) [length bs]) (concat bs)
      (s1\<lparr>outbox := outbox s1 @ [(peer, block_reply (int (length bs)))]\<rparr>)"
    using peer_frame_send [of peer s1] recv_inv_fields [OF assms(1)] assms(2)
    by (simp add: still_waiting_def reply_of_def)
qed simp

lemma transfer_done:
  assumes "transfer_inv peer blk s first (bn, True) s1"
  shows "whole_result peer blk farewell s first (Inr ())
    (s1\<lparr>outbox := outbox s1 @ [(peer, block_reply bn)]\<rparr>)"
proof -
  obtain bs ns where "recv_inv peer blk s first bs ns s1" "bs \<noteq> []" "bn = int (length bs)"
    "shape blk True bs" using assms by (auto simp: transfer_inv_def)
  with send_last_ack [of peer blk s first bs ns s1] show ?thesis
    unfolding whole_result_def sum.case by blast
qed

end
