(* ===== verification/WriteRequest.thy ===== *)
theory WriteRequest
  imports SessionLemmas Receiving
begin

text \<open>
  What the server's write requests guarantee: the file holds the DATA blocks 1, 2, .. of the
  client in this order, each written once, however the network reorders, repeats or loses
  packets; only blocks that have been written are acknowledged, and the acknowledgements never
  go back; no file but the one named by the request is touched; the waiting loops return.
  The invariants of the transfer are those of theory \<open>Receiving\<close>.
\<close>

section \<open>Waiting for one block\<close>

lemma peer_frame_fields:
  "peer_frame peer s x s' \<Longrightarrow> client s' = client s \<and> blksize s' = blksize s"
  using same_session_fields [of s s'] by (simp add: peer_frame_def)

lemma recv_inv_client:
  "recv_inv peer blk s first bs ns s1 \<Longrightarrow> client s1 = client s \<and> blksize s1 = blksize s"
  using recv_inv_fields same_session_fields by blast

lemma wlp_CheckForSigintWRQ_frame:
  assumes "sigint_set s" "peer = client s"
  shows "wlp CheckForSigintWRQ
    (\<lambda>r s'. \<exists>e. r = Inl e \<and> interrupted e \<and> peer_frame peer s [interrupted_raw] s') s"
  using assms
  by (auto simp: CheckForSigintWRQ_def Writer_dtor_def wlp_writer_put peer_frame_def files_only_def
      interrupted_def interrupted_raw_def nodes_append_file_other
      dest: DeleteFile_Inl DeleteFile_nodes DeleteFile_static split: sum.splits)

text \<open>The states after the reply of a round.\<close>

lemma quiet_after_reply:
  assumes "writer_holds s c" "quiet (client s) (s\<lparr>outbox := outbox s @ [(client s, reply)]\<rparr>) s2"
  shows "peer_frame (client s) s [reply] s2 \<and> writer_holds s2 c \<and> blksize s2 = blksize s
    \<and> client s2 = client s \<and> w_open (the_writer s2) = w_open (the_writer s)"
  using peer_frame_quiet [OF peer_frame_send assms(2)] assms
  by (simp add: writer_holds_quiet [OF assms(2)] quiet_fields)

lemma next_round_spec:
  assumes w: "writer_holds s c" and blk: "0 < blksize s" "blksize s < 2 ^ 32"
  shows "wlp (next_round (False, n, bn, fin)) (\<lambda>r s'. case r of
      Inl e \<Rightarrow> stopped (client s) interrupted_raw s [block_reply bn] e s'
    | Inr (a, n', bn', fin') \<Rightarrow> length (inbox s') < length (inbox s) \<and>
        (if a then n' = n \<and> bn' = bn + 1 \<and> heard_block (client s) (blksize s) s [block_reply bn] c (bn + 1) fin fin' s'
         else n' \<le> n + 1 \<and> bn' = bn \<and> fin' = fin \<and> still_waiting (client s) s [block_reply bn] c s')) s"
proof -
  let ?s1 = "s\<lparr>outbox := outbox s @ [(client s, block_reply bn)]\<rparr>"
  note q = quiet_after_reply [OF w, of "block_reply bn"]
  show ?thesis
    unfolding next_round_def prod.case try_catch_seq wlp_send_to_client block_reply_def [symmetric] sum.case
  proof (rule wlp_wait_client, rule wlp_wait, goal_cases)
    case (1 b s2)
    then have 2: "received (client s) ?s1 b s2" by simp
    then have l: "length (inbox s2) < length (inbox s)"
      and qu: "peer_frame (client s) s [block_reply bn] s2" "writer_holds s2 c" "blksize s2 = blksize s"
        "w_open (the_writer s2) = w_open (the_writer s)"
      using received_length [OF 2] q [OF received_quiet [OF 2]] by simp_all
    show ?case
      using qu l
      by (auto simp: stopped_def still_waiting_def ctor_not_waitable
          intro!: wlp_mono [OF wlp_throw_error_packet]
            wlp_mono [OF write_block_heard [OF qu(2,1) 2 _ _ blk, where fin = fin]]
          split: sum.splits)
  next
    case (2 s2)
    then show ?case using q [of s2] by (auto simp: stopped_def still_waiting_def)
  next
    case (3 s2)
    then show ?case
      using q [of s2] wlp_CheckForSigintWRQ_frame [of s2 "client s"]
      by (auto simp: stopped_def elim!: wlp_mono dest: peer_frame_trans)
  next
    case (4 e s2)
    then show ?case using q [of s2] by (simp add: stopped_def)
  qed
qed

text \<open>The answer to the request: the OACK, or the ACK of block 0.\<close>

definition first_reply :: "bool \<Rightarrow> tftp_option list \<Rightarrow> bytes \<Rightarrow> bool" where
  "first_reply has_options negs reply \<longleftrightarrow>
     (if has_options then OackPacket_MakeRaw (OackPacket negs) = Inr reply else reply = block_reply 0)"

lemma wlp_first_reply:
  "first_reply ho negs reply \<Longrightarrow>
   wlp (if ho then send_oack negs else send_to_client (AckPacket_MakeRaw (AckPacket 0))) Q s =
   Q (Inr ()) (s\<lparr>outbox := outbox s @ [(client s, reply)]\<rparr>)"
  by (simp add: first_reply_def send_oack_def block_reply_def)

lemma first_round_spec:
  assumes w: "writer_holds s c" and blk: "0 < blksize s" "blksize s < 2 ^ 32"
    and reply: "first_reply ho negs reply"
  shows "wlp (first_round ho negs (False, n, fin)) (\<lambda>r s'. case r of
      Inl e \<Rightarrow> stopped (client s) interrupted_raw s [reply] e s'
    | Inr (a, n', fin') \<Rightarrow> length (inbox s') < length (inbox s) \<and>
        (if a then n' = n \<and> heard_block (client s) (blksize s) s [reply] c 1 fin fin' s'
         else n' \<le> n + 1 \<and> fin' = fin \<and> still_waiting (client s) s [reply] c s')) s"
proof -
  let ?s1 = "s\<lparr>outbox := outbox s @ [(client s, reply)]\<rparr>"
  note q = quiet_after_reply [OF w, of "reply"]
  show ?thesis
    unfolding first_round_def prod.case try_catch_seq wlp_first_reply [OF reply] sum.case
  proof (rule wlp_wait_client, rule wlp_wait, goal_cases)
    case (1 b s2)
    then have 2: "received (client s) ?s1 b s2" by simp
    then have l: "length (inbox s2) < length (inbox s)"
      and qu: "peer_frame (client s) s [reply] s2" "writer_holds s2 c" "blksize s2 = blksize s"
        "w_open (the_writer s2) = w_open (the_writer s)"
      using received_length [OF 2] q [OF received_quiet [OF 2]] by simp_all
    show ?case
      using qu l
      by (auto simp: stopped_def still_waiting_def ctor_not_waitable
          intro!: wlp_mono [OF wlp_throw_error_packet]
            wlp_mono [OF write_block_heard [OF qu(2,1) 2 _ _ blk, where fin = fin]]
          split: sum.splits)
  next
    case (2 s2)
    then show ?case using q [of s2] by (auto simp: stopped_def still_waiting_def)
  next
    case (3 s2)
    then show ?case
      using q [of s2] wlp_CheckForSigintWRQ_frame [of s2 "client s"]
      by (auto simp: stopped_def elim!: wlp_mono dest: peer_frame_trans)
  next
    case (4 e s2)
    then show ?case using q [of s2] by (simp add: stopped_def)
  qed
qed

section \<open>The waiting loops\<close>

lemma returns_next_round [simp, returns_rules]: "returns (next_round a) s"
  unfolding next_round_def
  by (cases a; simp only: prod.case; intro round_returns; simp)

lemma returns_first_round [simp, returns_rules]: "returns (first_round ho negs a) s"
  unfolding first_round_def
  by (cases a; simp only: prod.case; intro round_returns; simp)

lemma round_consumes_client:
  assumes "\<And>b s'. wlp (k b) (\<lambda>r s''. (case r of Inl _ \<Rightarrow> True | Inr _ \<Rightarrow> length (inbox s'') \<le> length (inbox s'))
      \<and> unhandled r) s'"
    and "\<And>s'. wlp to (\<lambda>r s''. case r of Inl _ \<Rightarrow> True | Inr _ \<Rightarrow> length (inbox s'') \<le> length (inbox s')) s'"
    and "\<And>s'. sigint_set s' \<Longrightarrow> wlp si (\<lambda>r s''. \<exists>e. r = Inl e) s'"
  shows "wlp (try_catch (bnd RecievePacketFromClient k) (catch_wait to si))
    (\<lambda>r s'. case r of Inl e \<Rightarrow> True | Inr a' \<Rightarrow> length (inbox s') < length (inbox s)) s"
  by (rule wlp_wait_client, rule round_consumes [OF assms])

lemma next_round_consumes:
  "wlp (next_round a) (\<lambda>r s'. case r of Inl e \<Rightarrow> True
     | Inr a' \<Rightarrow> length (inbox s') < length (inbox s)) s"
proof -
  obtain b n bn fin where a: "a = (b, n, bn, fin)" by (cases a) auto
  show ?thesis
    unfolding next_round_def a prod.case try_catch_seq wlp_send_to_client sum.case
    by (rule wlp_mono [OF round_consumes_client])
      (auto simp: ctor_not_waitable intro!: wlp_mono [OF wlp_throw_error_packet]
        wlp_mono [OF write_block_any] wlp_mono [OF wlp_CheckForSigintWRQ] split: sum.splits)
qed

lemma first_round_consumes:
  "wlp (first_round ho negs a) (\<lambda>r s'. case r of Inl e \<Rightarrow> True
     | Inr a' \<Rightarrow> length (inbox s') < length (inbox s)) s"
proof -
  obtain b n fin where a: "a = (b, n, fin)" by (cases a) auto
  have k: "wlp (if ho then send_oack negs else send_to_client (AckPacket_MakeRaw (AckPacket 0)))
      (\<lambda>r s'. inbox s' = inbox s \<and> (case r of Inl e \<Rightarrow> \<not> waitable e | Inr _ \<Rightarrow> True)) s"
  proof -
    have "e = UnsupportedOptionException" if "OackPacket_MakeRaw (OackPacket negs) = Inl e" for e
    proof -
      have "options_MakeRaw opts = Inl e \<Longrightarrow> e = UnsupportedOptionException" for opts
        by (induction opts) (auto split: sum.splits opt_name.splits)
      with that show ?thesis by (auto simp: OackPacket_MakeRaw_def OackPacket_def split: sum.splits)
    qed
    then show ?thesis by (auto simp: send_oack_def waitable_def split: sum.splits)
  qed
  show ?thesis
    unfolding first_round_def a prod.case try_catch_seq
  proof (rule wlp_mono [OF k], goal_cases)
    case (1 r s1)
    show ?case
    proof (cases r)
      case (Inl e)
      with 1 show ?thesis by (auto simp: waitable_def split: stop.splits)
    next
      case (Inr u)
      show ?thesis
        unfolding Inr sum.case
        by (rule wlp_mono [OF round_consumes_client])
          (use 1 in \<open>auto simp: ctor_not_waitable intro!: wlp_mono [OF wlp_throw_error_packet]
            wlp_mono [OF write_block_any] wlp_mono [OF wlp_CheckForSigintWRQ] split: sum.splits\<close>)
    qed
  qed
qed

interpretation next_loop: consuming_loop next_guard next_round
  by unfold_locales (simp_all add: next_round_consumes)

interpretation first_loop: consuming_loop first_guard "first_round ho negs" for ho negs
  by unfold_locales (simp_all add: first_round_consumes)

interpretation receive_loop: consuming_loop receive_guard receive_round
proof unfold_locales
  fix a s assume "receive_guard a"
  then obtain bn fin where a: "a = (bn, fin)" by (cases a)
  show "returns (receive_round a) s"
    unfolding receive_round_def a prod.case
    by (intro returns_intros) (simp_all add: next_loop.loop_returns)
  have c: "wlp (while_m next_guard next_round (False, 0, bn, fin)) (\<lambda>r s'. case r of Inl e \<Rightarrow> True
      | Inr a' \<Rightarrow> length (inbox s') < length (inbox s)) s"
    by (rule wlp_mono [OF next_loop.loop_inbox])
      (simp add: next_guard_def MAX_RETRIES_def split: sum.splits)
  show "wlp (receive_round a) (\<lambda>r s'. case r of Inl e \<Rightarrow> True
      | Inr a' \<Rightarrow> length (inbox s') < length (inbox s)) s"
    unfolding receive_round_def a prod.case wlp_bnd
    by (rule wlp_mono [OF c]) (auto split: sum.splits)
qed

lemma returns_receive_file [simp, returns_rules]: "returns (receive_file ho negs) s"
  unfolding receive_file_def
  by (intro returns_intros) (simp_all add: first_loop.loop_returns receive_loop.loop_returns)

section \<open>The receiving loops\<close>

definition next_inv ::
  "client_handler \<Rightarrow> greeting \<Rightarrow> bytes list \<Rightarrow> bool \<times> nat \<times> int \<times> bool \<Rightarrow> client_handler \<Rightarrow> bool" where
  "next_inv s first bs = (\<lambda>(a, n, bn, fin) s'. wait_inv (client s) (blksize s) s first bs a fin s' \<and>
     bn = int (length bs) + (if a then 1 else 0) \<and> (a \<longrightarrow> n < MAX_RETRIES))"

definition next_result :: "client_handler \<Rightarrow> greeting \<Rightarrow> bytes list \<Rightarrow>
    (bool \<times> nat \<times> int \<times> bool) outcome \<Rightarrow> client_handler \<Rightarrow> bool" where
  "next_result s first bs r s' = (case r of
     Inl e \<Rightarrow> recv_stopped (client s) (blksize s) interrupted_raw s first e s'
   | Inr x \<Rightarrow> next_inv s first bs x s' \<and> \<not> next_guard x)"

lemma next_loop_spec:
  assumes inv: "recv_inv (client s) (blksize s) s first bs ns s1" and bs: "bs \<noteq> []"
    and blk: "0 < blksize s" "blksize s < 2 ^ 32"
  shows "wlp (while_m next_guard next_round (False, 0, int (length bs), False)) (next_result s first bs) s1"
proof (rule wlp_while [where I = "next_inv s first bs"])
  show "next_inv s first bs (False, 0, int (length bs), False) s1"
    using inv by (auto simp: wait_inv_def next_inv_def)
next
  fix x s2
  assume I: "next_inv s first bs x s2" and g: "next_guard x"
  then obtain n ns2 where x: "x = (False, n, int (length bs), False)" and i: "recv_inv (client s) (blksize s) s first bs ns2 s2"
    and n: "n < MAX_RETRIES"
    by (cases x) (auto simp: wait_inv_def next_guard_def next_inv_def)
  note f = recv_inv_fields [OF i] recv_inv_client [OF i]
  have rep: "block_reply (int (length bs)) = reply_of first (length bs)"
    using bs by (simp add: reply_of_def)
  have w: "writer_holds s2 (concat bs)" "0 < blksize s2" "blksize s2 < 2 ^ 32"
    using f blk by simp_all
  show "wlp (next_round x) (\<lambda>r s'. case r of
      Inl e \<Rightarrow> next_result s first bs (Inl e) s' | Inr a' \<Rightarrow> next_inv s first bs a' s') s2"
    unfolding x
  proof (rule wlp_mono [OF next_round_spec [OF w]], goal_cases)
    case (1 r s')
    show ?case
    proof (cases r)
      case (Inl e)
      with 1 recv_inv_stopped [OF i, of interrupted_raw "[length bs]" e s'] show ?thesis by (simp add: next_result_def rep f)
    next
      case (Inr y)
      obtain a n' bn' fin' where y: "y = (a, n', bn', fin')" by (cases y) auto
      show ?thesis
      proof (cases a)
        case True
        with 1 n recv_inv_heard [OF i, of "[length bs]" fin' s'] show ?thesis
          by (auto simp: Inr y rep f next_inv_def wait_inv_def)
      next
        case False
        with 1 recv_inv_still [OF i, of "[length bs]" s'] show ?thesis
          by (auto simp: Inr y rep f next_inv_def wait_inv_def)
      qed
    qed
  qed
qed (simp add: next_result_def)

definition first_inv ::
  "client_handler \<Rightarrow> greeting \<Rightarrow> bool \<times> nat \<times> bool \<Rightarrow> client_handler \<Rightarrow> bool" where
  "first_inv s first = (\<lambda>(a, n, fin) s'. wait_inv (client s) (blksize s) s first [] a fin s' \<and> (a \<longrightarrow> n < MAX_RETRIES))"

definition first_result ::
  "client_handler \<Rightarrow> greeting \<Rightarrow> (bool \<times> nat \<times> bool) outcome \<Rightarrow> client_handler \<Rightarrow> bool" where
  "first_result s first r s' = (case r of
     Inl e \<Rightarrow> recv_stopped (client s) (blksize s) interrupted_raw s first e s'
   | Inr x \<Rightarrow> first_inv s first x s' \<and> \<not> first_guard x)"

lemma first_loop_spec:
  assumes w: "writer_holds s []" and blk: "0 < blksize s" "blksize s < 2 ^ 32"
    and reply: "first_reply ho negs (snd first)"
  shows "wlp (while_m first_guard (first_round ho negs) (False, 0, False)) (first_result s first) s"
proof (rule wlp_while [where I = "first_inv s first"])
  show "first_inv s first (False, 0, False) s"
    using recv_inv_start [OF w, where first = first] by (auto simp: wait_inv_def first_inv_def)
next
  fix x s2
  assume I: "first_inv s first x s2" and g: "first_guard x"
  then obtain n ns2 where x: "x = (False, n, False)" and i: "recv_inv (client s) (blksize s) s first [] ns2 s2"
    and n: "n < MAX_RETRIES"
    by (cases x) (auto simp: wait_inv_def first_guard_def first_inv_def)
  note f = recv_inv_fields [OF i] recv_inv_client [OF i]
  have rep: "reply_of first 0 = snd first" by (simp add: reply_of_def)
  have w: "writer_holds s2 (concat [])" "0 < blksize s2" "blksize s2 < 2 ^ 32"
    using f blk by simp_all
  show "wlp (first_round ho negs x) (\<lambda>r s'. case r of
      Inl e \<Rightarrow> first_result s first (Inl e) s' | Inr a' \<Rightarrow> first_inv s first a' s') s2"
    unfolding x
  proof (rule wlp_mono [OF first_round_spec [OF w reply]], goal_cases)
    case (1 r s')
    show ?case
    proof (cases r)
      case (Inl e)
      with 1 recv_inv_stopped [OF i, of interrupted_raw "[0]" e s'] show ?thesis
        by (simp add: first_result_def f rep)
    next
      case (Inr y)
      obtain a n' fin' where y: "y = (a, n', fin')" by (cases y) auto
      show ?thesis
      proof (cases a)
        case True
        with 1 n recv_inv_heard [OF i, of "[0]" fin' s'] show ?thesis
          by (auto simp: Inr y f rep first_inv_def wait_inv_def)
      next
        case False
        with 1 recv_inv_still [OF i, of "[0]" s'] show ?thesis
          by (auto simp: Inr y f rep first_inv_def wait_inv_def)
      qed
    qed
  qed
qed (simp add: first_result_def)

lemma receive_round_spec:
  assumes I: "transfer_inv (client s) (blksize s) s first (bn, False) s1" and blk: "0 < blksize s" "blksize s < 2 ^ 32"
  shows "wlp (receive_round (bn, False)) (\<lambda>r s'. case r of
      Inl e \<Rightarrow> recv_stopped (client s) (blksize s) interrupted_raw s first e s' | Inr a' \<Rightarrow> transfer_inv (client s) (blksize s) s first a' s') s1"
proof -
  obtain bs ns where b: "recv_inv (client s) (blksize s) s first bs ns s1" "bs \<noteq> []" "bn = int (length bs)"
    "shape (blksize s) False bs"
    using I by (auto simp: transfer_inv_def)
  show ?thesis
    unfolding receive_round_def prod.case wlp_bnd b(3)
  proof (rule wlp_mono [OF next_loop_spec [OF b(1,2) blk]], goal_cases)
    case (1 r s')
    show ?case
    proof (cases r)
      case (Inl e)
      with 1 show ?thesis by (simp add: next_result_def)
    next
      case (Inr y)
      obtain a n bn' fin where y: "y = (a, n, bn', fin)" by (cases y) auto
      have wi: "wait_inv (client s) (blksize s) s first bs a fin s'" "bn' = int (length bs) + (if a then 1 else 0)"
        "a \<or> n \<ge> MAX_RETRIES"
        using 1 by (simp_all add: Inr y next_result_def next_inv_def next_guard_def not_less)
      have "\<exists>bs' ns'. recv_inv (client s) (blksize s) s first bs' ns' s' \<and> bs' \<noteq> [] \<and> bn' = int (length bs')
          \<and> shape (blksize s) fin bs'" if "n < MAX_RETRIES"
        using wi that wait_over [OF wi(1) b(4)] by fastforce
      then show ?thesis
        using wait_timeout [OF wi(1)] by (auto simp: Inr y transfer_inv_def not_le)
    qed
  qed
qed

lemma transfer_inv_client: "transfer_inv peer blk s first x s' \<Longrightarrow> client s' = client s"
  by (cases x) (auto simp: transfer_inv_def dest: recv_inv_client)

lemma receive_file_spec:
  assumes w: "writer_holds s []" and blk: "0 < blksize s" "blksize s < 2 ^ 32"
    and reply: "first_reply ho negs (snd first)"
  shows "wlp (receive_file ho negs) (whole_result (client s) (blksize s) interrupted_raw s first) s"
proof -
  have loop: "wlp (while_m receive_guard receive_round (1, fin)) (\<lambda>r s'. case r of
      Inl e \<Rightarrow> recv_stopped (client s) (blksize s) interrupted_raw s first e s'
    | Inr x \<Rightarrow> transfer_inv (client s) (blksize s) s first x s' \<and> \<not> receive_guard x) s1"
    if "transfer_inv (client s) (blksize s) s first (1, fin) s1" for fin s1
  proof (rule wlp_while [where I = "transfer_inv (client s) (blksize s) s first"])
    show "transfer_inv (client s) (blksize s) s first (1, fin) s1" by (rule that)
  next
    fix x s2 assume "transfer_inv (client s) (blksize s) s first x s2" "receive_guard x"
    then obtain bn where x: "x = (bn, False)" "transfer_inv (client s) (blksize s) s first (bn, False) s2"
      by (cases x) (auto simp: receive_guard_def)
    show "wlp (receive_round x) (\<lambda>r s'. case r of
        Inl e \<Rightarrow> (case Inl e of Inl e \<Rightarrow> recv_stopped (client s) (blksize s) interrupted_raw s first e s'
          | Inr x \<Rightarrow> transfer_inv (client s) (blksize s) s first x s' \<and> \<not> receive_guard x)
      | Inr a' \<Rightarrow> transfer_inv (client s) (blksize s) s first a' s') s2"
      using receive_round_spec [OF x(2) blk] unfolding x(1) sum.case .
  qed simp
  show ?thesis
    unfolding receive_file_def wlp_bnd
  proof (rule wlp_mono [OF first_loop_spec [OF w blk reply]], goal_cases)
    case (1 r s1)
    show ?case
    proof (cases r)
      case (Inl e)
      with 1 show ?thesis by (simp add: first_result_def whole_result_def)
    next
      case (Inr y)
      obtain a n fin where y: "y = (a, n, fin)" by (cases y) auto
      have wi: "wait_inv (client s) (blksize s) s first [] a fin s1" "a \<or> n \<ge> MAX_RETRIES"
        using 1 by (simp_all add: Inr y first_result_def first_inv_def first_guard_def not_less)
      show ?thesis
      proof (cases "n \<ge> MAX_RETRIES")
        case True
        with wait_timeout [OF wi(1)] show ?thesis by (simp add: Inr y whole_result_def)
      next
        case False
        with wi have "a" by simp
        with wait_over [OF wi(1)] obtain bs' ns where
          "recv_inv (client s) (blksize s) s first bs' ns s1" "length bs' = 1" "shape (blksize s) fin bs'"
          by (auto simp: shape_def)
        then have t: "transfer_inv (client s) (blksize s) s first (1, fin)
            (s1\<lparr>udp_timeout := default_timeout, so_rcvtimeo := default_timeout\<rparr>)"
          by (auto simp: transfer_inv_def intro!: exI [of _ bs'])
        have "wlp (while_m receive_guard receive_round (1, fin)) (\<lambda>r s'. case r of
            Inl e \<Rightarrow> whole_result (client s) (blksize s) interrupted_raw s first (Inl e) s'
          | Inr (bn, _) \<Rightarrow> whole_result (client s) (blksize s) interrupted_raw s first (Inr ()) (s'\<lparr>outbox := outbox s' @
              [(client s', block_reply bn)]\<rparr>))
            (s1\<lparr>udp_timeout := default_timeout, so_rcvtimeo := default_timeout\<rparr>)"
          by (rule wlp_mono [OF loop [OF t]])
            (auto simp: receive_guard_def whole_result_def [of _ _ _ _ _ "Inl _"] transfer_inv_client transfer_done
              split: sum.splits)
        with False show ?thesis
          by (auto simp: Inr y block_reply_def elim!: wlp_mono split: sum.splits)
      qed
    qed
  qed
qed

section \<open>The request\<close>

text \<open>
  The outcome of a write request for the file \<open>f\<close>: refused, or blocks of the client have been
  received; when the session returns, the file holds them all.
\<close>

definition first_raw :: "tftp_option list \<Rightarrow> bytes" where
  "first_raw opts = (if opts = [] then block_reply 0 else oack_raw opts)"

definition received_blocks ::
  "client_handler \<Rightarrow> read_write_packet \<Rightarrow> unit outcome \<Rightarrow> client_handler \<Rightarrow> bool" where
  "received_blocks s p r s' \<longleftrightarrow> (\<exists>bs ns extra.
     sent_to (client s) (outbox s') = sent_to (client s) (outbox s)
       @ map (reply_of (0, first_raw (rw_options p))) ns @ extra
     \<and> acks_upto 0 (length bs) ns \<and> got (client s) (request_bs p) s (numbered 1 bs) s'
     \<and> (case r of
          Inr _ \<Rightarrow> extra = [] \<and> ns \<noteq> [] \<and> last ns = length bs
            \<and> blocks (nat (request_bs p)) (concat bs) = bs
            \<and> nodes (fsys s') (canonical_of (fsys s) (request_path s p)) = Some (FileN (concat bs))
        | Inl e \<Rightarrow> extra = [] \<or> interrupted e \<and> extra = [interrupted_raw]))"

definition writable :: "client_handler \<Rightarrow> string \<Rightarrow> bool" where
  "writable s f \<longleftrightarrow> isFilePathUnderDirectory (fsys s) f (root_dirpath s) = Some True
     \<and> \<not> FileExists (fsys s) f"

definition refused :: "client_handler \<Rightarrow> 'a outcome \<Rightarrow> client_handler \<Rightarrow> bool" where
  "refused s r s' \<longleftrightarrow> (\<exists>e. r = Inl e) \<and> outbox s' = outbox s \<and> fsys s' = fsys s"

definition wrq_outcome ::
  "client_handler \<Rightarrow> read_write_packet \<Rightarrow> unit outcome \<Rightarrow> client_handler \<Rightarrow> bool" where
  "wrq_outcome s p r s' \<longleftrightarrow>
     (\<forall>q. q \<noteq> canonical_of (fsys s) (request_path s p) \<longrightarrow> nodes (fsys s') q = nodes (fsys s) q)
     \<and> (refused s r s' \<or> writable s (request_path s p) \<and> received_blocks s p r s')"

text \<open>From the transfer, in a state that differs from \<open>s\<close> by the negotiation and the writer.\<close>

definition wrq_ready :: "client_handler \<Rightarrow> read_write_packet \<Rightarrow> client_handler \<Rightarrow> bool" where
  "wrq_ready s p s1 \<longleftrightarrow> writer_holds s1 [] \<and> w_filepath (the_writer s1) = request_path s p
     \<and> blksize s1 = request_bs p \<and> fsys s1 = fsys s \<and> inbox s1 = inbox s
     \<and> outbox s1 = outbox s \<and> client s1 = client s \<and> maxPacketSize s1 = maxPacketSize s"

lemma recv_result_closed:
  assumes rd: "wrq_ready s p s1" and res: "whole_result (client s1) (blksize s1) interrupted_raw s1 (0, first_raw (rw_options p)) r s2"
    and blk: "0 < request_bs p"
    and close: "s' = s2 \<or> peer_frame (client s) s2 [] s' \<and> inbox s' = inbox s2 \<and> outbox s' = outbox s2
      \<and> (w_tbw_later_buffer (the_writer s2) = [] \<longrightarrow> fsys s' = fsys s2)"
    and wr: "writable s (request_path s p)"
  shows "wrq_outcome s p r s'"
proof -
  let ?f = "(0, first_raw (rw_options p))" and ?T = "canonical_of (fsys s) (request_path s p)"
  have fo: "files_only s1 s2"
    using res by (auto simp: whole_result_def recv_stopped_def recv_inv_def peer_frame_def split: sum.splits)
  have fo': "files_only s2 s'" using close by (auto simp: peer_frame_def files_only_def)
  have cl: "outbox s' = outbox s2" "inbox s' = inbox s2" using close by auto
  have other: "\<forall>q. q \<noteq> ?T \<longrightarrow> nodes (fsys s') q = nodes (fsys s) q"
    using fo fo' rd by (simp add: files_only_def wrq_ready_def)
  have g: "got (client s) (request_bs p) s nds s'"
    if "got (client s1) (blksize s1) s1 nds s2" for nds
    using that rd cl(2) by (simp add: got_def wrq_ready_def)
  have "received_blocks s p r s'"
  proof (cases r)
    case (Inl e)
    with res obtain bs ns extra where
      "peer_frame (client s1) s1 (map (reply_of ?f) ns @ extra) s2" "acks_upto 0 (length bs) ns"
      "got (client s1) (blksize s1) s1 (numbered 1 bs) s2"
      "extra = [] \<or> interrupted e \<and> extra = [interrupted_raw]"
      by (auto simp: whole_result_def recv_stopped_def)
    then have "sent_to (client s) (outbox s') = sent_to (client s) (outbox s) @ map (reply_of ?f) ns @ extra
        \<and> acks_upto 0 (length bs) ns \<and> got (client s) (request_bs p) s (numbered 1 bs) s'
        \<and> (extra = [] \<or> interrupted e \<and> extra = [interrupted_raw])"
      using rd g by (auto simp: peer_frame_def wrq_ready_def cl(1))
    then show ?thesis unfolding received_blocks_def Inl sum.case by blast
  next
    case (Inr x)
    with res obtain bs ns where b: "recv_inv (client s1) (blksize s1) s1 ?f bs (ns @ [length bs]) s2" "shape (blksize s1) True bs"
      by (auto simp: whole_result_def)
    have w: "writer_holds s2 (concat bs)" "w_open (the_writer s2)"
      using b by (auto simp: recv_inv_def shape_def)
    then have "nodes (fsys s') ?T = Some (FileN (concat bs))"
      using close fo rd by (auto simp: writer_holds_def Let_def files_only_def wrq_ready_def)
    moreover have "blocks (nat (request_bs p)) (concat bs) = bs"
      using shape_blocks [of "blksize s1" bs] b(2) rd blk by (simp add: wrq_ready_def)
    moreover have "sent_to (client s) (outbox s') =
        sent_to (client s) (outbox s) @ map (reply_of ?f) (ns @ [length bs]) @ []
        \<and> acks_upto 0 (length bs) (ns @ [length bs])
        \<and> got (client s) (request_bs p) s (numbered 1 bs) s'"
      using b(1) rd g by (auto simp: recv_inv_def peer_frame_def wrq_ready_def cl(1))
    moreover have "ns @ [length bs] \<noteq> [] \<and> last (ns @ [length bs]) = length bs" by simp
    ultimately show ?thesis unfolding received_blocks_def Inr sum.case by blast
  qed
  with other wr show ?thesis by (simp add: wrq_outcome_def)
qed

text \<open>The part of \<open>FollowOnWRQ\<close> between the checks of the path and the destructor.\<close>

definition wrq_served :: "client_handler \<Rightarrow> read_write_packet \<Rightarrow> unit outcome \<Rightarrow> client_handler \<Rightarrow> bool" where
  "wrq_served s p r s' \<longleftrightarrow> refused s r s' \<and> w_tbw_later_buffer (the_writer s') = []
       \<and> w_filepath (the_writer s') = request_path s p
     \<or> (\<exists>s1. wrq_ready s p s1 \<and> whole_result (client s1) (blksize s1) interrupted_raw s1 (0, first_raw (rw_options p)) r s'
         \<and> writable s (request_path s p))"

lemma request_bs_range:
  "ReadWritePacket_ctor_raw raw = Inr p \<Longrightarrow> 8 \<le> request_bs p \<and> request_bs p \<le> 65464"
  using chosen_blksize_range [OF ReadWritePacket_valid, of raw p 512] by (simp add: request_bs_def)

lemma first_reply_raw: "first_reply (length opts > 0) (supported opts) (first_raw opts)"
  by (simp add: first_reply_def first_raw_def oack_raw_eq)

lemma negotiate_and_receive:
  assumes parse: "ReadWritePacket_ctor_raw raw = Inr p" and fresh: "blksize s = 512"
    and wr: "writable s (request_path s p)"
    and s0: "s0 = s\<lparr>the_writer := \<lparr>w_filepath = request_path s p, w_mode = DF_OCTET,
      w_open = False, w_fail = False, w_tbw_later_buffer = []\<rparr>\<rparr>"
  shows "wlp (bnd (NegotiateOptions (rw_options p)) (\<lambda>negs.
      seq (for_each negs (\<lambda>opt. if opt_name opt = TSIZE then bnd (gets hd_tsize) (\<lambda>tsize.
             if \<not> HasEnoughSpace fs root (tsize mod 2 ^ 64)
             then throw NotEnoughSpaceException else skip) else skip))
        (receive_file (length (rw_options p) > 0) negs))) (wrq_served s p) s0"
  unfolding wlp_bnd [of "NegotiateOptions _"]
proof (rule wlp_mono [OF NegotiateOptions_spec [OF ReadWritePacket_valid [OF parse]]], goal_cases)
  case (1 r s1)
  then have n: "negotiated s0 s1" by simp
  note f = negotiated_fields [OF n]
  have ref: "wrq_served s p (Inl e) s1" for e
    using f by (simp add: wrq_served_def refused_def s0)
  show ?case
  proof (cases r)
    case (Inl e)
    with ref show ?thesis by simp
  next
    case (Inr negs)
    have negs: "negs = supported (rw_options p)" "blksize s1 = request_bs p"
      using 1 fresh by (simp_all add: Inr s0 request_bs_def)
    have rdy: "wrq_ready s p s1"
      using f by (simp add: wrq_ready_def negs s0 writer_holds_def)
    have "wlp (receive_file (length (rw_options p) > 0) negs) (wrq_served s p) s1"
      using rdy wr request_bs_range [OF parse] first_reply_raw [of "rw_options p"]
      by (intro wlp_mono [OF receive_file_spec, of s1 "length (rw_options p) > 0" negs
            "(0, first_raw (rw_options p))"])
        (auto simp: wrq_served_def wrq_ready_def negs)
    moreover have "wlp (for_each negs (\<lambda>opt. if opt_name opt = TSIZE then bnd (gets hd_tsize) (\<lambda>tsize.
             if \<not> HasEnoughSpace fs root (tsize mod 2 ^ 64)
             then throw NotEnoughSpaceException else skip) else skip)) (\<lambda>r s'. s' = s1) s1"
      by (rule wlp_for_each_same) simp
    ultimately show ?thesis
      unfolding Inr sum.case using ref
      by (auto elim!: wlp_mono split: sum.splits)
  qed
qed

lemma FollowOnWRQ_octet:
  assumes parse: "ReadWritePacket_ctor_raw raw = Inr p" and mode: "rw_mode p = OCTET"
    and fresh: "blksize s = 512"
  shows "wlp (FollowOnWRQ raw) (wrq_outcome s p) s"
proof -
  let ?f = "request_path s p" and ?fs = "fsys s" and ?root = "root_dirpath s"
  define s0 where "s0 = s\<lparr>the_writer := \<lparr>w_filepath = ?f, w_mode = DF_OCTET,
      w_open = False, w_fail = False, w_tbw_later_buffer = []\<rparr>\<rparr>"
  define body where "body = (if FileExists ?fs ?f then
          throw (TFTPFileAlreadyExistsError (''File already exists: '' @ rw_filepath p))
        else
          (case isFilePathUnderDirectory ?fs ?f ?root of
             None \<Rightarrow> stop_with (Undefined ''relative[1] of an empty string'')
           | Some inside \<Rightarrow>
               if \<not> inside then throw TFTPAccessViolationError
               else bnd (NegotiateOptions (rw_options p)) (\<lambda>negs.
                 seq (for_each negs (\<lambda>opt. if opt_name opt = TSIZE then bnd (gets hd_tsize) (\<lambda>tsize.
                        if \<not> HasEnoughSpace ?fs ?root (tsize mod 2 ^ 64)
                        then throw NotEnoughSpaceException else skip) else skip))
                   (receive_file (length (rw_options p) > 0) negs))))"
  have ref: "wrq_served s p (Inl e) s0" for e by (simp add: wrq_served_def refused_def s0_def)
  have body: "wlp body (wrq_served s p) s0"
    using ref negotiate_and_receive [OF parse fresh _ s0_def]
    unfolding body_def by (auto simp: writable_def split: option.splits simp del: wlp_bnd)
  have close: "wrq_outcome s p r s'"
    if sv: "wrq_served s p r s2" and cl: "s' = s2 \<or> peer_frame (client s) s2 [] s' \<and> inbox s' = inbox s2
      \<and> outbox s' = outbox s2 \<and> (w_tbw_later_buffer (the_writer s2) = [] \<longrightarrow> fsys s' = fsys s2)"
    for r s2 s'
    using sv unfolding wrq_served_def
  proof (elim disjE exE conjE)
    assume "refused s r s2" "w_tbw_later_buffer (the_writer s2) = []"
    with cl have "refused s r s'" by (auto simp: refused_def)
    then show ?thesis by (simp add: wrq_outcome_def refused_def)
  next
    fix s1 assume "wrq_ready s p s1" "whole_result (client s1) (blksize s1) interrupted_raw s1 (0, first_raw (rw_options p)) r s2"
      "writable s (request_path s p)"
    then show ?thesis using recv_result_closed [OF _ _ _ cl] request_bs_range [OF parse] by simp
  qed
  have "wlp (scoped body Writer_dtor) (wrq_outcome s p) s0"
    unfolding wlp_scoped
  proof (rule wlp_mono [OF body], goal_cases)
    case (1 r s2)
    have d: "wlp Writer_dtor (\<lambda>r' s'. r' = Inr () \<and> wrq_outcome s p r s') s2"
      by (rule wlp_mono [OF wlp_Writer_dtor]) (use close [OF 1] in blast)
    show ?case
    proof (cases r)
      case (Inr x)
      then show ?thesis using d by (auto elim!: wlp_mono)
    next
      case (Inl e)
      then show ?thesis using d close [OF 1, of s2]
        by (cases e) (auto elim!: wlp_mono)
    qed
  qed
  then show ?thesis
    unfolding FollowOnWRQ_def wlp_bnd wlp_lift_exn parse sum.case wlp_gets Let_def
      request_path_def [symmetric] wlp_seq body_def [symmetric]
    by (simp add: s0_def mode data_format_def)
qed

end
