(* ===== verification/Session.thy ===== *)
theory Session
  imports ReadRequest WriteRequest
begin

text \<open>
  A whole session of the server (\<open>FollowOnIntroPacket\<close>): the answers to refused requests, the
  returning of the handlers, and the loop that measures a file for the \<open>tsize\<close> option.
\<close>

section \<open>The loop of the \<open>tsize\<close> option\<close>

text \<open>A reader that has read all of its file.\<close>

definition exhausted :: "reader \<Rightarrow> 'b world_scheme \<Rightarrow> bool" where
  "exhausted r s \<longleftrightarrow> r_mode r = DF_OCTET \<and> FileExists (fsys s) (r_filepath r) \<and>
     (case r_file r of None \<Rightarrow> False | Some st \<Rightarrow> st_rest st = [] \<and> (good_stream st \<or> st_eof st))"

lemma exhausted_read:
  assumes "exhausted r s" "0 < n"
  shows "\<exists>r'. Reader_ReadFile n r s = Some (Inr ([], r'), s) \<and> exhausted r' s"
proof -
  obtain st where st: "r_file r = Some st" "st_rest st = []" "good_stream st \<or> st_eof st"
    using assms(1) by (auto simp: exhausted_def split: option.splits)
  have rd: "fst (stream_read n st) = []" "st_rest (snd (stream_read n st)) = []"
    "st_eof (snd (stream_read n st))"
    using st(2,3) assms(2) by (auto simp: stream_read_def good_stream_def Let_def)
  have "Reader_ReadFile n r s = Some (Inr ([], r\<lparr>r_file := Some (snd (stream_read n st))\<rparr>), s)"
    using assms(1) st(1) rd
    by (simp add: Reader_ReadFile_def exhausted_def bnd_def gets_def ret_def Let_def read_failed_def)
  with assms(1) rd show ?thesis by (auto simp: exhausted_def)
qed

lemma tsize_round_eq:
  assumes "Reader_ReadFile (nat (blksize s mod 2 ^ 32)) r s = Some (Inr (d, r'), s)"
  shows "tsize_round (n, r) s = Some (Inr (n + int (length d), r'), s)"
  using assms by (simp add: tsize_round_def bnd_def gets_def ret_def)

definition tsize_guard :: "int \<Rightarrow> int \<times> reader \<Rightarrow> bool" where
  "tsize_guard blk = (\<lambda>(bytes_read, _). bytes_read = blk)"

lemma tsize_loop_eq:
  assumes "reader_good (Reader_ctor f m (uninit s)) s" "0 < blksize s" "blksize s < 2 ^ 32"
  defines "c \<equiv> reader_left (Reader_ctor f m (uninit s)) s"
  shows "\<exists>r. tsize_loop f m s = seq (while_m (tsize_guard (blksize s)) tsize_round
           (int (min (nat (blksize s)) (length c)), r)) skip s
     \<and> reader_left r s = drop (nat (blksize s)) c
     \<and> (nat (blksize s) \<le> length c \<longrightarrow> reader_good r s)
     \<and> (nat (blksize s) = length c \<longrightarrow> exhausted r s)"
proof -
  let ?n = "nat (blksize s)" and ?r0 = "Reader_ctor f m (uninit s)"
  have n: "nat (blksize s mod 2 ^ 32) = ?n" using assms by simp
  obtain r where r: "Reader_ReadFile ?n ?r0 s = Some (Inr (take ?n c, r), s)"
    "reader_left r s = drop ?n c" "?n \<le> length c \<longrightarrow> reader_good r s"
    using Reader_ReadFile_octet [OF assms(1)] unfolding c_def by blast
  have fl: "\<exists>st. r_file r = Some st"
    using r(1) by (auto simp: Reader_ReadFile_def bnd_def gets_def ret_def Let_def throw_def stop_with_def
        Reader_ctor_def split: if_splits option.splits sum.splits prod.splits)
  have "tsize_round (0, ?r0) s = Some (Inr (int (length (take ?n c)), r), s)"
    using tsize_round_eq [of s ?r0 "take ?n c" r 0] r(1) n by simp
  then have eq: "tsize_loop f m s = seq (while_m (tsize_guard (blksize s)) tsize_round
      (int (min ?n (length c)), r)) skip s"
    by (simp add: tsize_loop_def bnd_def gets_def tsize_guard_def min.commute)
  have "exhausted r s" if "?n = length c"
    using fl r(2,3) that by (auto simp: reader_good_def reader_left_def exhausted_def)
  with eq r(2,3) show ?thesis by blast
qed

definition stuck :: "client_handler \<Rightarrow> int \<times> reader \<Rightarrow> client_handler \<Rightarrow> bool" where
  "stuck s = (\<lambda>(n, r) s'. s' = s \<and> n = blksize s \<and> exhausted r s)"

lemma stuck_step:
  assumes "stuck s a s'" "0 < blksize s" "blksize s < 2 ^ 32"
  shows "tsize_guard (blksize s) a \<and> (\<exists>a' s''. tsize_round a s' = Some (Inr a', s'') \<and> stuck s a' s'')"
proof -
  obtain r where a: "a = (blksize s, r)" "s' = s" "exhausted r s"
    using assms(1) by (cases a) (simp add: stuck_def)
  obtain r' where "Reader_ReadFile (nat (blksize s mod 2 ^ 32)) r s = Some (Inr ([], r'), s)" "exhausted r' s"
    using exhausted_read [OF a(3), of "nat (blksize s mod 2 ^ 32)"] assms(2,3) by auto
  with tsize_round_eq [of s r "[]" r' "blksize s"] a show ?thesis
    by (auto simp: stuck_def tsize_guard_def)
qed

text \<open>The loop returns exactly when the file is not one block long.\<close>

lemma tsize_loop_None_iff:
  assumes g: "reader_good (Reader_ctor f m (uninit s)) s" and blk: "0 < blksize s" "blksize s < 2 ^ 32"
  shows "tsize_loop f m s = None \<longleftrightarrow> int (length (reader_left (Reader_ctor f m (uninit s)) s)) = blksize s"
proof -
  define c where "c = reader_left (Reader_ctor f m (uninit s)) s"
  let ?n = "nat (blksize s)"
  have n: "nat (blksize s mod 2 ^ 32) = ?n" "0 < ?n" using blk by simp_all
  obtain r where r: "tsize_loop f m s = seq (while_m (tsize_guard (blksize s)) tsize_round
           (int (min ?n (length c)), r)) skip s"
    "reader_left r s = drop ?n c" "?n \<le> length c \<longrightarrow> reader_good r s" "?n = length c \<longrightarrow> exhausted r s"
    using tsize_loop_eq [OF g blk] unfolding c_def by blast
  consider (less) "length c < ?n" | (eq) "length c = ?n" | (more) "?n < length c" by linarith
  then have "tsize_loop f m s = None \<longleftrightarrow> length c = ?n"
  proof cases
    case less
    then have "\<not> tsize_guard (blksize s) (int (min ?n (length c)), r)" by (simp add: tsize_guard_def)
    then have "while_m (tsize_guard (blksize s)) tsize_round (int (min ?n (length c)), r) s \<noteq> None"
      by (simp add: while_m.simps)
    with less r(1) show ?thesis by (auto simp: seq_def bnd_def skip_def ret_def split: sum.splits)
  next
    case eq
    have "while_m (tsize_guard (blksize s)) tsize_round (int (min ?n (length c)), r) s = None"
      by (rule while_m_diverges [where I = "stuck s", OF _ stuck_step [OF _ blk]])
        (use eq r(4) blk in \<open>auto simp: stuck_def\<close>)
    with eq r(1) show ?thesis by (simp add: seq_def bnd_def)
  next
    case more
    let ?d = "take ?n (drop ?n c)"
    have gr: "reader_good r s" "min ?n (length c) = ?n" "int ?n = blksize s" using more r(3) blk by simp_all
    obtain r' where "Reader_ReadFile ?n r s = Some (Inr (?d, r'), s)"
      using Reader_ReadFile_octet [OF gr(1), of ?n] r(2) by auto
    then obtain x where "tsize_round (blksize s, r) s = Some (Inr x, s)"
      "x = (blksize s + int (length ?d), r')"
      using tsize_round_eq [of s r ?d r' "blksize s"] n(1) by simp
    moreover have "\<not> tsize_guard (blksize s) (blksize s + int (length ?d), r')"
      using more n(2) by (simp add: tsize_guard_def min_def)
    moreover have "tsize_guard (blksize s) (blksize s, r)" by (simp add: tsize_guard_def)
    ultimately have "while_m (tsize_guard (blksize s)) tsize_round (blksize s, r) s \<noteq> None"
      by (simp only: while_m_step while_m_exit option.simps not_False_eq_True)
    with more r(1) gr show ?thesis
      by (auto simp: seq_def bnd_def skip_def ret_def split: sum.splits)
  qed
  then show ?thesis using blk by (auto simp: c_def)
qed

lemma for_each_None:
  "\<forall>x \<in> set xs. \<not> P x \<longrightarrow> f x s = Some (Inr (), s) \<Longrightarrow> \<exists>x \<in> set xs. P x \<Longrightarrow>
   \<forall>x \<in> set xs. P x \<longrightarrow> f x s = None \<Longrightarrow> for_each xs f s = None"
proof (induction xs)
  case (Cons x xs)
  then show ?case by (cases "P x") (auto simp: seq_def bnd_None bnd_run)
qed simp

lemma FollowOnRRQ_eq:
  assumes "ReadWritePacket_ctor_raw raw = Inr p" "readable s (request_path s p) c"
  shows "FollowOnRRQ raw s = bnd (NegotiateOptions (rw_options p)) (\<lambda>negs.
      seq (for_each negs (\<lambda>opt. if opt_name opt = TSIZE
             then tsize_loop (request_path s p) (data_format (rw_mode p)) else skip))
      (seq (if length (rw_options p) > 0
            then oack_phase (Reader_ctor (request_path s p) (data_format (rw_mode p)) (uninit s)) negs else skip)
        (send_file (Reader_ctor (request_path s p) (data_format (rw_mode p)) (uninit s))))) s"
proof -
  have "FileExists (fsys s) (request_path s p) = True"
    "isFilePathUnderDirectory (fsys s) (request_path s p) (root_dirpath s) = Some True"
    using assms(2) by (simp_all add: readable_def FileExists_def)
  then show ?thesis
    unfolding FollowOnRRQ_def assms(1) bnd_run_simps Let_def request_path_def [symmetric]
    by (simp only: not_True_eq_False if_False option.case)
qed

lemma readable_reader:
  assumes "readable s f c" "fsys s1 = fsys s"
  shows "reader_good (Reader_ctor f DF_OCTET i) s1" "reader_left (Reader_ctor f DF_OCTET i) s1 = c"
  using assms by (simp_all add: readable_def Reader_ctor_def reader_good_def reader_left_def FileExists_def)

lemma FollowOnRRQ_diverges:
  assumes parse: "ReadWritePacket_ctor_raw raw = Inr p" and mode: "rw_mode p = OCTET"
    and rdbl: "readable s (request_path s p) c" and fresh: "blksize s = 512"
    and ts: "\<exists>opt \<in> set (rw_options p). opt_name opt = TSIZE" "int_tsize (rw_options p)"
    and size: "int (length c) = request_bs p"
  shows "FollowOnRRQ raw s = None"
proof -
  let ?f = "request_path s p"
  obtain s1 where n: "NegotiateOptions (rw_options p) s = Some (Inr (supported (rw_options p)), s1)"
    "negotiated s s1" "blksize s1 = request_bs p"
    using NegotiateOptions_run [OF ReadWritePacket_valid [OF parse] ts(2), of s] fresh
    by (auto simp: request_bs_def)
  have "tsize_loop ?f DF_OCTET s1 = None"
    using readable_reader [OF rdbl, of s1] negotiated_fields [OF n(2)] request_bs_range [OF parse] n(3) size
    by (simp add: tsize_loop_None_iff)
  then have "for_each (supported (rw_options p)) (\<lambda>opt. if opt_name opt = TSIZE
      then tsize_loop ?f DF_OCTET else skip) s1 = None"
    using ts(1) by (intro for_each_None [where P = "\<lambda>opt. opt_name opt = TSIZE"])
      (auto simp: supported_def run_simps)
  then show ?thesis
    unfolding FollowOnRRQ_eq [OF parse rdbl] bnd_run [of "NegotiateOptions (rw_options p)", OF n(1)]
      mode data_format_simps seq_def [of "for_each _ _"]
    by (rule bnd_None)
qed

text \<open>Without that option, and always for write requests, a handler returns.\<close>

lemma returns_FollowOnWRQ [simp, returns_rules]: "returns (FollowOnWRQ raw) s"
  unfolding FollowOnWRQ_def Let_def
  by (intro returns_intros) (auto split: option.splits intro!: returns_intros returns_for_each)

lemma for_each_run:
  "\<forall>x \<in> set xs. f x s = Some (Inr (), s) \<Longrightarrow> for_each xs f s = Some (Inr (), s)"
  by (induction xs) (simp_all add: seq_def bnd_run run_simps)

section \<open>The answers to refused requests\<close>

definition error_raw :: "ErrorCode \<Rightarrow> exn \<Rightarrow> bytes" where
  "error_raw code e = ErrorPacket_MakeRaw (ErrorPacket code (tftp_what e))"

definition handler_of :: "Opcode \<Rightarrow> bytes \<Rightarrow> (client_handler, unit) prog" where
  "handler_of opc raw = (if opc = RRQ then FollowOnRRQ raw else if opc = WRQ then FollowOnWRQ raw
     else throw (TFTPIllegalOperationError ''Expected RRQ or WRQ''))"

lemma FollowOnIntroPacket_eq:
  "GetOpcodeFromRaw raw = Inr opc \<Longrightarrow>
   FollowOnIntroPacket raw s = try_catch (handler_of opc raw) report_and_rethrow s"
  by (simp add: FollowOnIntroPacket_def handler_of_def try_catch_def bnd_def run_simps)

text \<open>Exactly one ERROR packet, after everything else, when the exception has a code; none otherwise.\<close>

lemma FollowOnIntroPacket_result:
  assumes "GetOpcodeFromRaw raw = Inr opc" "handler_of opc raw s = Some (r, s1)"
  shows "FollowOnIntroPacket raw s = Some (r, case r of
      Inl (Raise e) \<Rightarrow> (case error_code_of e of
          Some code \<Rightarrow> s1\<lparr>outbox := outbox s1 @ [(client s1, error_raw code e)]\<rparr> | None \<Rightarrow> s1)
    | _ \<Rightarrow> s1)"
  unfolding FollowOnIntroPacket_eq [OF assms(1)]
  using assms(2)
  by (simp add: try_catch_def report_and_rethrow_def seq_def bnd_run bnd_run_simps run_simps error_raw_def
      send_to_client_def UdpClient_Send_def split: sum.splits stop.splits option.splits)

section \<open>Returning\<close>

lemma returns_FollowOnRRQ:
  assumes "\<And>p. ReadWritePacket_ctor_raw raw = Inr p \<Longrightarrow> \<forall>opt \<in> set (rw_options p). opt_name opt \<noteq> TSIZE"
  shows "returns (FollowOnRRQ raw) s"
proof (cases "ReadWritePacket_ctor_raw raw")
  case (Inl e)
  then show ?thesis by (simp add: FollowOnRRQ_def returns_def bnd_run_simps)
next
  case (Inr p)
  have opts: "\<forall>opt \<in> set (supported (rw_options p)). opt_name opt \<noteq> TSIZE"
    using assms [OF Inr] by (simp add: supported_def)
  have fe: "returns (for_each negs (\<lambda>opt. if opt_name opt = TSIZE then tsize_loop f m else skip)) s1"
    if "negs = supported (rw_options p)" for negs f m s1
    using that opts for_each_run [of negs "\<lambda>opt. if opt_name opt = TSIZE then tsize_loop f m else skip" s1]
    by (simp add: returns_def run_simps)
  have neg: "returns (bnd (NegotiateOptions (rw_options p)) (\<lambda>negs.
      seq (for_each negs (\<lambda>opt. if opt_name opt = TSIZE then tsize_loop f m else skip))
        (seq (if length (rw_options p) > 0 then oack_phase rd negs else skip) (send_file rd)))) s1" for f m rd s1
    unfolding returns_bnd
  proof (intro conjI returns_NegotiateOptions
      wlp_mono [OF NegotiateOptions_spec [OF ReadWritePacket_valid [OF Inr]]], goal_cases)
    case (1 r s2)
    show ?case
    proof (cases r)
      case (Inr negs)
      with 1 have "negs = supported (rw_options p)" by simp
      with fe show ?thesis
        unfolding Inr sum.case returns_seq [of "for_each _ _"]
        by (auto intro!: wlpI returns_intros split: sum.splits)
    qed simp
  qed
  show ?thesis
    unfolding FollowOnRRQ_def Inr Let_def returns_run
    by (intro returns_ifI returns_optionI neg) simp_all
qed

section \<open>A cooperative client\<close>

text \<open>The acknowledgements of a transfer of \<open>m\<close> blocks, the one of the OACK included.\<close>

definition acks_due :: "nat \<Rightarrow> tftp_option list \<Rightarrow> int \<Rightarrow> due list" where
  "acks_due lim opts m = (if opts = [] then [] else [oack_ack_due lim]) @ map (ack_due lim) [1..m]"

definition all_acks :: "sockaddr \<Rightarrow> tftp_option list \<Rightarrow> int \<Rightarrow> net_event list" where
  "all_acks peer opts m = (if opts = [] then [] else [ack_dgram peer 0]) @ map (ack_dgram peer) [1..m]"

lemma all_acks_arrive: "arrives peer (acks_due lim opts m) k rest (all_acks peer opts m @ rest)"
  by (rule arrives_all) (simp add: acks_due_def all_acks_def oack_ack_due_def ack_due_def ack_dgram_def)

lemma FollowOnRRQ_cooperative:
  assumes parse: "ReadWritePacket_ctor_raw raw = Inr p" and mode: "rw_mode p = OCTET"
    and rdbl: "readable s (request_path s p) c" and fresh: "blksize s = 512"
    and ts: "\<forall>opt \<in> set (rw_options p). opt_name opt \<noteq> TSIZE"
    and net: "sigint_at s = None" "4 \<le> maxPacketSize s"
      "arrives (client s) (acks_due (maxPacketSize s) (rw_options p) (int (length (blocks (nat (request_bs p)) c)))) 0 rest (inbox s)"
    and small: "length (blocks (nat (request_bs p)) c) < 65536"
  shows "\<exists>s'. FollowOnRRQ raw s = Some (Inr (), s') \<and> inbox s' = rest
     \<and> sent_to (client s) (outbox s') = sent_to (client s) (outbox s)
         @ (if rw_options p = [] then [] else [oack_raw (rw_options p)])
         @ data_raws 1 (blocks (nat (request_bs p)) c)"
proof -
  let ?f = "request_path s p" and ?z = "int (length (blocks (nat (request_bs p)) c))"
  let ?blocks = "map (ack_due (maxPacketSize s)) [1..?z]"
  define rd where "rd = Reader_ctor ?f DF_OCTET (uninit s)"
  define negs where "negs = supported (rw_options p)"
  have "int_tsize (rw_options p)" using ts by (simp add: int_tsize_def)
  then obtain s1 where n: "NegotiateOptions (rw_options p) s = Some (Inr negs, s1)"
    "negotiated s s1" "blksize s1 = request_bs p"
    using NegotiateOptions_run [OF ReadWritePacket_valid [OF parse], of s] fresh
    by (auto simp: request_bs_def negs_def)
  note f = negotiated_fields [OF n(2)]
  have fe: "wlp (for_each negs (\<lambda>opt. if opt_name opt = TSIZE then tsize_loop ?f DF_OCTET else skip)) Q s1
      = Q (Inr ()) s1" for Q
    using for_each_run [of negs "\<lambda>opt. if opt_name opt = TSIZE then tsize_loop ?f DF_OCTET else skip" s1] ts
    by (simp add: negs_def supported_def run_simps wlp_def)
  have oa: "OackPacket_MakeRaw (OackPacket negs) = Inr (oack_raw (rw_options p))"
    by (simp add: negs_def oack_raw_eq)
  have answer: "wlp (if length (rw_options p) > 0 then oack_phase rd negs else skip) (\<lambda>r s'. r = Inr ()
      \<and> same_source s1 s' \<and> arrives (client s) ?blocks 0 rest (inbox s')) s1"
  proof (cases "rw_options p = []")
    case True
    with f net n(3) show ?thesis by (simp add: acks_due_def)
  next
    case False
    have "greeted 0 ?blocks rest s1" using f net False by (simp add: greeted_def acks_due_def MAX_RETRIES_def)
    from oack_phase_coop [OF this oa] show ?thesis using False f by simp
  qed
  have sent: "wlp (send_file rd) (\<lambda>r s'. r = Inr () \<and> inbox s' = rest) s2"
    if s2: "same_source s1 s2" "arrives (client s) ?blocks 0 rest (inbox s2)" for s2
  proof -
    have g: "fsys s2 = fsys s" "blksize s2 = request_bs p" "coop 0 1 ?z rest s2"
      using s2 f net n(3) small by (simp_all add: same_source_def coop_def MAX_RETRIES_def)
    have "reader_good rd s2" "reader_left rd s2 = c"
      using readable_reader [OF rdbl g(1)] by (simp_all add: rd_def)
    from send_loop_coop [OF this(1) _ _ g(3)] this(2) request_bs_range [OF parse] g(2) show ?thesis
      by (simp add: send_file_def) (erule wlp_mono, auto)
  qed
  have body: "wlp (seq (for_each negs (\<lambda>opt. if opt_name opt = TSIZE then tsize_loop ?f DF_OCTET else skip))
      (seq (if length (rw_options p) > 0 then oack_phase rd negs else skip) (send_file rd)))
      (\<lambda>r s'. r = Inr () \<and> inbox s' = rest) s1"
    unfolding wlp_seq [of "for_each _ _"] fe sum.case wlp_seq [of "if _ then _ else _"]
    by (rule wlp_mono [OF answer]) (auto intro!: sent)
  have "wlp (FollowOnRRQ raw) (\<lambda>r s'. r = Inr () \<and> inbox s' = rest) s"
    using body
    unfolding wlp_def FollowOnRRQ_eq [OF parse rdbl] bnd_run [of "NegotiateOptions (rw_options p)", OF n(1)]
      mode data_format_simps rd_def .
  moreover have "returns (FollowOnRRQ raw) s" by (rule returns_FollowOnRRQ) (use parse ts in auto)
  ultimately obtain s' where run: "FollowOnRRQ raw s = Some (Inr (), s')" "inbox s' = rest"
    by (auto simp: returns_iff dest!: wlpD)
  have "rrq_outcome s p c (Inr ()) s'"
    using wlpD [OF FollowOnRRQ_octet [OF parse mode rdbl fresh] run(1)] .
  with run show ?thesis by (auto simp: rrq_outcome_def served_def)
qed

section \<open>Refused requests\<close>

lemma FollowOnRRQ_missing:
  assumes "ReadWritePacket_ctor_raw raw = Inr p" "\<not> FileExists (fsys s) (request_path s p)"
  shows "FollowOnRRQ raw s =
    Some (Inl (Raise (TFTPFileNotFoundError (''File does not exist: '' @ rw_filepath p))), s)"
proof -
  have "FileExists (fsys s) (request_path s p) = False" using assms(2) by simp
  then show ?thesis
    unfolding FollowOnRRQ_def assms(1) bnd_run_simps Let_def request_path_def [symmetric]
    by (simp only: not_False_eq_True if_True run_simps)
qed

lemma FollowOnRRQ_outside:
  assumes "ReadWritePacket_ctor_raw raw = Inr p" "FileExists (fsys s) (request_path s p)"
    "isFilePathUnderDirectory (fsys s) (request_path s p) (root_dirpath s) = Some False"
  shows "FollowOnRRQ raw s = Some (Inl (Raise TFTPAccessViolationError), s)"
proof -
  have "FileExists (fsys s) (request_path s p) = True" using assms(2) by simp
  then show ?thesis
    unfolding FollowOnRRQ_def assms(1) bnd_run_simps Let_def request_path_def [symmetric]
    by (simp only: not_True_eq_False if_False not_False_eq_True if_True option.case assms(3) run_simps)
qed

text \<open>A refused write request leaves a closed writer behind, and nothing else.\<close>

lemma Writer_dtor_closed: "\<not> w_open (the_writer s) \<Longrightarrow> Writer_dtor s = Some (Inr (), s)"
  by (simp add: Writer_dtor_def bnd_run_simps run_simps)

lemma FollowOnWRQ_refused:
  assumes p: "ReadWritePacket_ctor_raw raw = Inr p"
    and e: "e = (if FileExists (fsys s) (request_path s p)
         then TFTPFileAlreadyExistsError (''File already exists: '' @ rw_filepath p)
         else TFTPAccessViolationError)"
    and r: "FileExists (fsys s) (request_path s p)
      \<or> isFilePathUnderDirectory (fsys s) (request_path s p) (root_dirpath s) = Some False"
  shows "\<exists>w. FollowOnWRQ raw s = Some (Inl (Raise e), s\<lparr>the_writer := w\<rparr>)"
proof -
  let ?w = "\<lparr>w_filepath = request_path s p, w_mode = data_format (rw_mode p), w_open = False,
    w_fail = False, w_tbw_later_buffer = []\<rparr>"
  have d: "Writer_dtor (s\<lparr>the_writer := ?w\<rparr>) = Some (Inr (), s\<lparr>the_writer := ?w\<rparr>)"
    by (rule Writer_dtor_closed) simp
  have "FollowOnWRQ raw s = Some (Inl (Raise e), s\<lparr>the_writer := ?w\<rparr>)"
    unfolding FollowOnWRQ_def p bnd_run_simps Let_def request_path_def [symmetric]
    using e r by (auto simp: Writer_ctor_def seq_def bnd_run run_simps scoped_def d)
  then show ?thesis by blast
qed

end
