(* ===== verification/Examples.thy ===== *)
theory Examples
  imports Session
begin

text \<open>
  Concrete inputs on which the properties are applied: a file system with the directory
  \<open>/srv\<close> and two files in it, a session of the server for one client, and requests.
\<close>

section \<open>A file system\<close>

fun split_path :: "string \<Rightarrow> string \<Rightarrow> path" where
  "split_path acc [] = (if acc = [] then [] else [acc])"
| "split_path acc (c # cs) =
     (if c = CHR ''/'' then (if acc = [] then split_path [] cs else acc # split_path [] cs)
      else split_path (acc @ [c]) cs)"

definition ex_content :: bytes where
  "ex_content = [104, 101, 108, 108, 111, 32, 119, 111, 114, 108, 100]"

definition ex_fs :: filesystem where
  "ex_fs = \<lparr>nodes = (\<lambda>p. if p = [''srv''] then Some DirN
        else if p = [''srv'', ''hello''] then Some (FileN ex_content)
        else if p = [''srv'', ''eight''] then Some (FileN [1, 2, 3, 4, 5, 6, 7, 8])
        else if p = [''etc'', ''passwd''] then Some (FileN [42])
        else if p = [''srv'', ''a.txt''] then Some (FileN [65])
        else None),
      avail = 1000, canonical_of = split_path [], may_open = (\<lambda>_. True),
      dir_removable = (\<lambda>_. False)\<rparr>"

section \<open>A session\<close>

definition ex_client :: sockaddr where
  "ex_client = \<lparr>sin_addr = 0x7F000001, sin_port = 50000\<rparr>"

definition no_writer :: writer where
  "no_writer = \<lparr>w_filepath = [], w_mode = DF_OCTET, w_open = False, w_fail = False,
     w_tbw_later_buffer = []\<rparr>"

definition ex_world :: "net_event list \<Rightarrow> world" where
  "ex_world evs = \<lparr>inbox = evs, outbox = [], sigint_at = None, loads = 0, fsys = ex_fs,
     the_writer = no_writer, std_in = stream_of [], uninit = 0\<rparr>"

definition ex_session :: "net_event list \<Rightarrow> client_handler" where
  "ex_session evs = ClientHandler_ctor (ex_world evs) ex_client ''/srv''"

definition ex_option :: "string \<Rightarrow> string \<Rightarrow> tftp_option" where
  "ex_option nm v = \<lparr>opt_name = parse_opt_name nm, opt_nameStr = nm, opt_value = v\<rparr>"

definition ex_request :: "Opcode \<Rightarrow> string \<Rightarrow> tftp_option list \<Rightarrow> read_write_packet" where
  "ex_request opc f opts = \<lparr>rw_opcode = opc, rw_filepath = f, rw_mode = OCTET, rw_options = opts\<rparr>"

definition ex_raw :: "read_write_packet \<Rightarrow> bytes" where
  "ex_raw p = (case ReadWritePacket_MakeRaw p of Inl _ \<Rightarrow> [] | Inr raw \<Rightarrow> raw)"

definition ex_rrq :: read_write_packet where
  "ex_rrq = ex_request RRQ ''hello'' [ex_option ''blksize'' ''8'']"

lemma ex_rrq_wf: "wf_request ex_rrq"
  by code_simp

lemma ex_parse: "wf_request p \<Longrightarrow> ReadWritePacket_ctor_raw (ex_raw p) = Inr p"
  using request_codec.roundtrip [of p] by (auto simp: ex_raw_def)

end
