(* ===== verification/Logger.thy ===== *)
theory Logger
  imports OptionPackets Udp
begin

text \<open>
  src/common/logger.h, and \<open>LogPotentialTftpPacket\<close>, which the server's and the client's class have
  in the same form: the line that is printed on the standard error for every packet that is
  received. A function returns the text it prints. Nothing of the state depends on it, so the
  programs are modelled without it. The messages of the exceptions (\<open>what\<close>) and the lines the two
  programs print for an exception that ends a session or the client are here too. \<open>inet_ntoa\<close> is the dotted decimal form of an address; the
  result of \<open>getsockname\<close> in \<open>GetLocalPort\<close> is a parameter.
\<close>

section \<open>The lines\<close>

definition inet_ntoa :: "32 word \<Rightarrow> string" where
  "inet_ntoa a = to_string (uint a div 2 ^ 24) @ ''.'' @ to_string (uint a div 2 ^ 16 mod 2 ^ 8) @ ''.''
     @ to_string (uint a div 2 ^ 8 mod 2 ^ 8) @ ''.'' @ to_string (uint a mod 2 ^ 8)"

definition endl :: string where "endl = [char_of (10 :: nat)]"

definition Log :: "string \<Rightarrow> string" where
  "Log message = message @ endl"

definition Log_where :: "string \<Rightarrow> string \<Rightarrow> string" where
  "Log_where w message = w @ '': '' @ message @ endl"

fun log_options :: "tftp_option list \<Rightarrow> string" where
  "log_options [] = []"
| "log_options (opt # options) = '' '' @ opt_nameStr opt @ ''='' @ opt_value opt @ log_options options"

definition LogRRQ :: "sockaddr \<Rightarrow> read_write_packet \<Rightarrow> string" where
  "LogRRQ src rrq = ''RRQ '' @ inet_ntoa (sin_addr src) @ '':'' @ to_string (uint (sin_port src))
     @ '' \"'' @ rw_filepath rrq @ ''\" '' @ ModeToString (rw_mode rrq)
     @ log_options (rw_options rrq) @ endl"

definition logWRQ :: "sockaddr \<Rightarrow> read_write_packet \<Rightarrow> string" where
  "logWRQ src wrq = ''WRQ '' @ inet_ntoa (sin_addr src) @ '':'' @ to_string (uint (sin_port src))
     @ '' \"'' @ rw_filepath wrq @ ''\" '' @ ModeToString (rw_mode wrq)
     @ log_options (rw_options wrq) @ endl"

definition logACK :: "sockaddr \<Rightarrow> ack_packet \<Rightarrow> string" where
  "logACK src ack = ''ACK '' @ inet_ntoa (sin_addr src) @ '':'' @ to_string (uint (sin_port src))
     @ '' '' @ to_string (uint (ap_block_number ack)) @ endl"

definition logOACK :: "sockaddr \<Rightarrow> oack_packet \<Rightarrow> string" where
  "logOACK src oack = ''OACK '' @ inet_ntoa (sin_addr src) @ '':'' @ to_string (uint (sin_port src))
     @ log_options (oa_options oack) @ endl"

definition logDATA :: "sockaddr \<Rightarrow> int \<Rightarrow> data_packet \<Rightarrow> string" where
  "logDATA src dst_port data = ''DATA '' @ inet_ntoa (sin_addr src) @ '':'' @ to_string (uint (sin_port src))
     @ '':'' @ to_string dst_port @ '' '' @ to_string (uint (dp_block_number data)) @ endl"

definition logERROR :: "sockaddr \<Rightarrow> int \<Rightarrow> error_packet \<Rightarrow> string" where
  "logERROR src dst_port err = ''ERROR '' @ inet_ntoa (sin_addr src) @ '':'' @ to_string (uint (sin_port src))
     @ '':'' @ to_string dst_port @ '' '' @ to_string (int (error_num (ep_error_code err)))
     @ '' \"'' @ ep_error_message err @ ''\"'' @ endl"

section \<open>LogPotentialTftpPacket\<close>

definition GetLocalPort :: "(16 word) option \<Rightarrow> exn + 16 word" where
  "GetLocalPort getsockname = (case getsockname of
     None \<Rightarrow> Inl (UdpException ''Error: Failed to get local port'') | Some port \<Rightarrow> Inr port)"

text \<open>The lines printed for a packet; an exception ends it with nothing printed.\<close>

definition log_packet :: "sockaddr \<Rightarrow> (16 word) option \<Rightarrow> int \<Rightarrow> bytes \<Rightarrow> exn + string" where
  "log_packet sender getsockname blk buffer =
     (case GetOpcodeFromRaw buffer of
        Inl e \<Rightarrow> Inl e
      | Inr RRQ \<Rightarrow> map_sum id (LogRRQ sender) (ReadWritePacket_ctor_raw buffer)
      | Inr WRQ \<Rightarrow> map_sum id (logWRQ sender) (ReadWritePacket_ctor_raw buffer)
      | Inr DATA \<Rightarrow>
          (case GetLocalPort getsockname of
             Inl e \<Rightarrow> Inl e
           | Inr port \<Rightarrow> map_sum id (logDATA sender (uint port)) (DataPacket_ctor_raw buffer blk))
      | Inr ACK \<Rightarrow> map_sum id (logACK sender) (AckPacket_ctor_raw buffer)
      | Inr ERROR \<Rightarrow>
          (case GetLocalPort getsockname of
             Inl e \<Rightarrow> Inl e
           | Inr port \<Rightarrow> map_sum id (logERROR sender (uint port)) (ErrorPacket_ctor_raw buffer))
      | Inr OACK \<Rightarrow> map_sum id (logOACK sender) (OackPacket_ctor_raw buffer))"

definition LogPotentialTftpPacket :: "sockaddr \<Rightarrow> (16 word) option \<Rightarrow> int \<Rightarrow> bytes \<Rightarrow> string" where
  "LogPotentialTftpPacket sender getsockname blk buffer =
     (case log_packet sender getsockname blk buffer of Inl _ \<Rightarrow> [] | Inr l \<Rightarrow> l)"

section \<open>Messages of exceptions\<close>

text \<open>
  \<open>what()\<close> of the other exception classes. Two of the file exceptions are given
  \<open>file_.getloc().name()\<close>, which is the name of the locale, not of the file; the programs never change
  the locale, so it is C.
\<close>

definition locale_name :: string where "locale_name = ''C''"

fun file_what :: "exn \<Rightarrow> string option" where
  "file_what (FailedToOpenFileException filename) = Some (''Error: Failed to open file '' @ filename)"
| "file_what FailedToWriteToFileException = Some (''Error: Failed to write to file '' @ locale_name)"
| "file_what FailedToReadFromFileException = Some (''Error: Failed to read from file '' @ locale_name)"
| "file_what (FileDoesNotExistException filename) = Some (''Error: File '' @ filename @ '' does not exist'')"
| "file_what NotEnoughSpaceException = Some ''Error: Not enough space''"
| "file_what _ = None"

fun udp_what :: "exn \<Rightarrow> string option" where
  "udp_what (UdpException message) = Some message"
| "udp_what UdpTimeoutException = Some ''Error: Timeout''"
| "udp_what UdpSigintException = Some ''Error: SIGINT''"
| "udp_what _ = None"

fun option_what :: "exn \<Rightarrow> string option" where
  "option_what UnsupportedOptionException = Some ''Unsupported option''"
| "option_what (InvalidOptionValueException option_name option_value) =
     Some (''Invalid value for option '' @ option_name @ '': '' @ option_value)"
| "option_what _ = None"

fun stdin_what :: "exn \<Rightarrow> string option" where
  "stdin_what FailedToReadFromStdinException = Some ''Failed to read from stdin''"
| "stdin_what _ = None"

fun received_what :: "exn \<Rightarrow> string option" where
  "received_what (RecievedErrorPacketException error_message) = Some error_message"
| "received_what _ = None"

text \<open>The message of an exception; the text of the standard library's own is the parameter \<open>std\<close>.\<close>

definition library_exn :: "exn \<Rightarrow> bool" where
  "library_exn e \<longleftrightarrow> e = StdInvalidArgument \<or> e = StdOutOfRange \<or> e = FilesystemError"

definition what :: "(exn \<Rightarrow> string) \<Rightarrow> exn \<Rightarrow> string" where
  "what std e =
     (case (file_what e, udp_what e, option_what e, stdin_what e, received_what e) of
        (Some m, _, _, _, _) \<Rightarrow> m
      | (None, Some m, _, _, _) \<Rightarrow> m
      | (None, None, Some m, _, _) \<Rightarrow> m
      | (None, None, None, Some m, _) \<Rightarrow> m
      | (None, None, None, None, Some m) \<Rightarrow> m
      | (None, None, None, None, None) \<Rightarrow> if library_exn e then std e else tftp_what e)"

text \<open>
  What a thread of the server prints when its session has ended with \<open>r\<close>, and what \<open>main\<close> of the
  client and of the server print on the standard error.
\<close>

definition thread_message :: "(exn \<Rightarrow> string) \<Rightarrow> unit outcome \<Rightarrow> string" where
  "thread_message std r = (case r of Inl (Raise e) \<Rightarrow> Log (what std e) | _ \<Rightarrow> [])"

definition client_message :: "(exn \<Rightarrow> string) \<Rightarrow> unit outcome \<Rightarrow> string" where
  "client_message std r = (case r of Inl (Raise e) \<Rightarrow> what std e @ endl | _ \<Rightarrow> [])"

section \<open>Facts\<close>

text \<open>The line of a packet that has been read.\<close>

fun packet_line :: "sockaddr \<Rightarrow> 16 word \<Rightarrow> tftp_packet \<Rightarrow> string" where
  "packet_line src port (RW_Packet p) = (if rw_opcode p = RRQ then LogRRQ src p else logWRQ src p)"
| "packet_line src port (Data_Packet p) = logDATA src (uint port) p"
| "packet_line src port (Ack_Packet p) = logACK src p"
| "packet_line src port (Error_Packet p) = logERROR src (uint port) p"
| "packet_line src port (Oack_Packet p) = logOACK src p"

text \<open>The block number of a DATA packet does not depend on the block size.\<close>

lemma DataPacket_ctor_raw_number:
  assumes "0 \<le> blk" "blk < 2 ^ 32" "0 \<le> blk'" "blk' < 2 ^ 32"
  shows "map_sum id dp_block_number (DataPacket_ctor_raw raw blk) = map_sum id dp_block_number (DataPacket_ctor_raw raw blk')"
proof -
  have "nat ((2 + 2 + b) mod 2 ^ 64) = 4 + nat b" if "0 \<le> b" "b < 2 ^ 32" for b :: int
    using that by (simp add: nat_add_distrib)
  then have l: "take 2 (drop 2 (if length raw > nat ((2 + 2 + b) mod 2 ^ 64) then take (nat ((2 + 2 + b) mod 2 ^ 64)) raw else raw))
      = take 2 (drop 2 raw)" if "0 \<le> b" "b < 2 ^ 32" for b :: int
    using that by (simp add: drop_take numeral_2_eq_2)
  show ?thesis
    unfolding DataPacket_ctor_raw_def Let_def l [OF assms(1,2)] l [OF assms(3,4)]
    by (simp split: sum.split)
qed

lemma logDATA_number: "dp_block_number p = dp_block_number q \<Longrightarrow> logDATA src port p = logDATA src port q"
  by (simp add: logDATA_def)

lemma log_packet_factory:
  assumes "0 \<le> blk" "blk < 2 ^ 32"
  shows "log_packet src (Some port) blk b = map_sum id (packet_line src port) (CreatePacket b)"
proof (cases "GetOpcodeFromRaw b")
  case (Inr opc)
  show ?thesis
  proof (cases opc)
    case DATA
    with Inr show ?thesis
      using DataPacket_ctor_raw_number [OF assms, of 512 b]
      by (cases "DataPacket_ctor_raw b blk"; cases "DataPacket_ctor_raw b 512")
        (auto simp: log_packet_def CreatePacket_def GetLocalPort_def intro: logDATA_number)
  next
    case RRQ
    with Inr show ?thesis
      by (cases "ReadWritePacket_ctor_raw b")
        (auto simp: log_packet_def CreatePacket_def dest: ReadWritePacket_ctor_raw_opcode)
  next
    case WRQ
    with Inr show ?thesis
      by (cases "ReadWritePacket_ctor_raw b")
        (auto simp: log_packet_def CreatePacket_def dest: ReadWritePacket_ctor_raw_opcode)
  next
    case ACK
    with Inr show ?thesis
      by (cases "AckPacket_ctor_raw b") (simp_all add: log_packet_def CreatePacket_def)
  next
    case ERROR
    with Inr show ?thesis
      by (cases "ErrorPacket_ctor_raw b") (simp_all add: log_packet_def CreatePacket_def GetLocalPort_def)
  next
    case OACK
    with Inr show ?thesis
      by (cases "OackPacket_ctor_raw b") (simp_all add: log_packet_def CreatePacket_def)
  qed
qed (simp add: log_packet_def CreatePacket_def)

end
