(* ===== verification/PacketProperties.thy ===== *)
theory PacketProperties
  imports Examples Logger
begin

text \<open>
  The properties of the data formats (packets, options, NETASCII), of the paths and of the
  block reader, with the concrete inputs they are applied at.
\<close>

section \<open>Packets\<close>

text \<open>
  C17. Every well-formed packet, of any of the six kinds, is serialised, the packet factory
  reads the bytes back as the same packet, and the opcode of the bytes is the packet's.
\<close>

theorem packet_roundtrip:
  assumes "wf_packet p"
  shows "\<exists>raw. MakeRaw p = Inr raw \<and> CreatePacket raw = Inr p
    \<and> GetOpcodeFromRaw raw = Inr (packet_opcode p)"
  using factory_codec.roundtrip [OF assms] factory_codec.enc_opcode [OF assms] by blast

theorem packet_roundtrip_witness:
  "\<exists>raw. MakeRaw (RW_Packet ex_rrq) = Inr raw \<and> CreatePacket raw = Inr (RW_Packet ex_rrq)
    \<and> GetOpcodeFromRaw raw = Inr (packet_opcode (RW_Packet ex_rrq))"
  by (rule packet_roundtrip) (simp add: ex_rrq_wf)

text \<open>
  Two well-formed packets with the same bytes are the same packet, whatever their kinds:
  no datagram has two readings.
\<close>

theorem packets_unambiguous:
  assumes "wf_packet p" "wf_packet q" "MakeRaw p = MakeRaw q"
  shows "p = q"
  using factory_codec.enc_inject [OF assms] .

theorem packets_unambiguous_witness:
  "Ack_Packet (AckPacket 7) = Ack_Packet (AckPacket (3 + 4))"
  by (rule packets_unambiguous) simp_all

text \<open>
  C31. What the server knows of any request it accepted, whatever the bytes were: the opcode is
  RRQ or WRQ, the file name has no NUL, no option name occurs twice, every option is valid, and
  the block size the session uses lies between 8 and 65464.
\<close>

theorem accepted_request:
  assumes "ReadWritePacket_ctor_raw raw = Inr p"
  shows "(rw_opcode p = RRQ \<or> rw_opcode p = WRQ) \<and> nul_free (rw_filepath p)
    \<and> distinct (map opt_name (rw_options p)) \<and> (\<forall>opt \<in> set (rw_options p). valid_option opt)
    \<and> 8 \<le> request_bs p \<and> request_bs p \<le> 65464"
  using ReadWritePacket_ctor_raw_wf [OF assms] request_bs_range [OF assms]
  by (auto simp: wire_options_def wire_option_def)

theorem accepted_request_witness:
  "(rw_opcode ex_rrq = RRQ \<or> rw_opcode ex_rrq = WRQ) \<and> nul_free (rw_filepath ex_rrq)
    \<and> distinct (map opt_name (rw_options ex_rrq)) \<and> list_all valid_option (rw_options ex_rrq)
    \<and> 8 \<le> request_bs ex_rrq \<and> request_bs ex_rrq \<le> 65464"
  using accepted_request [OF ex_parse [OF ex_rrq_wf]] by (simp add: list_all_iff)

text \<open>
  A DATA datagram is accepted exactly when it has the DATA opcode and a block number; the
  packet then has the big-endian block number of the third and fourth byte and the payload cut
  to the block size of the session.
\<close>

theorem data_packet_accepted:
  assumes "0 \<le> blk" "blk < 2 ^ 32"
  shows "DataPacket_ctor_raw raw blk = Inr p \<longleftrightarrow>
    (\<exists>hi lo d. raw = opcode_bytes DATA @ hi # lo # d
       \<and> p = \<lparr>dp_block_number = be16 hi lo, dp_data = take (nat blk) d\<rparr>)"
proof
  assume a: "DataPacket_ctor_raw raw blk = Inr p"
  then obtain r where r: "raw = opcode_bytes DATA @ r"
    using DataPacket_ctor_raw_opcode GetOpcodeFromRaw_Inr by blast
  with a have "2 \<le> length r" by (simp add: DataPacket_ctor_raw_def split: if_splits)
  then obtain hi lo d where d: "r = hi # lo # d" by (cases r; cases "tl r") auto
  have m: "raw = DataPacket_MakeRaw \<lparr>dp_block_number = be16 hi lo, dp_data = d\<rparr>"
    by (simp add: r d DataPacket_MakeRaw_def)
  have "p = \<lparr>dp_block_number = be16 hi lo, dp_data = take (nat blk) d\<rparr>"
    using a unfolding m DataPacket_ctor_raw_MakeRaw [OF assms] by simp
  with r d show "\<exists>hi lo d. raw = opcode_bytes DATA @ hi # lo # d
      \<and> p = \<lparr>dp_block_number = be16 hi lo, dp_data = take (nat blk) d\<rparr>" by blast
next
  assume "\<exists>hi lo d. raw = opcode_bytes DATA @ hi # lo # d
      \<and> p = \<lparr>dp_block_number = be16 hi lo, dp_data = take (nat blk) d\<rparr>"
  then obtain hi lo d where "raw = DataPacket_MakeRaw \<lparr>dp_block_number = be16 hi lo, dp_data = d\<rparr>"
    "p = \<lparr>dp_block_number = be16 hi lo, dp_data = take (nat blk) d\<rparr>"
    by (auto simp: DataPacket_MakeRaw_def)
  then show "DataPacket_ctor_raw raw blk = Inr p" using DataPacket_ctor_raw_MakeRaw [OF assms] by simp
qed

theorem data_packet_accepted_witness:
  "DataPacket_ctor_raw [0, 3, 1, 2, 65, 66, 67] 2
     = Inr \<lparr>dp_block_number = 258, dp_data = [65, 66]\<rparr>"
  unfolding data_packet_accepted [of 2, simplified]
  by (rule exI [of _ 1], rule exI [of _ 2], rule exI [of _ "[65, 66, 67]"])
    (simp add: opcode_bytes_def opcode_num_def be16_def)

text \<open>
  C32. The option constructor accepts a value exactly when it is in the range of the option:
  8 to 65464 for blksize, 1 to 255 for timeout, any unsigned 64-bit number for tsize; names are
  compared without regard to case, and an option with another name is accepted as it is.
\<close>

theorem option_validation:
  "(\<exists>opt. Option_ctor name v = Inr opt) \<longleftrightarrow> valid_value (parse_opt_name (map tolower name)) v"
  using check_opt_value_ok [of "parse_opt_name (map tolower name)" v]
  by (auto simp: Option_ctor_def Let_def split: sum.splits)

section \<open>NETASCII\<close>

text \<open>
  C33. Encoding always gives NETASCII (no bare CR or LF), decoding what was encoded gives the
  text back with CR LF read as LF, and encoding what was decoded from NETASCII gives it back
  byte for byte.
\<close>

theorem netascii_roundtrip:
  "netascii_wf (FormatToNETASCII d) \<and> FormatFromNETASCII (FormatToNETASCII d) = crlf_to_lf d
   \<and> (netascii_wf e \<longrightarrow> no_crlf (FormatFromNETASCII e) \<longrightarrow>
        FormatToNETASCII (FormatFromNETASCII e) = e)"
  using FormatToNETASCII_wf FormatFrom_FormatTo FormatTo_FormatFrom by blast

theorem netascii_roundtrip_witness:
  "FormatToNETASCII (FormatFromNETASCII [65, CR, LF, 66, CR, NUL]) = [65, CR, LF, 66, CR, NUL]"
  using netascii_roundtrip [of "[]" "[65, CR, LF, 66, CR, NUL]"] by (simp add: netascii_bytes)

section \<open>Paths\<close>

text \<open>
  A path that passes the directory check is below the directory: its canonical form
  extends the directory's, so no sequence of \<open>..\<close> or symbolic link leads out of it.
\<close>

theorem path_check_sound:
  assumes "isFilePathUnderDirectory fs f d = Some True"
  shows "\<exists>r. canonical_of fs f = canonical_of fs d @ r"
  using isFilePathUnderDirectory_sound [OF assms] .

theorem path_check_sound_witness:
  "\<exists>r. canonical_of ex_fs ''/srv/hello'' = canonical_of ex_fs ''/srv'' @ r"
  by (rule path_check_sound) code_simp

section \<open>The log\<close>




end
