(* ===== verification/ServerProperties.thy ===== *)
theory ServerProperties
  imports Examples
begin

text \<open>
  The properties of a session of the server, with the concrete sessions they are applied at.
\<close>

section \<open>Inputs\<close>

lemma ex_session_simps [simp]:
  "fsys (ex_session evs) = ex_fs" "inbox (ex_session evs) = evs" "outbox (ex_session evs) = []"
  "blksize (ex_session evs) = 512" "root_dirpath (ex_session evs) = ''/srv''"
  "client_address (ex_session evs) = ex_client" "sigint_at (ex_session evs) = None"
  "maxPacketSize (ex_session evs) = 65500"
  by (simp_all add: ex_session_def ClientHandler_ctor_def ex_world_def)

lemma ex_rrq_mode: "rw_mode ex_rrq = OCTET"
  by (simp add: ex_rrq_def ex_request_def)

lemma ex_rrq_bs: "request_bs ex_rrq = 8"
  by code_simp

lemma ex_request_path [simp]: "request_path (ex_session evs) (ex_request opc f opts) = ''/srv/'' @ f"
  by (simp add: request_path_def ex_request_def)

lemma ex_readable: "readable (ex_session evs) (request_path (ex_session evs) ex_rrq) ex_content"
proof -
  have "isFilePathUnderDirectory ex_fs ''/srv/hello'' ''/srv'' = Some True" by code_simp
  moreover have "canonical_of ex_fs ''/srv/hello'' = [''srv'', ''hello'']" by code_simp
  ultimately show ?thesis by (simp add: ex_rrq_def readable_def) (simp add: ex_fs_def)
qed

section \<open>Read requests\<close>

text \<open>
  C1. A read request for a file of the root directory, under any behaviour of the network
  (loss, duplication, reordering, foreign senders, timeouts, SIGINT): the client is sent the
  OACK of its options, if it sent any, and then DATA packets that are the first blocks of the
  file, numbered from 1, each one once and in order; block \<open>k\<close> is sent only after the ACKs of
  the OACK and of the blocks 1 to \<open>k - 1\<close> were received in this order. When the handler
  returns all blocks have been sent, when it stops the only thing that can follow is the ERROR
  packet of an interruption.
\<close>

theorem rrq_transfer_in_order:
  assumes "ReadWritePacket_ctor_raw raw = Inr p" "rw_mode p = OCTET"
    and "readable s (request_path s p) c" "blksize s = 512"
  shows "wlp (FollowOnRRQ raw) (rrq_outcome s p c) s"
  using FollowOnRRQ_octet [OF assms] .

theorem rrq_transfer_in_order_witness:
  "wlp (FollowOnRRQ (ex_raw ex_rrq)) (rrq_outcome (ex_session [RecvTimeout]) ex_rrq ex_content)
     (ex_session [RecvTimeout])"
  by (rule rrq_transfer_in_order [OF ex_parse [OF ex_rrq_wf] ex_rrq_mode ex_readable]) simp

text \<open>
  C14. With a client that acknowledges the OACK and every block, and no interruption, a read
  request (without tsize) of a file of fewer than 65536 blocks completes, even though before each
  acknowledgement up to four receives time out or bring a datagram of a stranger, an earlier
  acknowledgement or the request once more: the handler returns, the OACK and all blocks of the
  file have been sent to the client, in order, each of them once, and nothing else.
\<close>

theorem rrq_completes:
  assumes "ReadWritePacket_ctor_raw raw = Inr p" "rw_mode p = OCTET"
    and "readable s (request_path s p) c" "blksize s = 512"
    and "\<forall>opt \<in> set (rw_options p). opt_name opt \<noteq> TSIZE"
    and "sigint_at s = None" "4 \<le> maxPacketSize s"
    and "arrives (client_address s) (acks_due (maxPacketSize s) (rw_options p)
           (int (length (blocks (nat (request_bs p)) c)))) 0 rest (inbox s)"
    and "length (blocks (nat (request_bs p)) c) < 65536"
  shows "\<exists>s'. FollowOnRRQ raw s = Some (Inr (), s') \<and> inbox s' = rest
     \<and> sent_to (client_address s) (outbox s') = sent_to (client_address s) (outbox s)
         @ (if rw_options p = [] then [] else [oack_raw (rw_options p)])
         @ data_raws 1 (blocks (nat (request_bs p)) c)"
  using FollowOnRRQ_cooperative [OF assms] .

lemma ex_blocks: "blocks 8 ex_content = [[104, 101, 108, 108, 111, 32, 119, 111], [114, 108, 100]]"
  by (simp add: ex_content_def blocks.simps)

definition ex_stranger :: sockaddr where
  "ex_stranger = \<lparr>sin_addr = 0x7F000001, sin_port = 6666\<rparr>"

definition ex_coop :: client_handler where
  "ex_coop = ex_session [RecvTimeout, Datagram ex_client (ex_raw ex_rrq), ack_dgram ex_client 0,
     Datagram ex_stranger [1, 2, 3], ack_dgram ex_client 1,
     ack_dgram ex_client 1, RecvTimeout, ack_dgram ex_client 2]"

lemma ex_coop_arrives:
  "arrives ex_client (acks_due 65500 (rw_options ex_rrq) 2) 0 [] (inbox ex_coop)"
proof -
  have o: "rw_options ex_rrq \<noteq> []" "length (ex_raw ex_rrq) \<le> 100" "GetOpcodeFromRaw (ex_raw ex_rrq) = Inr RRQ"
    by code_simp+
  have a: "ex_stranger \<noteq> ex_client" by (simp add: ex_stranger_def ex_client_def)
  have "[1..2] = [1, 2 :: int]" by (simp add: upto.simps)
  with o a show ?thesis
    by (simp add: acks_due_def ex_coop_def oack_ack_due_def ack_due_def ack_dgram_def stale_ack_def AckPacket_def
        MAX_RETRIES_def)
qed

theorem rrq_completes_witness:
  "\<exists>s'. FollowOnRRQ (ex_raw ex_rrq) ex_coop = Some (Inr (), s') \<and> inbox s' = []
     \<and> sent_to ex_client (outbox s') =
         oack_raw (rw_options ex_rrq) # data_raws 1 (blocks 8 ex_content)"
proof -
  have o: "rw_options ex_rrq \<noteq> []" "\<forall>opt \<in> set (rw_options ex_rrq). opt_name opt \<noteq> TSIZE"
    by code_simp+
  show ?thesis
    using rrq_completes [OF ex_parse [OF ex_rrq_wf] ex_rrq_mode ex_readable _ o(2), of _ "[]"] o(1)
      ex_coop_arrives
    by (simp add: ex_coop_def ex_rrq_bs ex_blocks)
qed

text \<open>
  C26. A file of more than 65536 blocks is never transferred completely: the handler cannot
  return, because block numbers are 16 bits wide on the wire and the server does not let them
  wrap around.
\<close>

theorem rrq_block_limit:
  assumes "ReadWritePacket_ctor_raw raw = Inr p" "rw_mode p = OCTET"
    and "readable s (request_path s p) c" "blksize s = 512"
    and big: "65536 * request_bs p \<le> int (length c)"
  shows "wlp (FollowOnRRQ raw) (\<lambda>r s'. \<exists>e. r = Inl e) s"
proof (rule wlp_mono [OF FollowOnRRQ_octet [OF assms(1-4)]], goal_cases)
  case (1 r s')
  let ?n = "nat (request_bs p)"
  have n: "0 < ?n" using request_bs_range [OF assms(1)] by simp
  have "65536 * ?n \<le> length c" using big request_bs_range [OF assms(1)] by simp
  then have "65536 \<le> length c div ?n" using n div_le_mono [of "65536 * ?n" "length c" ?n] by simp
  then have len: "65537 \<le> length (blocks ?n c)" using length_blocks [OF n, of c] by simp
  show ?case
  proof (cases r)
    case (Inr x)
    with 1 obtain a0 where
      "acked (client s) s (a0 @ [1..int (length (blocks ?n c)) - 1]) s'"
      using len by (auto simp: rrq_outcome_def served_def)
    then have "int (length (blocks ?n c)) - 1 < 65536"
      using len by (auto dest: acked_range [where n = "int (length (blocks ?n c)) - 1"])
    with len show ?thesis by simp
  qed simp
qed

definition ex_big_content :: bytes where
  "ex_big_content = replicate 524288 0"

lemma length_ex_big_content: "length ex_big_content = 524288"
  by (simp only: ex_big_content_def length_replicate)

definition ex_big :: client_handler where
  "ex_big = (ex_session [])\<lparr>fsys := ex_fs\<lparr>nodes := (nodes ex_fs)
     ([''srv'', ''hello''] \<mapsto> FileN ex_big_content)\<rparr>\<rparr>"

theorem rrq_block_limit_witness:
  "wlp (FollowOnRRQ (ex_raw ex_rrq)) (\<lambda>r s'. \<exists>e. r = Inl e) ex_big"
proof -
  have b: "isFilePathUnderDirectory ex_fs ''/srv/hello'' ''/srv'' = Some True"
    "canonical_of ex_fs ''/srv/hello'' = [''srv'', ''hello'']" "may_open ex_fs = (\<lambda>_. True)"
    by (code_simp, code_simp, simp add: ex_fs_def)
  have "readable ex_big (request_path ex_big ex_rrq) ex_big_content"
    using b by (simp add: ex_big_def readable_def request_path_def ex_rrq_def ex_request_def
        isFilePathUnderDirectory_def)
  from rrq_block_limit [OF ex_parse [OF ex_rrq_wf] ex_rrq_mode this] show ?thesis
    by (simp add: ex_rrq_bs ex_big_def length_ex_big_content)
qed

text \<open>
  C27. A read request with the tsize option of a file whose size is exactly one block never ends:
  the loop that measures the file goes on for ever, and the client gets no answer.
\<close>

theorem rrq_tsize_diverges:
  assumes "ReadWritePacket_ctor_raw raw = Inr p" "rw_mode p = OCTET"
    and "readable s (request_path s p) c" "blksize s = 512"
    and "\<exists>opt \<in> set (rw_options p). opt_name opt = TSIZE" "int_tsize (rw_options p)"
    and "int (length c) = request_bs p"
  shows "FollowOnRRQ raw s = None"
  using FollowOnRRQ_diverges [OF assms] .

definition ex_tsize :: read_write_packet where
  "ex_tsize = ex_request RRQ ''eight'' [ex_option ''blksize'' ''8'', ex_option ''tsize'' ''0'']"

theorem rrq_tsize_diverges_witness:
  "FollowOnRRQ (ex_raw ex_tsize) (ex_session []) = None"
proof -
  have wf: "wf_request ex_tsize" "rw_mode ex_tsize = OCTET" "request_bs ex_tsize = 8"
    "\<exists>opt \<in> set (rw_options ex_tsize). opt_name opt = TSIZE" by code_simp+
  have t: "int_tsize (rw_options ex_tsize)"
  proof -
    have "stoi ''0'' = Inr 0" by code_simp
    moreover have "opt_name (ex_option ''blksize'' ''8'') = BLKSIZE" by code_simp
    ultimately show ?thesis by (simp add: int_tsize_def ex_tsize_def ex_request_def ex_option_def)
  qed
  have b: "isFilePathUnderDirectory ex_fs ''/srv/eight'' ''/srv'' = Some True"
    "canonical_of ex_fs ''/srv/eight'' = [''srv'', ''eight'']" by code_simp+
  have "readable (ex_session []) (request_path (ex_session []) ex_tsize) [1, 2, 3, 4, 5, 6, 7, 8]"
    using b by (simp add: ex_tsize_def readable_def) (simp add: ex_fs_def)
  from rrq_tsize_diverges [OF ex_parse [OF wf(1)] wf(2) this _ wf(4) t] wf(3) show ?thesis by simp
qed

text \<open>
  The measuring loop, on a readable file in OCTET mode: it returns if and only if the file
  is not exactly one block long.
\<close>

theorem tsize_loop_returns_iff:
  assumes "reader_good (Reader_ctor f DF_OCTET (uninit s)) s" "0 < blksize s" "blksize s < 2 ^ 32"
  shows "returns (tsize_loop f DF_OCTET) s \<longleftrightarrow>
    int (length (reader_left (Reader_ctor f DF_OCTET (uninit s)) s)) \<noteq> blksize s"
  using tsize_loop_None_iff [OF assms] by (simp add: returns_def)

theorem tsize_loop_returns_iff_witness:
  "returns (tsize_loop ''/srv/hello'' DF_OCTET) (ex_session [])"
proof -
  have c: "canonical_of ex_fs ''/srv/hello'' = [''srv'', ''hello'']" by code_simp
  show ?thesis
    by (subst tsize_loop_returns_iff)
      (simp_all add: Reader_ctor_def reader_good_def reader_left_def FileExists_def c,
       simp_all add: ex_fs_def ex_content_def)
qed



section \<open>Write requests\<close>

text \<open>
  C2. A write request in OCTET mode, under any behaviour of the network: no path but the one the
  request names is touched; either the request is refused, and nothing is sent or changed, or
  the path is a new one below the root directory, and there are blocks that the client sent as
  DATA packets 1, 2, .. in this order such that every answer is the first answer or the ACK of
  one of them, never going back, and none but the last block is left without its ACK. When the handler returns, the file holds exactly these
  blocks, all but the last are full, the last is short, and the last answer is its ACK.
\<close>

theorem wrq_transfer:
  assumes "ReadWritePacket_ctor_raw raw = Inr p" "rw_mode p = OCTET" "blksize s = 512"
  shows "wlp (FollowOnWRQ raw) (wrq_outcome s p) s"
  using FollowOnWRQ_octet [OF assms] .

definition ex_wrq :: read_write_packet where
  "ex_wrq = ex_request WRQ ''upload'' []"

lemma ex_wrq_facts: "wf_request ex_wrq" "rw_mode ex_wrq = OCTET"
  by code_simp+

theorem wrq_transfer_witness:
  "wlp (FollowOnWRQ (ex_raw ex_wrq)) (wrq_outcome (ex_session [RecvFailure]) ex_wrq) (ex_session [RecvFailure])"
  by (rule wrq_transfer [OF ex_parse [OF ex_wrq_facts(1)] ex_wrq_facts(2)]) simp


section \<open>Errors\<close>



text \<open>
  C19. The three refusals, exactly: a read request for a file that does not exist is answered with
  ERROR 1, a request whose path leaves the root directory with ERROR 2, a write request for a
  file that exists with ERROR 6. Nothing else is sent, and the file system stays as it is.
\<close>

definition refusal :: "client_handler \<Rightarrow> bytes \<Rightarrow> ErrorCode \<Rightarrow> exn \<Rightarrow> bool" where
  "refusal s raw code e \<longleftrightarrow> (\<exists>s'. FollowOnIntroPacket raw s = Some (Inl (Raise e), s')
     \<and> outbox s' = outbox s @ [(client_address s, error_raw code e)] \<and> fsys s' = fsys s)"

theorem refused_requests:
  assumes p: "ReadWritePacket_ctor_raw raw = Inr p"
    and e: "ex = FileExists (fsys s) (request_path s p)"
    and i: "inside = isFilePathUnderDirectory (fsys s) (request_path s p) (root_dirpath s)"
  shows "(rw_opcode p = RRQ \<and> \<not> ex \<longrightarrow> refusal s raw FILE_NOT_FOUND
            (TFTPFileNotFoundError (''File does not exist: '' @ rw_filepath p)))
    \<and> (rw_opcode p = RRQ \<and> ex \<and> inside = Some False \<longrightarrow>
            refusal s raw ACCESS_VIOLATION TFTPAccessViolationError)
    \<and> (rw_opcode p = WRQ \<and> ex \<longrightarrow> refusal s raw FILE_ALREADY_EXISTS
            (TFTPFileAlreadyExistsError (''File already exists: '' @ rw_filepath p)))
    \<and> (rw_opcode p = WRQ \<and> \<not> ex \<and> inside = Some False \<longrightarrow>
            refusal s raw ACCESS_VIOLATION TFTPAccessViolationError)"
proof -
  have opc: "GetOpcodeFromRaw raw = Inr (rw_opcode p)" using ReadWritePacket_ctor_raw_opcode [OF p] .
  have r: "refusal s raw code x"
    if "handler_of (rw_opcode p) raw s = Some (Inl (Raise x), s\<lparr>the_writer := w\<rparr>)"
      "error_code_of x = Some code" for code x w
    using FollowOnIntroPacket_result [OF opc that(1)] that(2) by (simp add: refusal_def)
  have w: "s\<lparr>the_writer := the_writer s\<rparr> = s" by simp
  show ?thesis
  proof (intro conjI impI; elim conjE)
    assume a: "rw_opcode p = RRQ" "\<not> ex"
    show "refusal s raw FILE_NOT_FOUND
        (TFTPFileNotFoundError (''File does not exist: '' @ rw_filepath p))"
      by (rule r [of _ "the_writer s"])
        (use a e FollowOnRRQ_missing [OF p] in \<open>simp_all add: handler_of_def\<close>)
  next
    assume a: "rw_opcode p = RRQ" "ex" "inside = Some False"
    show "refusal s raw ACCESS_VIOLATION TFTPAccessViolationError"
      by (rule r [of _ "the_writer s"])
        (use a e i FollowOnRRQ_outside [OF p] in \<open>simp_all add: handler_of_def\<close>)
  next
    assume a: "rw_opcode p = WRQ" "ex"
    then obtain w where "FollowOnWRQ raw s = Some (Inl (Raise (TFTPFileAlreadyExistsError
        (''File already exists: '' @ rw_filepath p))), s\<lparr>the_writer := w\<rparr>)"
      using FollowOnWRQ_refused [OF p refl, of s] e by auto
    with a show "refusal s raw FILE_ALREADY_EXISTS
        (TFTPFileAlreadyExistsError (''File already exists: '' @ rw_filepath p))"
      by (intro r [of _ w]) (simp_all add: handler_of_def)
  next
    assume a: "rw_opcode p = WRQ" "\<not> ex" "inside = Some False"
    then obtain w where "FollowOnWRQ raw s = Some (Inl (Raise TFTPAccessViolationError), s\<lparr>the_writer := w\<rparr>)"
      using FollowOnWRQ_refused [OF p refl, of s] e i by auto
    with a show "refusal s raw ACCESS_VIOLATION TFTPAccessViolationError"
      by (intro r [of _ w]) (simp_all add: handler_of_def)
  qed
qed

definition ex_escape :: read_write_packet where
  "ex_escape = ex_request RRQ ''hello'' []"

theorem refused_requests_witness:
  "refusal ((ex_session [])\<lparr>root_dirpath := ''/etc''\<rparr>) (ex_raw ex_escape) FILE_NOT_FOUND
     (TFTPFileNotFoundError (''File does not exist: '' @ rw_filepath ex_escape))"
proof -
  have wf: "wf_request ex_escape" by code_simp
  have c: "canonical_of ex_fs ''/etc/hello'' = [''etc'', ''hello'']" by code_simp
  have "\<not> FileExists ex_fs ''/etc/hello''" unfolding FileExists_def c by (simp add: ex_fs_def)
  moreover have "rw_opcode ex_escape = RRQ" by code_simp
  ultimately show ?thesis
    using refused_requests [OF ex_parse [OF wf] refl refl, of "(ex_session [])\<lparr>root_dirpath := ''/etc''\<rparr>"]
    by (simp add: request_path_def ex_escape_def ex_request_def)
qed

text \<open>
  A name whose second character is a dot, as in \<open>a.txt\<close>, is refused although the file lies in
  the root directory itself.
\<close>

theorem dotted_names_refused:
  assumes "canonical_of fs f = canonical_of fs d @ [[c, CHR ''.''] @ name]"
  shows "isFilePathUnderDirectory fs f d = Some False"
  by (simp add: isFilePathUnderDirectory_def assms lexically_relative_inside)

theorem dotted_names_refused_witness:
  "isFilePathUnderDirectory ex_fs ''/srv/a.txt'' ''/srv'' = Some False"
  by (rule dotted_names_refused [of _ _ _ "CHR ''a''" "''txt''"]) code_simp



end
