(* ===== verification/TftpClient.thy ===== *)
theory TftpClient
  imports Waiting
begin

text \<open>
  src/tftp-client/TftpClient.h, TftpClient.cpp, Write.cpp and Read.cpp: the client. As in the
  server's session, a loop of the source is \<open>while_m\<close> over a named guard and a named body, and
  the local variables a loop changes are the tuple it carries. The address of the server
  (\<open>gethostbyname\<close>) is the parameter \<open>resolve\<close>. \<open>sin_port\<close> is the port number; the byte
  order it has in memory plays no role.
\<close>

section \<open>State\<close>

datatype TftpMode = READ | WRITE

record tftp_client_args =
  arg_hostname :: string
  arg_port :: int
  arg_filepath :: string
  arg_dest_filepath :: string
  arg_mode :: TftpMode
  arg_file_mode :: Mode
  arg_options :: "tftp_option list"

text \<open>\<open>blksize_\<close> is a \<open>uint16_t\<close> here.\<close>

record tftp_client = udp_client +
  args :: tftp_client_args
  server_address :: sockaddr
  cl_blksize :: "16 word"
  cl_timeout :: int

definition set_options :: "tftp_option list \<Rightarrow> (tftp_client, unit) prog" where
  "set_options opts = modify (\<lambda>s. s\<lparr>args := (args s)\<lparr>arg_options := opts\<rparr>\<rparr>)"

text \<open>\<open>blksize_ = stoi(option.value)\<close>\<close>

definition set_blksize :: "tftp_option \<Rightarrow> (tftp_client, unit) prog" where
  "set_blksize option =
     bnd (lift_exn (sto_exn (stoi (opt_value option)))) (\<lambda>n.
     modify (\<lambda>s. s\<lparr>cl_blksize := word_of_int n\<rparr>))"

definition SetupUdpClient :: "(tftp_client, unit) prog" where
  "SetupUdpClient =
     bnd (gets (\<lambda>s. arg_options (args s))) (\<lambda>options.
     for_each options (\<lambda>option. case opt_name option of
         BLKSIZE \<Rightarrow> set_blksize option
       | TIMEOUT \<Rightarrow>
           bnd (lift_exn (sto_exn (stoi (opt_value option)))) (\<lambda>n.
           seq (modify (\<lambda>s. s\<lparr>cl_timeout := n\<rparr>)) (ChangeTimeout n))
       | _ \<Rightarrow> skip))"

text \<open>The object before the body of its constructor runs: the initialisers of the members.\<close>

definition client_members :: "world \<Rightarrow> tftp_client_args \<Rightarrow> tftp_client" where
  "client_members w a =
     \<lparr>inbox = inbox w, outbox = outbox w, sigint_at = sigint_at w, loads = loads w, fsys = fsys w,
      the_writer = the_writer w, std_in = std_in w, uninit = uninit w,
      udp_timeout = default_timeout, so_rcvtimeo = default_timeout, maxPacketSize = 65500,
      args = a, server_address = \<lparr>sin_addr = 0, sin_port = 0\<rparr>, cl_blksize = 512, cl_timeout = 1\<rparr>"

definition TftpClient_ctor :: "bool \<Rightarrow> (string \<Rightarrow> 32 word option) \<Rightarrow> (tftp_client, unit) prog" where
  "TftpClient_ctor socket_ok resolve =
     seq (lift_exn (UdpClient_ctor socket_ok))
    (seq SetupUdpClient
    (bnd (gets args) (\<lambda>a.
     case resolve (arg_hostname a) of
       None \<Rightarrow> throw (UdpException ''Error: Failed to get server address'')
     | Some ip \<Rightarrow> modify (\<lambda>s. s\<lparr>server_address :=
         \<lparr>sin_addr = ip, sin_port = word_of_int (arg_port a)\<rparr>\<rparr>))))"

section \<open>Parts of the two directions\<close>

definition RecievePacketFromServer :: "(tftp_client, bytes) prog" where
  "RecievePacketFromServer = bnd (gets server_address) RecievePacketFrom"

definition send_to_server :: "bytes \<Rightarrow> (tftp_client, unit) prog" where
  "send_to_server d = bnd (gets server_address) (UdpClient_Send d)"

text \<open>One option of an OACK against one option of the client with the same name.\<close>

definition option_agrees :: "tftp_option \<Rightarrow> tftp_option \<Rightarrow> exn + unit" where
  "option_agrees oack_option client_option = (case opt_name oack_option of
     BLKSIZE \<Rightarrow>
       (case sto_exn (stoi (opt_value oack_option)) of
          Inl e \<Rightarrow> Inl e
        | Inr a \<Rightarrow> (case sto_exn (stoi (opt_value client_option)) of
            Inl e \<Rightarrow> Inl e
          | Inr b \<Rightarrow> if a > b then Inl (TFTPIllegalOperationError
              ''Server responded with option 'blksize' with value higher than client requested'')
              else Inr ()))
   | TIMEOUT \<Rightarrow>
       (case sto_exn (stoi (opt_value oack_option)) of
          Inl e \<Rightarrow> Inl e
        | Inr a \<Rightarrow> (case sto_exn (stoi (opt_value client_option)) of
            Inl e \<Rightarrow> Inl e
          | Inr b \<Rightarrow> if a \<noteq> b then Inl (TFTPIllegalOperationError
              ''Server responded with option 'timeout' with value different than client requested'')
              else Inr ()))
   | TSIZE \<Rightarrow>
       (case sto_exn (stoi (opt_value oack_option)) of
          Inl e \<Rightarrow> Inl e
        | Inr a \<Rightarrow> (case sto_exn (stoi (opt_value client_option)) of
            Inl e \<Rightarrow> Inl e
          | Inr b \<Rightarrow> if a \<noteq> b then Inl (TFTPIllegalOperationError
              ''Server responded with option 'tsize' with value different than client requested'')
              else Inr ()))
   | UNSUPPORTED \<Rightarrow>
       Inl (TFTPIllegalOperationError ''Server responded with unsupported option''))"

text \<open>The loop over the client's options; it returns \<open>found\<close>.\<close>

fun check_oack_option :: "tftp_option \<Rightarrow> tftp_option list \<Rightarrow> bool \<Rightarrow> exn + bool" where
  "check_oack_option oack_option [] found = Inr found"
| "check_oack_option oack_option (client_option # client_options) found =
     (if opt_name oack_option = opt_name client_option then
        (case option_agrees oack_option client_option of
           Inl e \<Rightarrow> Inl e
         | Inr _ \<Rightarrow> check_oack_option oack_option client_options True)
      else check_oack_option oack_option client_options found)"

fun ValidateOptionsInOack :: "tftp_option list \<Rightarrow> tftp_option list \<Rightarrow> exn + unit" where
  "ValidateOptionsInOack client_options [] = Inr ()"
| "ValidateOptionsInOack client_options (oack_option # oack_options) =
     (case check_oack_option oack_option client_options False of
        Inl e \<Rightarrow> Inl e
      | Inr found \<Rightarrow>
          if \<not> found then Inl (TFTPIllegalOperationError
            (''Server responded with option '' @ [CHR 0x27] @ opt_nameStr oack_option @ [CHR 0x27]
             @ '' that client did not request''))
          else ValidateOptionsInOack client_options oack_options)"

definition user_interrupted :: error_packet where
  "user_interrupted = ErrorPacket NOT_DEFINED ''User interrupted''"

definition Client_CheckForSigintWRQ :: "(tftp_client, unit) prog" where
  "Client_CheckForSigintWRQ =
     bnd sigint_load (\<lambda>sigint.
     if sigint = False then skip
     else seq (send_to_server (ErrorPacket_MakeRaw user_interrupted)) (stop_with (Exit 1)))"

definition Client_CheckForSigintRRQ :: "(tftp_client, unit) prog" where
  "Client_CheckForSigintRRQ =
     bnd sigint_load (\<lambda>sigint.
     if sigint = False then skip
     else
       seq (send_to_server (ErrorPacket_MakeRaw user_interrupted))
       (bnd (gets (\<lambda>s. w_filepath (the_writer s))) (\<lambda>path.
        seq Writer_dtor
       (seq (delete_file path)
            (stop_with (Exit 1))))))"

text \<open>
  The request, and the first answer: from any address, whose port becomes the server's. If
  \<open>CheckForSigint\<close> came back, the address would be read uninitialised.
\<close>

definition send_request :: "Opcode \<Rightarrow> string \<Rightarrow> (tftp_client, unit) prog" where
  "send_request opc filepath =
     bnd (gets (\<lambda>s. arg_options (args s))) (\<lambda>options.
     bnd (lift_exn (ReadWritePacket_ctor opc filepath OCTET options)) (\<lambda>request.
     bnd (lift_exn (ReadWritePacket_MakeRaw request)) (\<lambda>raw.
     send_to_server raw)))"

definition first_response :: "(tftp_client, unit) prog \<Rightarrow> (tftp_client, bytes) prog" where
  "first_response check_for_sigint =
     bnd (try_catch UdpClient_Receive (\<lambda>e.
            if e = UdpSigintException
            then seq check_for_sigint (stop_with (Undefined ''sender_address is not initialised''))
            else throw e)) (\<lambda>(sender_address, response_1).
     seq (modify (\<lambda>s. s\<lparr>server_address := (server_address s)\<lparr>sin_port := sin_port sender_address\<rparr>\<rparr>))
         (ret response_1))"

text \<open>The answer \<open>OACK\<close>: the options of the client are replaced by the server's.\<close>

definition accept_oack :: "bytes \<Rightarrow> (tftp_client, unit) prog" where
  "accept_oack response_1 =
     bnd (lift_exn (OackPacket_ctor_raw response_1)) (\<lambda>oack.
     bnd (gets (\<lambda>s. arg_options (args s))) (\<lambda>client_options.
     if length client_options < length (oa_options oack) then
       throw (TFTPIllegalOperationError ''Server responded with more options than client requested'')
     else
       seq (lift_exn (ValidateOptionsInOack client_options (oa_options oack)))
           (set_options (oa_options oack))))"

text \<open>\<open>for (auto option : args_.options) if (option.name == BLKSIZE) blksize_ = stoi(..)\<close>\<close>

definition use_blksize :: "(tftp_client, unit) prog" where
  "use_blksize =
     bnd (gets (\<lambda>s. arg_options (args s))) (\<lambda>options.
     for_each options (\<lambda>option. if opt_name option = BLKSIZE then set_blksize option else skip))"

section \<open>Upload\<close>

definition wrq_response :: "(tftp_client, unit) prog" where
  "wrq_response =
     seq Client_CheckForSigintWRQ
    (bnd (first_response Client_CheckForSigintWRQ) (\<lambda>response_1.
     bnd (lift_exn (GetOpcodeFromRaw response_1)) (\<lambda>opcode_1.
     seq (if opcode_1 = ACK then
            bnd (lift_exn (AckPacket_ctor_raw response_1)) (\<lambda>ack.
            if ap_block_number ack \<noteq> 0
            then throw (block_number_error ''ACK'' 0 (ap_block_number ack))
            else seq (set_options []) SetupUdpClient)
          else if opcode_1 = OACK then seq (accept_oack response_1) SetupUdpClient
          else if opcode_1 = ERROR then throw_error_packet ''Server'' response_1
          else throw (TFTPIllegalOperationError ''Expected ACK, OACK, or ERROR packet''))
         Client_CheckForSigintWRQ)))"

text \<open>
  The loop of \<open>SendWrq\<close> returns from the function after its first round, and the \<open>catch\<close> is
  outside of the loop: \<open>(retries, returned)\<close>.
\<close>

definition wrq_guard :: "nat \<times> bool \<Rightarrow> bool" where
  "wrq_guard = (\<lambda>(retries, returned). \<not> returned \<and> retries < MAX_RETRIES)"

definition wrq_round :: "nat \<times> bool \<Rightarrow> (tftp_client, nat \<times> bool) prog" where
  "wrq_round = (\<lambda>(retries, returned). seq wrq_response (ret (retries, True)))"

definition SendWrq :: "(tftp_client, unit) prog" where
  "SendWrq =
     seq Client_CheckForSigintWRQ
    (bnd (try_catch
            (bnd (gets (\<lambda>s. arg_dest_filepath (args s))) (\<lambda>dest.
             seq (send_request WRQ dest) (while_m wrq_guard wrq_round (0, False))))
            (\<lambda>e. if e = UdpTimeoutException then seq IncreaseTimeout (ret (1, False)) else throw e))
       (\<lambda>(retries, returned).
     if returned then skip
     else if retries \<ge> MAX_RETRIES then throw timeout_error
     else seq Client_CheckForSigintWRQ TimeoutReset))"

text \<open>Waiting for the ACK of a block: \<open>(ackReceived, retries, block_number)\<close>.\<close>

definition client_ack_guard :: "bool \<times> nat \<times> 16 word \<Rightarrow> bool" where
  "client_ack_guard = (\<lambda>(ackReceived, retries, block_number). \<not> ackReceived \<and> retries < MAX_RETRIES)"

definition client_ack_round ::
  "bool \<times> nat \<times> 16 word \<Rightarrow> (tftp_client, bool \<times> nat \<times> 16 word) prog" where
  "client_ack_round = (\<lambda>(ackReceived, retries, block_number).
     seq Client_CheckForSigintWRQ
    (bnd (try_catch
       (bnd RecievePacketFromServer (\<lambda>response_n.
        bnd (lift_exn (GetOpcodeFromRaw response_n)) (\<lambda>opcode_n.
        if opcode_n = ACK then
          bnd (lift_exn (AckPacket_ctor_raw response_n)) (\<lambda>ack_n.
          if ap_block_number ack_n = block_number then ret (True, retries, block_number + 1)
          else if ap_block_number ack_n \<le> block_number
          then seq IncreaseTimeout (ret (ackReceived, retries + 1, block_number))
          else throw (block_number_error ''ACK'' (uint block_number) (ap_block_number ack_n)))
        else if opcode_n = ERROR then throw_error_packet ''Server'' response_n
        else ret (ackReceived, retries, block_number))))
       (catch_wait
          (seq IncreaseTimeout (ret (ackReceived, retries + 1, block_number)))
          (seq Client_CheckForSigintWRQ (ret (ackReceived, retries, block_number)))))
     (\<lambda>a. seq Client_CheckForSigintWRQ (ret a))))"

text \<open>One block: \<open>(block_number, last_packet_sent, std_handler)\<close>.\<close>

definition upload_guard :: "16 word \<times> bool \<times> std_handler \<Rightarrow> bool" where
  "upload_guard = (\<lambda>(block_number, last_packet_sent, std_handler). \<not> last_packet_sent)"

definition read_block :: "nat \<Rightarrow> std_handler \<Rightarrow> (tftp_client, bytes \<times> std_handler) prog" where
  "read_block n std_handler = try_catch (ReadBytesFromStdin n std_handler) (\<lambda>e.
     if e = FailedToReadFromStdinException then throw TFTPUnknownError else throw e)"

definition upload_round ::
  "16 word \<times> bool \<times> std_handler \<Rightarrow> (tftp_client, 16 word \<times> bool \<times> std_handler) prog" where
  "upload_round = (\<lambda>(block_number, last_packet_sent, std_handler).
     seq Client_CheckForSigintWRQ
    (bnd (gets cl_blksize) (\<lambda>blk.
     bnd (read_block (unat blk) std_handler) (\<lambda>(data, std_handler').
     let last' = (if length data < unat blk then True else last_packet_sent);
         data_packet = DataPacket block_number data (uint blk)
     in seq (send_to_server (DataPacket_MakeRaw data_packet))
       (bnd (while_m client_ack_guard client_ack_round (False, 0, block_number))
         (\<lambda>(ackReceived, retries, block_number').
        seq Client_CheckForSigintWRQ
          (if retries \<ge> MAX_RETRIES then throw timeout_error
           else seq TimeoutReset (ret (block_number', last', std_handler'))))))))) "

definition SendData :: "(tftp_client, unit) prog" where
  "SendData =
     seq Client_CheckForSigintWRQ
    (bnd (gets (\<lambda>s. arg_file_mode (args s))) (\<lambda>file_mode.
     bnd (gets uninit) (\<lambda>indet.
     let std_handler = StdHandler_ctor
           (if file_mode = NETASCII then DF_NETASCII else DF_OCTET) indet in
     seq use_blksize
    (seq (while_m upload_guard upload_round (1, False, std_handler)) skip))))"

definition Client_Write :: "(tftp_client, unit) prog" where
  "Client_Write = seq SendWrq SendData"

section \<open>Download\<close>

text \<open>
  The first answer to the read request: \<open>(block_number, last_packet_received)\<close>.
\<close>

definition rrq_response :: "bytes \<Rightarrow> (tftp_client, 16 word \<times> bool) prog" where
  "rrq_response response_1 =
     bnd (lift_exn (GetOpcodeFromRaw response_1)) (\<lambda>opcode_1.
     if opcode_1 = DATA then
       bnd (gets cl_blksize) (\<lambda>blk.
       bnd (lift_exn (DataPacket_ctor_raw response_1 (uint blk))) (\<lambda>data.
       if dp_block_number data \<noteq> 1
       then throw (block_number_error ''DATA'' 1 (dp_block_number data))
       else
         seq (set_options [])
        (seq SetupUdpClient
        (bnd (gets cl_blksize) (\<lambda>blk'.
         seq (write_block (dp_data data))
             (ret (1, length (dp_data data) < unat blk')))))))
     else if opcode_1 = OACK then
       seq (accept_oack response_1)
      (bnd (gets (\<lambda>s. arg_options (args s))) (\<lambda>options.
       seq (for_each options (\<lambda>option.
              if opt_name option = TSIZE then
                bnd (lift_exn (sto_exn (stoull (opt_value option)))) (\<lambda>tsize.
                bnd (gets fsys) (\<lambda>fs.
                bnd (gets (\<lambda>s. arg_dest_filepath (args s))) (\<lambda>dest.
                if \<not> HasEnoughSpace fs dest tsize then throw NotEnoughSpaceException else skip)))
              else skip))
      (seq SetupUdpClient (ret (0, False)))))
     else if opcode_1 = ERROR then throw_error_packet ''Server'' response_1
     else throw (TFTPIllegalOperationError ''Expected DATA, OACK, or ERROR packet''))"

text \<open>
  The loop that sends the request: \<open>(retries, answer)\<close>. Once there is an answer, \<open>break\<close> leaves
  the loop.
\<close>

definition rrq_guard :: "nat \<times> (16 word \<times> bool) option \<Rightarrow> bool" where
  "rrq_guard = (\<lambda>(retries, answer). answer = None \<and> retries < MAX_RETRIES)"

definition rrq_round ::
  "nat \<times> (16 word \<times> bool) option \<Rightarrow> (tftp_client, nat \<times> (16 word \<times> bool) option) prog" where
  "rrq_round = (\<lambda>(retries, answer).
     bnd (try_catch
       (bnd (gets (\<lambda>s. arg_filepath (args s))) (\<lambda>filepath.
        seq (send_request RRQ filepath)
       (bnd (first_response Client_CheckForSigintRRQ) (\<lambda>response_1.
        bnd (rrq_response response_1) (\<lambda>a. ret (retries, Some a))))))
       (\<lambda>e. if e = UdpTimeoutException then seq IncreaseTimeout (ret (retries + 1, answer))
            else throw e))
     (\<lambda>(retries', answer').
      if answer' = None then seq Client_CheckForSigintRRQ (ret (retries', answer'))
      else ret (retries', answer')))"

text \<open>
  Waiting for a later block: \<open>(dataReceived, retries, block_number, last_packet_received)\<close>. The
  block number is a \<open>uint16_t\<close>; \<open>block_number + 1\<close> is an \<open>int\<close>.
\<close>

definition client_data_guard :: "bool \<times> nat \<times> 16 word \<times> bool \<Rightarrow> bool" where
  "client_data_guard = (\<lambda>(dataReceived, retries, block_number, last_packet_received).
     \<not> dataReceived \<and> retries < MAX_RETRIES)"

definition client_data_round ::
  "bool \<times> nat \<times> 16 word \<times> bool \<Rightarrow> (tftp_client, bool \<times> nat \<times> 16 word \<times> bool) prog" where
  "client_data_round = (\<lambda>(dataReceived, retries, block_number, last_packet_received).
     bnd (try_catch
       (seq Client_CheckForSigintRRQ
       (seq (send_to_server (AckPacket_MakeRaw (AckPacket block_number)))
       (bnd RecievePacketFromServer (\<lambda>response_n.
        bnd (lift_exn (GetOpcodeFromRaw response_n)) (\<lambda>opcode_n.
        if opcode_n = DATA then
          bnd (gets cl_blksize) (\<lambda>blk.
          bnd (lift_exn (DataPacket_ctor_raw response_n (uint blk))) (\<lambda>data_n.
          if uint (dp_block_number data_n) = uint block_number + 1 then
            seq (write_block (dp_data data_n))
                (ret (True, retries, block_number + 1,
                      if length (dp_data data_n) < unat blk then True else last_packet_received))
          else if uint (dp_block_number data_n) < uint block_number + 1 then
            seq IncreaseTimeout (ret (dataReceived, retries + 1, block_number, last_packet_received))
          else throw (block_number_error ''DATA'' (uint block_number + 1) (dp_block_number data_n))))
        else if opcode_n = ERROR then throw_error_packet ''Server'' response_n
        else ret (dataReceived, retries, block_number, last_packet_received))))))
       (catch_wait
          (seq IncreaseTimeout (ret (dataReceived, retries + 1, block_number, last_packet_received)))
          (seq Client_CheckForSigintRRQ
               (ret (dataReceived, retries, block_number, last_packet_received)))))
     (\<lambda>(received', rest).
      if received' then ret (received', rest)
      else seq Client_CheckForSigintRRQ (ret (received', rest))))"

text \<open>The loop over the later blocks: \<open>(block_number, last_packet_received)\<close>.\<close>

definition download_guard :: "16 word \<times> bool \<Rightarrow> bool" where
  "download_guard = (\<lambda>(block_number, last_packet_received). \<not> last_packet_received)"

definition download_round :: "16 word \<times> bool \<Rightarrow> (tftp_client, 16 word \<times> bool) prog" where
  "download_round = (\<lambda>(block_number, last_packet_received).
     bnd (while_m client_data_guard client_data_round (False, 0, block_number, last_packet_received))
       (\<lambda>(dataReceived, retries, block_number', last').
        if retries \<ge> MAX_RETRIES then throw timeout_error
        else seq TimeoutReset (ret (block_number', last'))))"

text \<open>The part of \<open>Read\<close> between the constructor and the destructor of the writer.\<close>

definition read_body :: "(tftp_client, unit) prog" where
  "read_body =
     seq Client_CheckForSigintRRQ
    (bnd (while_m rrq_guard rrq_round (0, None)) (\<lambda>(retries, answer).
     case answer of
       None \<Rightarrow> throw timeout_error
     | Some (block_number, last_packet_received) \<Rightarrow>
         seq Client_CheckForSigintRRQ
        (seq TimeoutReset
        (seq use_blksize
        (seq Client_CheckForSigintRRQ
        (bnd (while_m download_guard download_round (block_number, last_packet_received))
          (\<lambda>(block_number', _).
         seq Client_CheckForSigintRRQ
             (send_to_server (AckPacket_MakeRaw (AckPacket block_number'))))))))))"

definition Client_Read :: "(tftp_client, unit) prog" where
  "Client_Read =
     bnd (gets args) (\<lambda>a.
     seq (Writer_ctor (arg_dest_filepath a) (data_format (arg_file_mode a)))
         (scoped read_body Writer_dtor))"

section \<open>The whole run\<close>

definition client_report :: "exn \<Rightarrow> (tftp_client, 'a) prog" where
  "client_report e = (case error_code_of e of
     None \<Rightarrow> throw e
   | Some code \<Rightarrow> seq (send_to_server (ErrorPacket_MakeRaw (ErrorPacket code (tftp_what e)))) (throw e))"

definition Client_run :: "(tftp_client, unit) prog" where
  "Client_run =
     bnd (gets (\<lambda>s. arg_mode (args s))) (\<lambda>mode.
     try_catch (case mode of READ \<Rightarrow> Client_Read | WRITE \<Rightarrow> Client_Write) client_report)"

end
