(* ===== verification/ClientLemmas.thy ===== *)
theory ClientLemmas
  imports TftpClient Receiving
begin

text \<open>
  The parts of a run of the client that both directions use: the frames, an interruption, the
  options, and what the client knows when the server has answered its request.
\<close>

section \<open>The state of the client\<close>

abbreviation server :: "tftp_client \<Rightarrow> sockaddr" where
  "server s \<equiv> server_address s"

lemma same_client_fields:
  "same_session s s' \<Longrightarrow> server_address s' = server_address s \<and> args s' = args s
     \<and> cl_blksize s' = cl_blksize s \<and> cl_timeout s' = cl_timeout s"
  by (cases s; cases s') (simp add: same_session_def)

lemma quiet_client_fields:
  "quiet p s s' \<Longrightarrow> server_address s' = server_address s \<and> args s' = args s
     \<and> cl_blksize s' = cl_blksize s \<and> fsys s' = fsys s \<and> the_writer s' = the_writer s
     \<and> same_session s s'"
  by (auto simp: quiet_def dest: same_client_fields)

definition farewell :: bytes where
  "farewell = ErrorPacket_MakeRaw user_interrupted"

lemma wlp_send_to_server [simp, wlp_rules]:
  "wlp (send_to_server d) Q s = Q (Inr ()) (s\<lparr>outbox := outbox s @ [(server_address s, d)]\<rparr>)"
  by (simp add: send_to_server_def)

lemma returns_send_to_server [simp, returns_rules]: "returns (send_to_server d) s"
  by (simp add: send_to_server_def)

section \<open>Interruption\<close>

lemma wlp_Client_CheckForSigintWRQ [simp, wlp_rules]:
  "wlp Client_CheckForSigintWRQ Q s =
     (if sigint_set s
      then Q (Inl (Exit 1)) (s\<lparr>loads := Suc (loads s), outbox := outbox s @ [(server s, farewell)]\<rparr>)
      else Q (Inr ()) (s\<lparr>loads := Suc (loads s)\<rparr>))"
  by (simp add: Client_CheckForSigintWRQ_def farewell_def)

text \<open>
  The check of a download either goes on, or ends the run: the file is deleted and the server is
  told.
\<close>

lemma wlp_Client_CheckForSigintRRQ:
  assumes go: "\<not> sigint_set s \<Longrightarrow> Q (Inr ()) (s\<lparr>loads := Suc (loads s)\<rparr>)"
    and stop: "\<And>e s'. sigint_set s \<Longrightarrow> interrupted e \<Longrightarrow> \<not> waitable e \<Longrightarrow>
      peer_frame (server s) s [farewell] s' \<Longrightarrow> inbox s' = inbox s \<Longrightarrow> Q (Inl e) s'"
  shows "wlp Client_CheckForSigintRRQ Q s"
proof -
  have "wlp Client_CheckForSigintRRQ (\<lambda>r s'. case r of
      Inr _ \<Rightarrow> \<not> sigint_set s \<and> s' = s\<lparr>loads := Suc (loads s)\<rparr>
    | Inl e \<Rightarrow> sigint_set s \<and> interrupted e \<and> \<not> waitable e \<and> peer_frame (server s) s [farewell] s'
        \<and> inbox s' = inbox s) s"
    by (auto simp: Client_CheckForSigintRRQ_def Writer_dtor_def wlp_writer_put peer_frame_def
        files_only_def interrupted_def farewell_def nodes_append_file_other waitable_def
        dest: DeleteFile_Inl DeleteFile_nodes DeleteFile_static split: sum.splits)
  then show ?thesis
  proof (rule wlp_mono, goal_cases)
    case (1 r s')
    then show ?case using go stop by (cases r) auto
  qed
qed

lemma returns_client_checks [simp, returns_rules]:
  "returns Client_CheckForSigintWRQ s" "returns Client_CheckForSigintRRQ s"
  unfolding Client_CheckForSigintWRQ_def Client_CheckForSigintRRQ_def
  by (intro returns_intros; simp)+

section \<open>Receiving from the server\<close>

lemma returns_RecievePacketFromServer [simp, returns_rules]: "returns RecievePacketFromServer s"
  by (simp add: RecievePacketFromServer_def)

lemma wlp_wait_server:
  assumes "wlp (try_catch (bnd (RecievePacketFrom (server s)) k) (catch_wait to si)) Q s"
  shows "wlp (try_catch (bnd RecievePacketFromServer k) (catch_wait to si)) Q s"
  using assms by (simp add: RecievePacketFromServer_def)

section \<open>Options\<close>

lemma wlp_set_options [simp, wlp_rules]:
  "wlp (set_options opts) Q s = Q (Inr ()) (s\<lparr>args := (args s)\<lparr>arg_options := opts\<rparr>\<rparr>)"
  by (simp add: set_options_def)

text \<open>
  What handling the answer to the request may change: the options of the client, its block size
  and its timeouts.
\<close>

definition reoptioned :: "tftp_client \<Rightarrow> tftp_client \<Rightarrow> bool" where
  "reoptioned s s' \<longleftrightarrow> (\<exists>a b t u. s' = s\<lparr>args := (args s)\<lparr>arg_options := a\<rparr>,
     cl_blksize := b, cl_timeout := t, so_rcvtimeo := u\<rparr>)"

lemma reoptionedI:
  "reoptioned s (s\<lparr>args := (args s)\<lparr>arg_options := a\<rparr>, cl_blksize := b, cl_timeout := t, so_rcvtimeo := u\<rparr>)"
  by (auto simp: reoptioned_def)

lemma reoptioned_refl [simp]: "reoptioned s s"
  using reoptionedI [where s = s and a = "arg_options (args s)" and b = "cl_blksize s"
      and t = "cl_timeout s" and u = "so_rcvtimeo s"] by simp

lemma reoptioned_trans: "reoptioned s s1 \<Longrightarrow> reoptioned s1 s' \<Longrightarrow> reoptioned s s'"
  unfolding reoptioned_def by (elim exE, simp, metis)

lemma reoptioned_step [simp]:
  "reoptioned s (s\<lparr>args := (args s)\<lparr>arg_options := a\<rparr>\<rparr>)"
  "reoptioned s (s\<lparr>cl_blksize := b\<rparr>)"
  "reoptioned s (s\<lparr>cl_timeout := t, so_rcvtimeo := u\<rparr>)"
  using reoptionedI [where s = s and a = a and b = "cl_blksize s" and t = "cl_timeout s"
      and u = "so_rcvtimeo s"]
    reoptionedI [where s = s and a = "arg_options (args s)" and b = b and t = "cl_timeout s"
      and u = "so_rcvtimeo s"]
    reoptionedI [where s = s and a = "arg_options (args s)" and b = "cl_blksize s" and t = t and u = u]
  by simp_all

lemma reoptioned_fields:
  assumes "reoptioned s s'"
  shows "inbox s' = inbox s \<and> outbox s' = outbox s \<and> fsys s' = fsys s \<and> the_writer s' = the_writer s
    \<and> std_in s' = std_in s \<and> uninit s' = uninit s \<and> maxPacketSize s' = maxPacketSize s
    \<and> server s' = server s \<and> loads s' = loads s \<and> sigint_at s' = sigint_at s
    \<and> (args s)\<lparr>arg_options := []\<rparr> = (args s')\<lparr>arg_options := []\<rparr>"
  using assms by (auto simp: reoptioned_def)

text \<open>The options of the client are valid, and so is its block size.\<close>

definition size_ok :: "tftp_client \<Rightarrow> bool" where
  "size_ok s \<longleftrightarrow> 8 \<le> uint (cl_blksize s) \<and> uint (cl_blksize s) \<le> 65464"

definition client_ok :: "tftp_client \<Rightarrow> bool" where
  "client_ok s \<longleftrightarrow> size_ok s \<and> (\<forall>opt \<in> set (arg_options (args s)). valid_option opt)"

lemma client_ok_simps [simp]:
  "client_ok (s\<lparr>loads := n\<rparr>) = client_ok s" "client_ok (s\<lparr>inbox := i\<rparr>) = client_ok s"
  "client_ok (s\<lparr>outbox := out\<rparr>) = client_ok s" "client_ok (s\<lparr>server_address := a\<rparr>) = client_ok s"
  "client_ok (s\<lparr>udp_timeout := t, so_rcvtimeo := u\<rparr>) = client_ok s"
  "client_ok (s\<lparr>the_writer := w\<rparr>) = client_ok s"
  "client_ok (s\<lparr>args := (args s)\<lparr>arg_options := []\<rparr>\<rparr>) = size_ok s"
  "size_ok (s\<lparr>args := ar\<rparr>) = size_ok s" "size_ok (s\<lparr>cl_timeout := t, so_rcvtimeo := u\<rparr>) = size_ok s"
  by (simp_all add: client_ok_def size_ok_def)

lemma uint_valid_blksize: "8 \<le> n \<Longrightarrow> n \<le> 65464 \<Longrightarrow> uint (word_of_int n :: 16 word) = n"
  by (simp add: uint_word_of_int)

lemma wlp_set_blksize:
  assumes "valid_option opt" "opt_name opt = BLKSIZE"
  shows "wlp (set_blksize opt) (\<lambda>r s'. r = Inr () \<and> size_ok s' \<and> reoptioned s s'
     \<and> arg_options (args s') = arg_options (args s)) s"
proof -
  obtain n where "stoi (opt_value opt) = Inr n" "8 \<le> n" "n \<le> 65464"
    using assms by (cases "stoi (opt_value opt)") (simp_all add: valid_option_def valid_value_def)
  then show ?thesis by (simp add: set_blksize_def sto_exn_def size_ok_def uint_valid_blksize)
qed

lemma valid_timeout_value:
  "valid_option opt \<Longrightarrow> opt_name opt = TIMEOUT \<Longrightarrow> \<exists>n. stoi (opt_value opt) = Inr n"
  by (cases "stoi (opt_value opt)") (simp_all add: valid_option_def valid_value_def)

lemma wlp_tune:
  assumes "client_ok s" "\<And>opt s1. valid_option opt \<Longrightarrow> size_ok s1 \<Longrightarrow> wlp (f opt) (\<lambda>r s'. r = Inr ()
      \<and> size_ok s' \<and> reoptioned s1 s' \<and> arg_options (args s') = arg_options (args s1)) s1"
  shows "wlp (for_each (arg_options (args s)) f)
    (\<lambda>r s'. r = Inr () \<and> client_ok s' \<and> reoptioned s s') s"
proof -
  have "wlp (for_each (arg_options (args s)) f) (\<lambda>r s'. case r of Inl e \<Rightarrow> False
    | Inr _ \<Rightarrow> size_ok s' \<and> reoptioned s s' \<and> arg_options (args s') = arg_options (args s)) s"
  proof (rule wlp_for_each, goal_cases)
    case 1
    then show ?case using assms(1) by (simp add: client_ok_def)
  next
    case (2 x s1)
    then have "valid_option x" using assms(1) by (simp add: client_ok_def)
    then show ?case
      using 2 by (auto intro!: wlp_mono [OF assms(2)] dest: reoptioned_trans)
  qed
  then show ?thesis
    by (rule wlp_mono) (use assms(1) in \<open>auto simp: client_ok_def split: sum.splits\<close>)
qed

lemma wlp_SetupUdpClient:
  assumes "client_ok s"
  shows "wlp SetupUdpClient (\<lambda>r s'. r = Inr () \<and> client_ok s' \<and> reoptioned s s') s"
  unfolding SetupUdpClient_def wlp_bnd [of "gets _"] wlp_gets sum.case
proof (rule wlp_tune [OF assms], goal_cases)
  case (1 opt s1)
  then show ?case
    using wlp_set_blksize [of opt s1] valid_timeout_value [of opt]
    by (cases "opt_name opt") (auto simp: sto_exn_def)
qed

lemma wlp_use_blksize:
  assumes "client_ok s"
  shows "wlp use_blksize (\<lambda>r s'. r = Inr () \<and> client_ok s' \<and> reoptioned s s') s"
  unfolding use_blksize_def wlp_bnd [of "gets _"] wlp_gets sum.case
proof (rule wlp_tune [OF assms], goal_cases)
  case (1 opt s1)
  then show ?case using wlp_set_blksize [of opt s1] by simp
qed

text \<open>Without options there is nothing to set.\<close>

lemma no_options_skip:
  "arg_options (args s) = [] \<Longrightarrow> use_blksize s = Some (Inr (), s)"
  "arg_options (args s) = [] \<Longrightarrow> SetupUdpClient s = Some (Inr (), s)"
  by (simp_all add: use_blksize_def SetupUdpClient_def bnd_run_simps run_simps)

lemma returns_set_blksize [simp, returns_rules]: "returns (set_blksize opt) s"
  unfolding set_blksize_def by (intro returns_intros) simp_all

lemma returns_options [simp, returns_rules]:
  "returns SetupUdpClient s" "returns use_blksize s" "returns (set_options opts) s"
proof -
  show "returns SetupUdpClient s"
    unfolding SetupUdpClient_def
    by (intro returns_bndI returns_for_each) (auto split: opt_name.splits sum.splits intro!: returns_intros)
  show "returns use_blksize s"
    unfolding use_blksize_def by (intro returns_bndI returns_for_each) (auto intro!: returns_intros)
  show "returns (set_options opts) s" by (simp add: set_options_def)
qed

section \<open>The answer to the request\<close>

text \<open>
  \<open>answered s out s'\<close>: between the two states datagrams were taken, \<open>out\<close> was sent, and the
  port of the server and the options may have been set.
\<close>

definition answered :: "tftp_client \<Rightarrow> (sockaddr \<times> bytes) list \<Rightarrow> tftp_client \<Rightarrow> bool" where
  "answered s out s' \<longleftrightarrow> fsys s' = fsys s \<and> the_writer s' = the_writer s \<and> std_in s' = std_in s
     \<and> uninit s' = uninit s \<and> maxPacketSize s' = maxPacketSize s
     \<and> (\<exists>used. inbox s = used @ inbox s') \<and> outbox s' = outbox s @ out
     \<and> sin_addr (server s') = sin_addr (server s)
     \<and> (args s')\<lparr>arg_options := []\<rparr> = (args s)\<lparr>arg_options := []\<rparr>
     \<and> (client_ok s \<longrightarrow> client_ok s')"

lemma answered_refl [simp]: "answered s [] s"
  by (simp add: answered_def)

lemma answered_trans: "answered s x s1 \<Longrightarrow> answered s1 y s' \<Longrightarrow> answered s (x @ y) s'"
  by (auto simp: answered_def)

lemma answered_step [simp]:
  "answered s x (s'\<lparr>loads := n\<rparr>) = answered s x s'"
  "answered s x (s'\<lparr>udp_timeout := t, so_rcvtimeo := u\<rparr>) = answered s x s'"
  by (simp_all add: answered_def)

lemma answered_send: "answered s [(a, d)] (s\<lparr>outbox := outbox s @ [(a, d)]\<rparr>)"
  by (simp add: answered_def)

lemma reoptioned_answered: "reoptioned s s' \<Longrightarrow> client_ok s' \<Longrightarrow> answered s [] s'"
  using reoptioned_fields [of s s'] by (simp add: answered_def)

lemma answered_fields:
  "answered s out s' \<Longrightarrow> arg_filepath (args s') = arg_filepath (args s)
     \<and> arg_dest_filepath (args s') = arg_dest_filepath (args s)
     \<and> arg_file_mode (args s') = arg_file_mode (args s)"
  by (auto simp: answered_def dest: arg_cong [where f = arg_filepath]
      arg_cong [where f = arg_dest_filepath] arg_cong [where f = arg_file_mode])

lemma answered_length: "answered s out s' \<Longrightarrow> length (inbox s') \<le> length (inbox s)"
  by (auto simp: answered_def)

text \<open>The request on the wire.\<close>

definition request_raw :: "tftp_client \<Rightarrow> Opcode \<Rightarrow> string \<Rightarrow> bytes" where
  "request_raw s opc f = (case ReadWritePacket_MakeRaw \<lparr>rw_opcode = opc, rw_filepath = f,
     rw_mode = OCTET, rw_options = arg_options (args s)\<rparr> of Inl _ \<Rightarrow> [] | Inr raw \<Rightarrow> raw)"

lemma options_MakeRaw_Inl: "options_MakeRaw opts = Inl e \<Longrightarrow> e = UnsupportedOptionException"
  by (induction opts) (auto split: sum.splits opt_name.splits)

lemma wlp_send_request:
  assumes "opc = RRQ \<or> opc = WRQ"
  shows "wlp (send_request opc f) (\<lambda>r s'. case r of
      Inl e \<Rightarrow> s' = s \<and> \<not> waitable e
    | Inr _ \<Rightarrow> s' = s\<lparr>outbox := outbox s @ [(server s, request_raw s opc f)]\<rparr>) s"
  using assms
  by (auto simp: send_request_def ReadWritePacket_ctor_def ReadWritePacket_MakeRaw_def request_raw_def
      waitable_def dest: options_MakeRaw_Inl split: sum.splits)

text \<open>The first answer, as a rule.\<close>

lemma wlp_first_response:
  assumes packet: "\<And>a d rest. inbox s = Datagram a d # rest \<Longrightarrow>
      Q (Inr (take (maxPacketSize s) d)) (s\<lparr>loads := Suc (loads s), inbox := rest,
        server_address := (server s)\<lparr>sin_port := sin_port a\<rparr>\<rparr>)"
    and timeout: "\<And>rest. inbox s = RecvTimeout # rest \<Longrightarrow>
      Q (Inl (Raise UdpTimeoutException)) (s\<lparr>loads := Suc (loads s), inbox := rest\<rparr>)"
    and failure: "\<And>rest. inbox s = RecvFailure # rest \<Longrightarrow>
      Q (Inl (Raise (UdpException ''Error receiving data''))) (s\<lparr>loads := Suc (loads s), inbox := rest\<rparr>)"
    and blocked: "inbox s = [] \<Longrightarrow> Q (Inl Blocked) (s\<lparr>loads := Suc (loads s)\<rparr>)"
    and sigint: "sigint_set s \<Longrightarrow> wlp check (\<lambda>r s'. \<exists>e. r = Inl e \<and> Q (Inl e) s')
      (s\<lparr>loads := Suc (loads s)\<rparr>)"
  shows "wlp (first_response check) Q s"
proof -
  have c: "wlp check (\<lambda>r s'. case r of Inl e \<Rightarrow> Q (Inl e) s'
      | Inr x \<Rightarrow> Q (Inl (Undefined u)) s') (s\<lparr>loads := Suc (loads s)\<rparr>)" if "sigint_set s" for u
    by (rule wlp_mono [OF sigint [OF that]]) auto
  show ?thesis
    unfolding first_response_def
    using packet timeout failure blocked
    by (auto simp: UdpClient_Receive_def split: list.splits net_event.splits sum.splits
        intro!: wlp_mono [OF c])
qed

lemma sto_exn_Inl: "sto_exn r = Inl e \<Longrightarrow> e = StdInvalidArgument \<or> e = StdOutOfRange"
  by (auto simp: sto_exn_def split: sum.splits sto_error.splits)

lemma option_agrees_Inl: "option_agrees a b = Inl e \<Longrightarrow> \<not> waitable (Raise e)"
  by (auto simp: option_agrees_def waitable_def dest: sto_exn_Inl split: opt_name.splits sum.splits if_splits)

lemma check_oack_option_Inl: "check_oack_option a bs found = Inl e \<Longrightarrow> \<not> waitable (Raise e)"
  by (induction a bs found rule: check_oack_option.induct)
    (auto dest: option_agrees_Inl split: if_splits sum.splits)

lemma ValidateOptionsInOack_Inl: "ValidateOptionsInOack cs os = Inl e \<Longrightarrow> \<not> waitable (Raise e)"
  by (induction cs os rule: ValidateOptionsInOack.induct)
    (auto simp: waitable_def [of "Raise (TFTPIllegalOperationError _)"] dest: check_oack_option_Inl
      split: if_splits sum.splits)

lemma Option_ctor_Inl:
  "Option_ctor nm v = Inl e \<Longrightarrow> e = StdOutOfRange \<or> (\<exists>a b. e = InvalidOptionValueException a b)"
  by (auto simp: Option_ctor_def check_opt_value_def Let_def
      split: sum.splits opt_name.splits sto_error.splits if_splits)

lemma parse_options_loop_Inl:
  "parse_options_loop ce opts parsed = Inl e \<Longrightarrow>
   e = StdOutOfRange \<or> (\<exists>a b. e = InvalidOptionValueException a b) \<or> (\<exists>m. e = TFTPIllegalOperationError m)"
proof (induction ce opts parsed rule: parse_options_loop.induct)
  case (1 ce opts parsed)
  show ?case
    using "1.prems" "1.IH"
    unfolding parse_options_loop.simps [of ce opts parsed]
    by (auto simp: Let_def split: if_splits list.splits sum.splits dest: Option_ctor_Inl)
qed

lemma OackPacket_ctor_raw_Inl: "OackPacket_ctor_raw b = Inl e \<Longrightarrow> \<not> waitable (Raise e)"
  by (auto simp: OackPacket_ctor_raw_def OackPacket_ParseOptions_def negotiation_error_def waitable_def
      dest!: parse_options_loop_Inl GetOpcodeFromRaw_Inl split: sum.splits if_splits exn.splits)

lemma wlp_accept_oack:
  assumes "client_ok s"
  shows "wlp (accept_oack b) (\<lambda>r s'. case r of
      Inl e \<Rightarrow> s' = s \<and> \<not> waitable e | Inr _ \<Rightarrow> reoptioned s s' \<and> client_ok s') s"
  using assms OackPacket_ctor_raw_wf [of b]
  by (auto simp: accept_oack_def client_ok_def wire_options_def wire_option_def
      dest: OackPacket_ctor_raw_Inl ValidateOptionsInOack_Inl split: sum.splits)

lemma returns_first_response [simp, returns_rules]:
  "returns (first_response Client_CheckForSigintWRQ) s"
  "returns (first_response Client_CheckForSigintRRQ) s"
  unfolding first_response_def by (intro returns_intros; simp)+

lemma returns_accept_oack [simp, returns_rules]: "returns (accept_oack b) s"
  unfolding accept_oack_def by (intro returns_intros) simp_all

lemma returns_send_request [simp, returns_rules]: "returns (send_request opc f) s"
  unfolding send_request_def by (intro returns_intros) simp_all

end
