(* ===== verification/Upload.thy ===== *)
theory Upload
  imports ClientLemmas
begin

text \<open>
  What an upload guarantees (src/tftp-client/Write.cpp): the blocks of the standard input are
  sent in order, each once, and the next one only after the ACK of the one before, under any
  behaviour of the network; the files are left alone; every loop returns.
\<close>

section \<open>Waiting for one ACK\<close>

text \<open>Giving up leaves the files alone.\<close>

definition gave_up :: "tftp_client \<Rightarrow> stop \<Rightarrow> tftp_client \<Rightarrow> bool" where
  "gave_up s e s' \<longleftrightarrow> given_up (server s) farewell s e s' \<and> fsys s' = fsys s
     \<and> the_writer s' = the_writer s"

lemma gave_upI: "quiet (server s) s s' \<Longrightarrow> gave_up s e s'"
  by (simp add: gave_up_def given_upI quiet_def)

lemma gave_up_trans: "quiet (server s) s s1 \<Longrightarrow> gave_up s1 e s' \<Longrightarrow> gave_up s e s'"
  using given_up_trans [of "server s" s s1] quiet_client_fields [of "server s" s s1]
  by (simp add: gave_up_def)

text \<open>What a round leads to: an ACK of the block, another try, or giving up.\<close>

definition ack_result ::
  "tftp_client \<Rightarrow> nat \<Rightarrow> 16 word \<Rightarrow> (bool \<times> nat \<times> 16 word) outcome \<Rightarrow> tftp_client \<Rightarrow> bool" where
  "ack_result s n bn r s' = (case r of
     Inl e \<Rightarrow> gave_up s e s'
   | Inr (a, n', bn') \<Rightarrow> quiet (server s) s s' \<and> length (inbox s') < length (inbox s)
       \<and> (if a then n' = n \<and> bn' = bn + 1 \<and> acked (server s) s [uint bn] s'
          else n' \<le> n + 1 \<and> bn' = bn))"

lemma gave_up_interrupted:
  assumes "quiet (server s) s s'"
  shows "gave_up s (Exit 1) (s'\<lparr>loads := l, outbox := outbox s' @ [(server s', farewell)]\<rparr>)"
  using assms quiet_client_fields [OF assms]
  by (simp add: gave_up_def given_up_def quiet_def interrupted_def)

lemma client_ack_wait:
  "wlp (try_catch
       (bnd RecievePacketFromServer (\<lambda>response_n.
        bnd (lift_exn (GetOpcodeFromRaw response_n)) (\<lambda>opcode_n.
        if opcode_n = ACK then
          bnd (lift_exn (AckPacket_ctor_raw response_n)) (\<lambda>ack_n.
          if ap_block_number ack_n = bn then ret (True, n, bn + 1)
          else if ap_block_number ack_n \<le> bn
          then seq IncreaseTimeout (ret (False, n + 1, bn))
          else throw (block_number_error ''ACK'' (uint bn) (ap_block_number ack_n)))
        else if opcode_n = ERROR then throw_error_packet ''Server'' response_n
        else ret (False, n, bn))))
       (catch_wait
          (seq IncreaseTimeout (ret (False, n + 1, bn)))
          (seq Client_CheckForSigintWRQ (ret (False, n, bn))))) (ack_result s n bn)
     (s\<lparr>loads := Suc (loads s)\<rparr>)"
proof (rule wlp_wait_server, rule wlp_wait, goal_cases)
  case (1 b s1)
  then have 2: "received (server s) (s\<lparr>loads := Suc (loads s)\<rparr>) b s1" by simp
  have q: "quiet (server s) s s1" "length (inbox s1) < length (inbox s)"
    using received_quiet [OF 2] received_length [OF 2] by (simp_all add: quiet_def same_session_def)
  have a: "acked (server s) s [uint (ap_block_number p)] s1" if "AckPacket_ctor_raw b = Inr p" for p
    using received_acked [OF 2 that] by (simp add: acked_def)
  show ?case
    using q a
    by (auto simp: ack_result_def gave_upI ctor_not_waitable
        intro!: wlp_mono [OF wlp_throw_error_packet] split: sum.splits)
next
  case (2 s1)
  then have "quiet (server s) s s1" by (simp add: quiet_def same_session_def)
  with 2 show ?case by (simp add: ack_result_def)
next
  case (3 s1)
  then have "quiet (server s) s s1" by (simp add: quiet_def same_session_def)
  with 3 gave_up_interrupted [of s s1] show ?case by (simp add: ack_result_def)
next
  case (4 e s1)
  then have "quiet (server s) s s1" by (simp add: quiet_def same_session_def)
  then show ?case by (simp add: ack_result_def gave_upI)
qed

lemma client_ack_round_spec: "wlp (client_ack_round (False, n, bn)) (ack_result s n bn) s"
proof -
  have last: "wlp (seq Client_CheckForSigintWRQ (ret a)) (ack_result s n bn) s'" if "ack_result s n bn (Inr a) s'" for a s'
    using that gave_up_interrupted [of s s'] by (auto simp: ack_result_def acked_def split: prod.splits if_splits)
  show ?thesis
    unfolding client_ack_round_def prod.case wlp_seq wlp_Client_CheckForSigintWRQ sum.case
  proof (split if_split, intro conjI impI, goal_cases)
    case 1
    then show ?case using gave_up_interrupted [of s s] by (simp add: ack_result_def)
  next
    case 2
    show ?case
      unfolding wlp_bnd
    proof (rule wlp_mono [OF client_ack_wait], goal_cases)
      case (1 r s')
      show ?case
      proof (cases r)
        case (Inl e)
        with 1 show ?thesis by (simp add: ack_result_def)
      next
        case (Inr a)
        show ?thesis unfolding Inr sum.case by (rule last) (use 1 Inr in simp)
      qed
    qed
  qed
qed

section \<open>The waiting loop\<close>

lemma returns_client_ack_round [simp, returns_rules]: "returns (client_ack_round a) s"
  unfolding client_ack_round_def
  by (cases a; simp only: prod.case; intro round_returns; simp)

interpretation client_ack_loop: consuming_loop client_ack_guard client_ack_round
proof unfold_locales
  fix a and s :: tftp_client
  assume "client_ack_guard a"
  then obtain n bn where "a = (False, n, bn)" by (cases a) (simp add: client_ack_guard_def)
  then show "wlp (client_ack_round a) (\<lambda>r s'. case r of Inl e \<Rightarrow> True
      | Inr a' \<Rightarrow> length (inbox s') < length (inbox s)) s"
    by (auto simp: ack_result_def intro!: wlp_mono [OF client_ack_round_spec] split: sum.splits)
qed simp

definition client_ack_inv ::
  "tftp_client \<Rightarrow> 16 word \<Rightarrow> bool \<times> nat \<times> 16 word \<Rightarrow> tftp_client \<Rightarrow> bool" where
  "client_ack_inv s bn = (\<lambda>(a, n, bn') s'. quiet (server s) s s' \<and>
     (if a then n < MAX_RETRIES \<and> bn' = bn + 1 \<and> acked (server s) s [uint bn] s' else bn' = bn))"

definition client_ack_result ::
  "tftp_client \<Rightarrow> 16 word \<Rightarrow> (bool \<times> nat \<times> 16 word) outcome \<Rightarrow> tftp_client \<Rightarrow> bool" where
  "client_ack_result s bn r s' = (case r of
     Inl e \<Rightarrow> gave_up s e s'
   | Inr x \<Rightarrow> client_ack_inv s bn x s' \<and> \<not> client_ack_guard x)"

lemma client_ack_loop_spec:
  "wlp (while_m client_ack_guard client_ack_round (False, 0, bn)) (client_ack_result s bn) s"
proof (rule wlp_while [where I = "client_ack_inv s bn"])
  fix x s1
  assume I: "client_ack_inv s bn x s1" and g: "client_ack_guard x"
  then obtain n where x: "x = (False, n, bn)" "n < MAX_RETRIES" "quiet (server s) s s1"
    by (cases x) (auto simp: client_ack_inv_def client_ack_guard_def split: if_splits)
  then have c: "server s1 = server s" "same_session s s1" by (simp_all add: quiet_client_fields)
  show "wlp (client_ack_round x) (\<lambda>r s'. case r of
      Inl e \<Rightarrow> client_ack_result s bn (Inl e) s' | Inr a' \<Rightarrow> client_ack_inv s bn a' s') s1"
    unfolding x(1)
  proof (rule wlp_mono [OF client_ack_round_spec], goal_cases)
    case (1 r s')
    then show ?case
      using x c quiet_trans [OF x(3)] gave_up_trans [OF x(3)] acked_before [OF c(2)]
      by (cases r) (auto simp: ack_result_def client_ack_result_def client_ack_inv_def split: if_splits)
  qed
qed (auto simp: client_ack_inv_def client_ack_result_def)

section \<open>Sending the blocks\<close>

text \<open>
  Reading the standard input is the only change of the session besides the waiting. The block
  numbers of the client are 16 bits wide and wrap around.
\<close>

definition same_upload :: "tftp_client \<Rightarrow> tftp_client \<Rightarrow> bool" where
  "same_upload s s' \<longleftrightarrow> same_session s (s'\<lparr>std_in := std_in s\<rparr>)
     \<and> fsys s' = fsys s \<and> the_writer s' = the_writer s"

definition ack_numbers :: "nat \<Rightarrow> int list" where
  "ack_numbers k = map (\<lambda>i. i mod 65536) [1..int k]"

lemma ack_numbers_simps [simp]:
  "ack_numbers 0 = []" "ack_numbers (Suc k) = ack_numbers k @ [(int k + 1) mod 65536]"
proof -
  have "[1..int (Suc k)] = [1..int k] @ [int k + 1]"
    using upto_rec2 [of 1 "int k + 1"] by (simp add: add.commute)
  then show "ack_numbers (Suc k) = ack_numbers k @ [(int k + 1) mod 65536]"
    by (simp add: ack_numbers_def)
qed (simp add: ack_numbers_def)

text \<open>The first \<open>k\<close> blocks have been sent, all but the last of them acknowledged.\<close>

definition uploaded ::
  "tftp_client \<Rightarrow> bytes list \<Rightarrow> nat \<Rightarrow> bytes list \<Rightarrow> tftp_client \<Rightarrow> bool" where
  "uploaded s bs k extra s' \<longleftrightarrow> k \<le> length bs \<and> same_upload s s'
     \<and> sent_to (server s) (outbox s') =
         sent_to (server s) (outbox s) @ data_raws 1 (take k bs) @ extra
     \<and> acked (server s) s (ack_numbers (k - 1)) s'"

definition upload_inv ::
  "tftp_client \<Rightarrow> bytes list \<Rightarrow> 16 word \<times> bool \<times> std_handler \<Rightarrow> tftp_client \<Rightarrow> bool" where
  "upload_inv s bs = (\<lambda>(bn, fin, h) s'. \<exists>k. uploaded s bs k [] s'
     \<and> acked (server s) s (ack_numbers k) s' \<and>
     (if fin then k = length bs
      else bn = word_of_int (int k + 1) \<and> std_good h s'
         \<and> blocks (unat (cl_blksize s)) (std_left h s') = drop k bs))"

definition upload_result ::
  "tftp_client \<Rightarrow> bytes list \<Rightarrow> 'a outcome \<Rightarrow> tftp_client \<Rightarrow> bool" where
  "upload_result s bs r s' = (case r of
     Inr _ \<Rightarrow> uploaded s bs (length bs) [] s' \<and> acked (server s) s (ack_numbers (length bs)) s'
   | Inl e \<Rightarrow> \<exists>k extra. uploaded s bs k extra s'
       \<and> (extra = [] \<or> interrupted e \<and> extra = [farewell]))"

lemma same_upload_fields:
  assumes "same_upload s s'"
  shows "server s' = server s \<and> args s' = args s \<and> cl_blksize s' = cl_blksize s
    \<and> maxPacketSize s' = maxPacketSize s"
  using assms same_client_fields [of s "s'\<lparr>std_in := std_in s\<rparr>"]
  by (simp add: same_upload_def same_session_def)

lemma same_upload_quiet:
  assumes u: "same_upload s s1" and q: "quiet p s1 s'"
  shows "same_upload s s'"
proof -
  have "same_session (s1\<lparr>std_in := std_in s\<rparr>) (s'\<lparr>std_in := std_in s\<rparr>)"
    using q by (simp add: quiet_def same_session_def)
  with u q show ?thesis
    using same_session_trans [of s "s1\<lparr>std_in := std_in s\<rparr>"]
    by (simp add: same_upload_def quiet_def)
qed

lemma acked_upload:
  assumes u: "same_upload s s1" and a: "acked p s ns s1" and q: "same_session s1 s'"
    and b: "acked p s1 ms s'"
  shows "acked p s (ns @ ms) s'" "acked p s ns s'"
proof -
  let ?s1 = "s1\<lparr>std_in := std_in s\<rparr>"
  have 1: "acked p s ns ?s1" "same_session s ?s1" "acked p ?s1 ms s'"
    using a b u by (simp_all add: acked_def same_upload_def)
  then show "acked p s (ns @ ms) s'" by (rule acked_trans)
  have "acked p ?s1 [] s'" using acked_Nil [OF q, of p] by (simp add: acked_def)
  with acked_trans [OF 1(1,2), of "[]" s'] show "acked p s ns s'" by simp
qed

lemma uploaded_quiet:
  assumes "uploaded s bs k extra s1" "quiet (server s) s1 s'"
  shows "uploaded s bs k extra s'"
proof -
  have "acked (server s) s (ack_numbers (k - 1)) s'"
    using acked_upload(2) [OF _ _ quiet_session [OF assms(2)] acked_Nil [OF quiet_session [OF assms(2)]]]
      assms(1) by (simp add: uploaded_def)
  then show ?thesis
    using assms same_upload_quiet [OF _ assms(2)] by (simp add: uploaded_def quiet_def)
qed

lemma uploaded_given_up:
  assumes b: "uploaded s bs k [] s1" and gu: "gave_up s1 e s'"
  shows "upload_result s bs (Inl e) s'"
proof -
  have "server s1 = server s" using b same_upload_fields by (simp add: uploaded_def)
  then have g: "given_up (server s) farewell s1 e s'"
    and fs: "fsys s' = fsys s1" "the_writer s' = the_writer s1"
    using gu by (simp_all add: gave_up_def)
  have ses: "same_upload s s1" "same_session s1 s'"
    using b g by (simp_all add: uploaded_def given_up_def)
  have "same_session (s1\<lparr>std_in := std_in s\<rparr>) (s'\<lparr>std_in := std_in s\<rparr>)"
    using ses(2) by (simp add: same_session_def)
  then have "same_upload s s'"
    using ses(1) fs same_session_trans [of s "s1\<lparr>std_in := std_in s\<rparr>"]
    by (simp add: same_upload_def)
  moreover have "acked (server s) s (ack_numbers (k - 1)) s'"
    using acked_upload(2) [OF ses(1) _ ses(2) acked_Nil [OF ses(2)]] b by (simp add: uploaded_def)
  ultimately have "uploaded s bs k (if quiet (server s) s1 s' then [] else [farewell]) s'"
    using b g by (auto simp: uploaded_def given_up_def quiet_def)
  moreover have "quiet (server s) s1 s' \<or> interrupted e" using g by (auto simp: given_up_def)
  ultimately show ?thesis by (auto simp: upload_result_def split: if_splits)
qed

lemma read_block_good:
  assumes "std_good h s" "0 < n"
  shows "\<exists>h' st. read_block n h s = Some (Inr (take n (std_left h s), h'), s\<lparr>std_in := st\<rparr>)
      \<and> std_left h' (s\<lparr>std_in := st\<rparr>) = drop n (std_left h s)
      \<and> (n \<le> length (std_left h s) \<longrightarrow> std_good h' (s\<lparr>std_in := st\<rparr>))"
  using stdin_source.read_good [OF assms] by (fastforce simp: read_block_def try_catch_def)

lemma std_same_in:
  "std_in s' = std_in s \<Longrightarrow> std_left h s' = std_left h s"
  "std_in s' = std_in s \<Longrightarrow> std_good h s' = std_good h s"
  by (simp_all add: std_left_def std_good_def)

lemma uint_word16: "uint (word_of_int i :: 16 word) = i mod 65536"
  by (simp add: uint_word_of_int)

lemma uint_word16_Suc: "uint (1 + word_of_nat k :: 16 word) = (1 + int k) mod 65536"
  using uint_word16 [of "int k + 1"] by (simp add: add.commute)

text \<open>After the DATA packet of block \<open>k + 1\<close>: waiting for its ACK.\<close>

lemma upload_wait_spec:
  assumes s3: "uploaded s bs (Suc k) [] s3" and ak: "acked (server s) s (ack_numbers k) s3"
    and last: "last' \<Longrightarrow> Suc k = length bs"
    and more: "\<not> last' \<Longrightarrow> std_good h s3 \<and>
      blocks (unat (cl_blksize s)) (std_left h s3) = drop (Suc k) bs"
  shows "wlp (bnd (while_m client_ack_guard client_ack_round (False, 0, word_of_int (int k + 1)))
      (\<lambda>(a, retries, bn'). seq Client_CheckForSigintWRQ
        (if retries \<ge> MAX_RETRIES then throw timeout_error
         else seq TimeoutReset (ret (bn', last', h))))) (\<lambda>r s'. case r of
      Inl e \<Rightarrow> upload_result s bs (Inl e :: 'a outcome) s' | Inr a' \<Rightarrow> upload_inv s bs a' s') s3"
  unfolding wlp_bnd
proof (rule wlp_mono [OF client_ack_loop_spec], goal_cases)
  case (1 r s')
  have f: "same_upload s s3" "server s3 = server s"
    using s3 same_upload_fields by (simp_all add: uploaded_def)
  show ?case
  proof (cases r)
    case (Inl e)
    with 1 uploaded_given_up [OF s3, of e s'] show ?thesis
      by (simp add: client_ack_result_def upload_result_def)
  next
    case (Inr x)
    obtain a m bn' where x: "x = (a, m, bn')" by (cases x)
    have q: "quiet (server s) s3 s'" and g: "a \<or> m \<ge> MAX_RETRIES"
      using 1 f by (simp_all add: Inr x client_ack_result_def client_ack_inv_def client_ack_guard_def not_less)
    have b: "uploaded s bs (Suc k) [] s'" using uploaded_quiet [OF s3 q] .
    let ?s4 = "s'\<lparr>loads := Suc (loads s')\<rparr>"
    let ?s5 = "?s4\<lparr>udp_timeout := default_timeout, so_rcvtimeo := default_timeout\<rparr>"
    have b4: "uploaded s bs (Suc k) [] ?s4" "uploaded s bs (Suc k) [] ?s5"
      using b by (simp_all add: uploaded_def same_upload_def same_session_def acked_def)
    have bye: "upload_result s bs (Inl (Exit 1) :: 'a outcome)
        (s'\<lparr>loads := Suc (loads s'), outbox := outbox s' @ [(server s', farewell)]\<rparr>)"
      using b same_upload_fields [of s s']
      by (auto simp: upload_result_def uploaded_def same_upload_def same_session_def acked_def
          interrupted_def intro!: exI [of _ "Suc k"] exI [of _ "[farewell]"])
    have out: "upload_result s bs (Inl e :: 'a outcome) ?s4" for e
      using b4(1) unfolding upload_result_def sum.case by blast
    have go: "upload_inv s bs (bn', last', h) ?s5" if "m < MAX_RETRIES"
    proof -
      have a: "bn' = word_of_int (int (Suc k) + 1)"
        "acked (server s) s3 [(int k + 1) mod 65536] s'"
        using 1 g that f by (auto simp: Inr x client_ack_result_def client_ack_inv_def uint_word16_Suc add.commute)
      have "acked (server s) s (ack_numbers (Suc k)) s'"
        using acked_upload(1) [OF f(1) ak quiet_session [OF q] a(2)] by simp
      then have "acked (server s) s (ack_numbers (Suc k)) ?s5" by (simp add: acked_def)
      moreover have "std_in ?s5 = std_in s3" using q by (simp add: quiet_def same_session_def)
      then have "\<not> last' \<Longrightarrow> std_good h ?s5
          \<and> blocks (unat (cl_blksize s)) (std_left h ?s5) = drop (Suc k) bs"
        using more std_same_in [of ?s5 s3 h] by simp
      ultimately show ?thesis
        unfolding upload_inv_def prod.case using b4(2) last a(1)
        by (intro exI [of _ "Suc k"] conjI) simp_all
    qed
    show ?thesis using bye out go by (auto simp: Inr x not_le)
  qed
qed

lemma select_convs_loads: "cl_blksize (s\<lparr>loads := x\<rparr>) = cl_blksize s"
  by simp

lemma upload_round_spec:
  assumes I: "upload_inv s bs (bn, False, h) s1" and blk: "0 < unat (cl_blksize s)"
  shows "wlp (upload_round (bn, False, h)) (\<lambda>r s'. case r of
      Inl e \<Rightarrow> upload_result s bs (Inl e :: 'a outcome) s' | Inr a' \<Rightarrow> upload_inv s bs a' s') s1"
proof -
  define n where "n = unat (cl_blksize s)"
  obtain k where k: "uploaded s bs k [] s1" "bn = word_of_int (int k + 1)"
    "acked (server s) s (ack_numbers k) s1" "std_good h s1" "blocks n (std_left h s1) = drop k bs"
    using I unfolding upload_inv_def prod.case if_False n_def [symmetric] by (elim exE conjE)
  have f: "server s1 = server s" "cl_blksize s1 = cl_blksize s" "same_upload s s1"
    using k(1) same_upload_fields by (simp_all add: uploaded_def)
  let ?s2 = "s1\<lparr>loads := Suc (loads s1)\<rparr>" and ?c = "std_left h s1"
  note tk = take_Suc_blocks [OF k(5)] note tk = tk [OF blk [folded n_def]]
  have s2: "std_good h ?s2" "std_left h ?s2 = ?c"
    using k(4) by (simp_all add: std_good_def std_left_def)
  obtain h' st where rd: "read_block n h ?s2 = Some (Inr (take n ?c, h'), ?s2\<lparr>std_in := st\<rparr>)"
      "std_left h' (?s2\<lparr>std_in := st\<rparr>) = drop n ?c"
      "n \<le> length ?c \<longrightarrow> std_good h' (?s2\<lparr>std_in := st\<rparr>)"
    using read_block_good [OF s2(1) blk [folded n_def]] unfolding s2(2) by blast
  let ?s3 = "s1\<lparr>loads := Suc (loads s1), std_in := st,
      outbox := outbox s1 @ [(server s, data_raw (int k + 1) (take n ?c))]\<rparr>"
  have s3: "uploaded s bs (Suc k) [] ?s3" "acked (server s) s (ack_numbers k) ?s3"
    using k(1,3) tk(1,2) f(3)
    by (simp_all add: uploaded_def acked_def add.commute same_upload_def same_session_def)
  have h': "std_left h' ?s3 = drop n ?c" "n \<le> length ?c \<longrightarrow> std_good h' ?s3"
    using rd(2,3) by (simp_all add: std_left_def std_good_def)
  have bye: "upload_result s bs (Inl (Exit 1) :: 'a outcome)
      (s1\<lparr>loads := Suc (loads s1), outbox := outbox s1 @ [(server s1, farewell)]\<rparr>)"
    using k(1) f by (auto simp: upload_result_def uploaded_def same_upload_def same_session_def
        acked_def interrupted_def intro!: exI [of _ k] exI [of _ "[farewell]"])
  have go: "wlp (bnd (gets cl_blksize) (\<lambda>blk.
     bnd (read_block (unat blk) h) (\<lambda>(data, std_handler').
     let last' = (if length data < unat blk then True else False);
         data_packet = DataPacket bn data (uint blk)
     in seq (send_to_server (DataPacket_MakeRaw data_packet))
       (bnd (while_m client_ack_guard client_ack_round (False, 0, bn))
         (\<lambda>(ackReceived, retries, block_number').
        seq Client_CheckForSigintWRQ
          (if retries \<ge> MAX_RETRIES then throw timeout_error
           else seq TimeoutReset (ret (block_number', last', std_handler')))))))) (\<lambda>r s'. case r of
      Inl e \<Rightarrow> upload_result s bs (Inl e :: 'a outcome) s' | Inr a' \<Rightarrow> upload_inv s bs a' s') ?s2"
    unfolding wlp_bnd_eq [where m = "gets cl_blksize", OF gets_eq]
      select_convs_loads f(2) n_def [symmetric] wlp_bnd_eq [where m = "read_block n h", OF rd(1)]
    using upload_wait_spec [OF s3, of True h'] upload_wait_spec [OF s3, of False h'] h' tk(3,4)
    by (cases "length ?c < n")
      (simp_all add: Let_def f n_def [symmetric] k(2) data_raw_def DataPacket_def del: wlp_bnd)
  show ?thesis
    unfolding upload_round_def prod.case wlp_seq [of Client_CheckForSigintWRQ]
      wlp_Client_CheckForSigintWRQ sum.case
    using bye go by (simp del: wlp_bnd)
qed

text \<open>The sending loop.\<close>

lemma upload_loop_spec:
  assumes "std_good h s" "0 < unat (cl_blksize s)"
  shows "wlp (while_m upload_guard upload_round (1, False, h))
    (upload_result s (blocks (unat (cl_blksize s)) (std_left h s))) s"
proof -
  define bs where "bs = blocks (unat (cl_blksize s)) (std_left h s)"
  show ?thesis
    unfolding bs_def [symmetric]
  proof (rule wlp_while [where I = "upload_inv s bs"])
    show "upload_inv s bs (1, False, h) s"
      using assms(1) by (auto simp: upload_inv_def uploaded_def same_upload_def bs_def acked_Nil intro!: exI [of _ 0])
  next
    fix a s1
    assume I: "upload_inv s bs a s1" and g: "upload_guard a"
    then obtain bn h1 where a: "a = (bn, False, h1)" by (cases a) (simp add: upload_guard_def)
    from upload_round_spec [OF I [unfolded a] assms(2)]
    show "wlp (upload_round a) (\<lambda>r s'. case r of
        Inl e \<Rightarrow> upload_result s bs (Inl e) s' | Inr a' \<Rightarrow> upload_inv s bs a' s') s1"
      unfolding a .
  next
    fix a s1
    assume "upload_inv s bs a s1" "\<not> upload_guard a"
    then show "upload_result s bs (Inr a) s1"
      by (cases a) (auto simp: upload_inv_def upload_guard_def upload_result_def)
  qed
qed

section \<open>The request\<close>

abbreviation wrq_raw :: "tftp_client \<Rightarrow> bytes" where
  "wrq_raw s \<equiv> request_raw s WRQ (arg_dest_filepath (args s))"

text \<open>
  How the exchange of the request ends: the request has been sent, if the options could be
  written, and an interruption was reported.
\<close>

definition exchanged :: "tftp_client \<Rightarrow> 'a outcome \<Rightarrow> tftp_client \<Rightarrow> bool" where
  "exchanged s r s1 \<longleftrightarrow> (case r of
     Inr _ \<Rightarrow> answered s [(server s, wrq_raw s)] s1
   | Inl e \<Rightarrow> \<exists>pre extra. answered s (pre @ extra) s1 \<and> (pre = [] \<or> pre = [(server s, wrq_raw s)])
       \<and> (extra = [] \<or> interrupted e \<and> extra = [(server s1, farewell)]))"

lemma interrupted_Exit [simp]: "interrupted (Exit 1)"
  by (simp add: interrupted_def)

text \<open>From a state after the request was sent: what a part of the exchange leads to.\<close>

definition replied :: "tftp_client \<Rightarrow> 'a outcome \<Rightarrow> tftp_client \<Rightarrow> bool" where
  "replied s r s1 \<longleftrightarrow> answered s [] s1
     \<or> (\<exists>e. r = Inl e \<and> interrupted e \<and> answered s [(server s1, farewell)] s1)"

lemma replied_trans:
  assumes "answered s [] s1" "replied s1 r s'" shows "replied s r s'"
  using assms(2) answered_trans [OF assms(1), of "[]" s']
    answered_trans [OF assms(1), of "[(server s', farewell)]" s'] by (auto simp: replied_def)

lemma wlp_check_replied:
  assumes "answered s [] s1"
  shows "wlp Client_CheckForSigintWRQ (\<lambda>r s'. replied s r s' \<and> (case r of
     Inl e \<Rightarrow> \<not> waitable e | Inr _ \<Rightarrow> answered s [] s')) s1"
  using assms answered_trans [OF assms answered_send [of s1 "server s1" farewell]]
  by (auto simp: replied_def answered_def)

lemma wlp_first_response_replied:
  "wlp (first_response Client_CheckForSigintWRQ) (\<lambda>r s'. replied s r s' \<and> (case r of
     Inl e \<Rightarrow> True | Inr _ \<Rightarrow> answered s [] s')) s"
  by (rule wlp_first_response)
    (auto simp: replied_def answered_def dest: sigint_set_mono)

lemma wlp_set_no_options:
  assumes "client_ok s"
  shows "wlp (seq (set_options []) SetupUdpClient)
     (\<lambda>r s'. r = Inr () \<and> client_ok s' \<and> reoptioned s s') s"
  unfolding wlp_seq wlp_set_options sum.case
proof (rule wlp_mono [OF wlp_SetupUdpClient], goal_cases)
  case 1
  then show ?case using assms by (simp add: client_ok_def)
next
  case (2 r s')
  then show ?case using reoptioned_trans [OF reoptioned_step(1) [where s = s and a = "[]"]] by simp
qed

text \<open>What the exchange is left with after a part of it: the answer was taken, or the reason for the end.\<close>

definition heard_reply :: "tftp_client \<Rightarrow> 'a outcome \<Rightarrow> tftp_client \<Rightarrow> bool" where
  "heard_reply s r s' \<longleftrightarrow> replied s r s' \<and> (case r of Inl e \<Rightarrow> True | Inr _ \<Rightarrow> answered s [] s')"

lemma wlp_check_heard:
  "answered s [] s1 \<Longrightarrow> wlp Client_CheckForSigintWRQ (heard_reply s) s1"
  by (rule wlp_mono [OF wlp_check_replied]) (auto simp: heard_reply_def split: sum.splits)

lemma heard_reply_now: "answered s [] s1 \<Longrightarrow> heard_reply s r s1"
  by (simp add: heard_reply_def replied_def split: sum.splits)

text \<open>The answer by its kind.\<close>

lemma wlp_take_answer:
  assumes a: "answered s [] s2" and ok: "client_ok s"
  shows "wlp (if opc = ACK then
            bnd (lift_exn (AckPacket_ctor_raw b)) (\<lambda>ack.
            if ap_block_number ack \<noteq> 0
            then throw (block_number_error ''ACK'' 0 (ap_block_number ack))
            else seq (set_options []) SetupUdpClient)
          else if opc = OACK then seq (accept_oack b) SetupUdpClient
          else if opc = ERROR then throw_error_packet ''Server'' b
          else throw (TFTPIllegalOperationError ''Expected ACK, OACK, or ERROR packet''))
        (heard_reply s) s2"
proof -
  have ok2: "client_ok s2" using a ok by (simp add: answered_def)
  have go: "answered s [] s3" if "client_ok s3" "reoptioned s2 s3" for s3
    using answered_trans [OF a reoptioned_answered [OF that(2,1)]] by simp
  have 1: "wlp (seq (set_options []) SetupUdpClient) (heard_reply s) s2"
    by (rule wlp_mono [OF wlp_set_no_options [OF ok2]]) (auto intro: heard_reply_now go)
  have 2: "wlp (seq (accept_oack b) SetupUdpClient) (heard_reply s) s2"
    unfolding wlp_seq
  proof (rule wlp_mono [OF wlp_accept_oack [OF ok2]], goal_cases)
    case (1 r s3)
    then show ?case
    proof (cases r)
      case (Inl e)
      with 1 heard_reply_now [OF a] show ?thesis by simp
    next
      case (Inr u)
      with 1 show ?thesis
        by (auto intro!: wlp_mono [OF wlp_SetupUdpClient] heard_reply_now go elim: reoptioned_trans)
    qed
  qed
  show ?thesis
    using 1 2 heard_reply_now [OF a]
    by (auto simp del: wlp_seq intro!: wlp_mono [OF wlp_throw_error_packet] split: sum.splits)
qed

lemma wlp_handle_answer:
  assumes a: "answered s [] s2" and ok: "client_ok s"
  shows "wlp (seq (if opc = ACK then
            bnd (lift_exn (AckPacket_ctor_raw b)) (\<lambda>ack.
            if ap_block_number ack \<noteq> 0
            then throw (block_number_error ''ACK'' 0 (ap_block_number ack))
            else seq (set_options []) SetupUdpClient)
          else if opc = OACK then seq (accept_oack b) SetupUdpClient
          else if opc = ERROR then throw_error_packet ''Server'' b
          else throw (TFTPIllegalOperationError ''Expected ACK, OACK, or ERROR packet''))
         Client_CheckForSigintWRQ) (heard_reply s) s2"
  unfolding wlp_seq [of "if opc = ACK then _ else _"]
proof (rule wlp_mono [OF wlp_take_answer [OF assms]], goal_cases)
  case (1 r s')
  then show ?case
    by (cases r) (auto simp: heard_reply_def [of s "Inr ()"] heard_reply_def [of s "Inl _"]
        simp del: wlp_Client_CheckForSigintWRQ intro!: wlp_check_heard)
qed

lemma wlp_wrq_response:
  assumes ok: "client_ok s"
  shows "wlp wrq_response (heard_reply s) s"
  unfolding wrq_response_def wlp_seq [of Client_CheckForSigintWRQ]
proof (rule wlp_mono [OF wlp_check_replied [OF answered_refl]], goal_cases)
  case (1 r s1)
  show ?case
  proof (cases r)
    case (Inl e)
    with 1 show ?thesis by (simp add: heard_reply_def)
  next
    case (Inr x)
    then have a1: "answered s [] s1" using 1 by simp
    show ?thesis
      unfolding Inr sum.case wlp_bnd [of "first_response _"]
    proof (rule wlp_mono [OF wlp_first_response_replied], goal_cases)
      case (1 r s2)
      show ?case
      proof (cases r)
        case (Inl e)
        with 1 replied_trans [OF a1, of r s2] show ?thesis by (simp add: heard_reply_def replied_def)
      next
        case (Inr b)
        then have a2: "answered s [] s2" using 1 answered_trans [OF a1, of "[]" s2] by simp
        show ?thesis
          unfolding Inr sum.case wlp_bnd [of "lift_exn _"] wlp_lift_exn
          using wlp_handle_answer [OF a2 ok] heard_reply_now [OF a2] by (cases "GetOpcodeFromRaw b") simp_all
      qed
    qed
  qed
qed

text \<open>The loop of \<open>SendWrq\<close> makes one round.\<close>

lemma wrq_loop_eq:
  "while_m wrq_guard wrq_round (0, False) s = bnd wrq_response (\<lambda>_. ret (0, True)) s"
proof -
  have w: "wrq_round (0, False) = bnd wrq_response (\<lambda>_. ret (0, True))"
    by (simp add: wrq_round_def seq_def)
  have "\<not> wrq_guard (0, True)" "wrq_guard (0, False)" by (simp_all add: wrq_guard_def MAX_RETRIES_def)
  then show ?thesis
    by (auto simp: while_m.simps [of wrq_guard wrq_round "(0, False)"] w bnd_def ret_def while_m_exit
        split: option.splits sum.splits)
qed

lemma exchanged_stop:
  assumes "answered s pre s1" "pre = [] \<or> pre = [(server s, wrq_raw s)]" "replied s1 (Inl e :: 'a outcome) s'"
  shows "exchanged s (Inl e :: 'b outcome) s'"
proof -
  have "answered s (pre @ []) s' \<or> interrupted e \<and> answered s (pre @ [(server s', farewell)]) s'"
    using assms(1,3) answered_trans [of s pre s1 "[]" s'] answered_trans [of s pre s1 "[(server s', farewell)]" s']
    by (auto simp: replied_def)
  then show ?thesis unfolding exchanged_def sum.case using assms(2) by blast
qed

lemma replied_refl [simp]: "replied s r s"
  by (simp add: replied_def)

text \<open>The part of \<open>SendWrq\<close> inside its \<open>try\<close>: a timeout happens only after the request was sent.\<close>

definition request_result :: "tftp_client \<Rightarrow> (nat \<times> bool) outcome \<Rightarrow> tftp_client \<Rightarrow> bool" where
  "request_result s r s' \<longleftrightarrow> exchanged s r s' \<and> (case r of Inr (n, returned) \<Rightarrow> returned
     | Inl e \<Rightarrow> e = Raise UdpTimeoutException \<longrightarrow> answered s [(server s, wrq_raw s)] s')"

lemma wlp_wrq_loop:
  assumes a: "answered s [(server s, wrq_raw s)] s2" and ok: "client_ok s"
  shows "wlp (while_m wrq_guard wrq_round (0, False)) (request_result s) s2"
  unfolding wlp_def [of "while_m _ _ _"] wrq_loop_eq wlp_def [symmetric] wlp_bnd
proof (rule wlp_mono [OF wlp_wrq_response], goal_cases)
  case 1
  then show ?case using a ok by (simp add: answered_def)
next
  case (2 r s')
  show ?case
  proof (cases r)
    case (Inl e)
    have "e = Raise UdpTimeoutException \<longrightarrow> answered s [(server s, wrq_raw s)] s'"
      using 2 answered_trans [OF a, of "[]" s'] by (auto simp: Inl heard_reply_def replied_def interrupted_def)
    with exchanged_stop [OF a, of e s'] 2 show ?thesis by (simp add: Inl request_result_def heard_reply_def)
  next
    case (Inr x)
    with 2 answered_trans [OF a, of "[]" s'] show ?thesis by (simp add: request_result_def exchanged_def heard_reply_def)
  qed
qed

lemma wlp_wrq_try:
  assumes a: "answered s [] s1" and same: "server s1 = server s" "args s1 = args s" and ok: "client_ok s"
  shows "wlp (bnd (gets (\<lambda>s. arg_dest_filepath (args s))) (\<lambda>dest.
     seq (send_request WRQ dest) (while_m wrq_guard wrq_round (0, False)))) (request_result s) s1"
  unfolding wlp_bnd [of "gets _"] wlp_gets sum.case same(2) wlp_seq
proof (rule wlp_mono [OF wlp_send_request], goal_cases)
  case (2 r s2)
  have raw: "request_raw s1 WRQ (arg_dest_filepath (args s)) = wrq_raw s"
    using same by (simp add: request_raw_def)
  show ?case
  proof (cases r)
    case (Inl e)
    then show ?thesis using 2 exchanged_stop [OF a, of e s1] by (auto simp: request_result_def waitable_def)
  next
    case (Inr x)
    have "answered s [(server s, wrq_raw s)] s2"
      using 2 answered_trans [OF a answered_send [of s1 "server s" "wrq_raw s"]] by (simp add: Inr raw same)
    from wlp_wrq_loop [OF this ok] show ?thesis by (simp add: Inr)
  qed
qed simp

lemma wlp_check_exchanged:
  assumes a: "answered s pre s1" "pre = [] \<or> pre = [(server s, wrq_raw s)]"
    and go: "\<not> sigint_set s1 \<Longrightarrow> Q (Inr ()) (s1\<lparr>loads := Suc (loads s1)\<rparr>)"
    and stop: "\<And>e s'. exchanged s (Inl e :: unit outcome) s' \<Longrightarrow> Q (Inl e) s'"
  shows "wlp Client_CheckForSigintWRQ Q s1"
  using go stop [OF exchanged_stop [OF a]] wlp_check_replied [OF answered_refl, of s1]
  by auto

lemma wlp_SendWrq:
  assumes ok: "client_ok s"
  shows "wlp SendWrq (exchanged s) s"
  unfolding SendWrq_def wlp_seq [of Client_CheckForSigintWRQ]
proof (rule wlp_check_exchanged [OF answered_refl], goal_cases)
  case 2
  let ?s1 = "s\<lparr>loads := Suc (loads s)\<rparr>"
  have tried: "wlp (bnd (gets (\<lambda>s. arg_dest_filepath (args s))) (\<lambda>dest.
     seq (send_request WRQ dest) (while_m wrq_guard wrq_round (0, False)))) (request_result s) ?s1"
    by (rule wlp_wrq_try) (simp_all add: ok)
  show ?case
    unfolding sum.case wlp_bnd [of "try_catch _ _"] wlp_try_catch
  proof (rule wlp_mono [OF tried], goal_cases)
    case (1 r s2)
    have tm: "exchanged s (Inl e :: unit outcome) s2" if "r = Inl e" for e
      using 1 that by (simp add: request_result_def exchanged_def)
    show ?case
    proof (cases r)
      case (Inr x)
      with 1 show ?thesis by (cases x) (simp add: request_result_def exchanged_def)
    next
      case (Inl e)
      show ?thesis
      proof (cases "e = Raise UdpTimeoutException")
        case True
        then have a: "answered s [(server s, wrq_raw s)]
            (s2\<lparr>udp_timeout := udp_timeout s2 * 2, so_rcvtimeo := udp_timeout s2 * 2\<rparr>)"
          using 1 Inl by (simp add: request_result_def)
        show ?thesis
          unfolding Inl True sum.case stop.case
          using a by (auto simp: MAX_RETRIES_def exchanged_def
              intro!: wlp_check_exchanged [OF a] simp del: wlp_Client_CheckForSigintWRQ)
      next
        case False
        with tm [OF Inl] show ?thesis by (cases e) (simp_all add: Inl)
      qed
    qed
  qed
qed simp_all

section \<open>The whole upload\<close>

text \<open>
  The outcome of the upload of the content \<open>c\<close>: the files are as before, what the server was
  sent are the request (once at most, at its first port) and the first \<open>k\<close> blocks, and the
  blocks before the last of them were acknowledged in order. \<open>extra\<close> is the report of an
  interruption.
\<close>

definition upload_blocks :: "tftp_client \<Rightarrow> bytes \<Rightarrow> bytes list" where
  "upload_blocks s' c = blocks (unat (cl_blksize s')) c"

definition upload_outcome :: "tftp_client \<Rightarrow> bytes \<Rightarrow> unit outcome \<Rightarrow> tftp_client \<Rightarrow> bool" where
  "upload_outcome s c r s' \<longleftrightarrow> fsys s' = fsys s \<and> the_writer s' = the_writer s
     \<and> sin_addr (server s') = sin_addr (server s) \<and> size_ok s' \<and> (\<exists>pre k extra.
     sent_to (server s') (outbox s') = sent_to (server s') (outbox s) @ pre
       @ data_raws 1 (take k (upload_blocks s' c)) @ extra
     \<and> (pre = [] \<or> pre = [wrq_raw s]) \<and> k \<le> length (upload_blocks s' c)
     \<and> acked (server s') s (ack_numbers (k - 1)) s' \<and> (case r of
          Inr _ \<Rightarrow> k = length (upload_blocks s' c) \<and> extra = []
            \<and> acked (server s') s (ack_numbers k) s'
        | Inl e \<Rightarrow> extra = [] \<or> interrupted e \<and> extra = [farewell]))"

lemma answered_acked:
  "answered s out s1 \<Longrightarrow> acked p s1 ns s' \<Longrightarrow> acked p s ns s'"
proof -
  assume a: "answered s out s1" "acked p s1 ns s'"
  obtain u v where "inbox s = u @ inbox s1" "inbox s1 = v @ inbox s'" "maxPacketSize s1 = maxPacketSize s"
    "subseq ns (acks p (maxPacketSize s1) v)"
    using a by (auto simp: answered_def acked_def)
  then show ?thesis unfolding acked_def
    by (intro exI [of _ "u @ v"]) (auto intro: list_emb_append2)
qed

lemma sent_to_pre: "sent_to p (x @ y) = sent_to p x @ sent_to p y"
  by simp

lemma answered_nothing: "answered s out s1 \<Longrightarrow> acked p s [] s1"
  by (auto simp: answered_def acked_def)

text \<open>From the end of the exchange, and from the end of the transfer.\<close>

lemma stopped_early:
  assumes "exchanged s (Inl e :: 'a outcome) s'" "client_ok s"
  shows "upload_outcome s c (Inl e) s'"
proof -
  obtain pre extra where a: "answered s (pre @ extra) s'" "pre = [] \<or> pre = [(server s, wrq_raw s)]"
    "extra = [] \<or> interrupted e \<and> extra = [(server s', farewell)]"
    using assms(1) by (auto simp: exchanged_def)
  have "sent_to (server s') (outbox s') = sent_to (server s') (outbox s) @ sent_to (server s') pre
      @ data_raws 1 (take 0 (upload_blocks s' c)) @ sent_to (server s') extra"
    using a(1) by (simp add: answered_def)
  moreover have "sent_to (server s') pre = [] \<or> sent_to (server s') pre = [wrq_raw s]"
    "sent_to (server s') extra = [] \<or> interrupted e \<and> sent_to (server s') extra = [farewell]"
    using a(2,3) by auto
  moreover have "acked (server s') s (ack_numbers (0 - 1)) s'" using answered_nothing [OF a(1)] by simp
  moreover have "fsys s' = fsys s \<and> the_writer s' = the_writer s
      \<and> sin_addr (server s') = sin_addr (server s) \<and> size_ok s'"
    using a(1) assms(2) by (simp add: answered_def client_ok_def)
  ultimately show ?thesis unfolding upload_outcome_def sum.case by blast
qed

lemma upload_result_outcome:
  assumes a: "answered s [(server s, wrq_raw s)] s1" and ok: "size_ok s1"
    and r: "upload_result s1 (blocks (unat (cl_blksize s1)) c) r s'"
  shows "upload_outcome s c r s'"
proof -
  define bs where "bs = blocks (unat (cl_blksize s1)) c"
  define pre where "pre = sent_to (server s1) [(server s, wrq_raw s)]"
  have pre: "pre = [] \<or> pre = [wrq_raw s]" by (simp add: pre_def)
  have o1: "sent_to (server s1) (outbox s1) = sent_to (server s1) (outbox s) @ pre"
    using a by (simp add: answered_def pre_def)
  have same: "upload_outcome s c r s'" if u: "uploaded s1 bs k extra s'"
    "case r of Inr _ \<Rightarrow> k = length bs \<and> extra = [] \<and> acked (server s1) s1 (ack_numbers k) s'
       | Inl e \<Rightarrow> extra = [] \<or> interrupted e \<and> extra = [farewell]" for k extra
  proof -
    have f: "server s' = server s1" "cl_blksize s' = cl_blksize s1" "fsys s' = fsys s1"
      "the_writer s' = the_writer s1"
      using u same_upload_fields [of s1 s'] by (simp_all add: uploaded_def same_upload_def)
    have b: "upload_blocks s' c = bs" by (simp add: upload_blocks_def f bs_def)
    have "sent_to (server s1) (outbox s') =
        sent_to (server s1) (outbox s) @ pre @ data_raws 1 (take k bs) @ extra"
      "k \<le> length bs" "acked (server s1) s (ack_numbers (k - 1)) s'"
      using u o1 answered_acked [OF a] by (simp_all add: uploaded_def)
    moreover have "case r of Inr _ \<Rightarrow> k = length bs \<and> extra = [] \<and> acked (server s1) s (ack_numbers k) s'
       | Inl e \<Rightarrow> extra = [] \<or> interrupted e \<and> extra = [farewell]"
      using u(2) answered_acked [OF a] by (cases r) auto
    moreover have "fsys s1 = fsys s \<and> the_writer s1 = the_writer s
        \<and> sin_addr (server s1) = sin_addr (server s) \<and> size_ok s'"
      using a ok f by (simp add: answered_def size_ok_def)
    ultimately show ?thesis unfolding upload_outcome_def b f using pre by blast
  qed
  show ?thesis
  proof (cases r)
    case (Inl e)
    with r same show ?thesis by (auto simp: upload_result_def bs_def)
  next
    case (Inr x)
    with r show ?thesis
      by (intro same [of "length bs" "[]"]) (simp_all add: upload_result_def bs_def)
  qed
qed

lemma stdin_octet:
  "good_stream (std_in s) \<Longrightarrow> std_good (StdHandler_ctor DF_OCTET i) s"
  "std_left (StdHandler_ctor DF_OCTET i) s = st_rest (std_in s)"
  by (simp_all add: std_good_def std_left_def StdHandler_ctor_def)

lemma size_ok_pos: "size_ok s \<Longrightarrow> 0 < unat (cl_blksize s)"
  unfolding size_ok_def uint_nat by linarith

lemma upload_loop_outcome:
  assumes a: "answered s [(server s, wrq_raw s)] s2" and ok: "size_ok s2" and std: "good_stream (std_in s)"
  shows "wlp (while_m upload_guard upload_round (1, False, StdHandler_ctor DF_OCTET i)) (\<lambda>r s'. case r of
      Inl e \<Rightarrow> upload_outcome s (st_rest (std_in s)) (Inl e) s'
    | Inr _ \<Rightarrow> upload_outcome s (st_rest (std_in s)) (Inr ()) s') s2"
proof -
  let ?c = "st_rest (std_in s)"
  have st: "std_in s2 = std_in s" using a by (simp add: answered_def)
  have "wlp (while_m upload_guard upload_round (1, False, StdHandler_ctor DF_OCTET i))
      (upload_result s2 (blocks (unat (cl_blksize s2)) ?c)) s2"
    using upload_loop_spec [of "StdHandler_ctor DF_OCTET i" s2] stdin_octet [where s = s2 and i = i] std st
      size_ok_pos [OF ok] by simp
  then show ?thesis
  proof (rule wlp_mono, goal_cases)
    case (1 r s')
    let ?r = "map_sum id (\<lambda>_. ()) r"
    have "upload_result s2 (blocks (unat (cl_blksize s2)) ?c) ?r s'"
      using 1 by (cases r) (simp_all add: upload_result_def)
    from upload_result_outcome [OF a ok this] show ?case by (cases r) simp_all
  qed
qed

lemma wlp_SendData:
  assumes a: "answered s [(server s, wrq_raw s)] s0" and ok: "client_ok s"
    and mode: "arg_file_mode (args s) = OCTET" and std: "good_stream (std_in s)"
  shows "wlp SendData (upload_outcome s (st_rest (std_in s))) s0"
  unfolding SendData_def wlp_seq [of Client_CheckForSigintWRQ]
proof (rule wlp_check_exchanged [OF a], goal_cases)
  case 2
  let ?s1 = "s0\<lparr>loads := Suc (loads s0)\<rparr>"
  have octet: "(if OCTET = NETASCII then DF_NETASCII else DF_OCTET) = DF_OCTET" by simp
  have a1: "answered s [(server s, wrq_raw s)] ?s1" using a by simp
  have m: "arg_file_mode (args ?s1) = OCTET" "client_ok ?s1"
    using a1 answered_fields [OF a1] mode ok by (simp_all add: answered_def)
  show ?case
    unfolding sum.case wlp_bnd [of "gets _"] wlp_gets m(1) Let_def wlp_seq [of use_blksize]
      octet
  proof (rule wlp_mono [OF wlp_use_blksize [OF m(2)]], goal_cases)
    case (1 r s2)
    then have a2: "answered s [(server s, wrq_raw s)] s2" and ok2: "size_ok s2" and r: "r = Inr ()"
      using answered_trans [OF a1 reoptioned_answered [of ?s1 s2]] by (simp_all add: client_ok_def)
    show ?case
      unfolding r sum.case wlp_seq
      by (rule wlp_mono [OF upload_loop_outcome [OF a2 ok2 std]]) (auto split: sum.splits)
  qed
qed (auto intro: stopped_early [OF _ ok])

lemma Client_Write_octet:
  assumes ok: "client_ok s" and mode: "arg_file_mode (args s) = OCTET"
    and std: "good_stream (std_in s)"
  shows "wlp Client_Write (upload_outcome s (st_rest (std_in s))) s"
  unfolding Client_Write_def wlp_seq
proof (rule wlp_mono [OF wlp_SendWrq [OF ok]], goal_cases)
  case (1 r s1)
  show ?case
  proof (cases r)
    case (Inl e)
    with 1 stopped_early [OF _ ok] show ?thesis by simp
  next
    case (Inr x)
    with 1 wlp_SendData [OF _ ok mode std, of s1] show ?thesis by (simp add: exchanged_def)
  qed
qed

section \<open>Returning\<close>

lemma client_ack_loop_consumes:
  "wlp (while_m client_ack_guard client_ack_round (False, 0, bn)) (\<lambda>r s'. case r of Inl e \<Rightarrow> True
     | Inr a' \<Rightarrow> length (inbox s') < length (inbox s)) s"
  by (rule wlp_mono [OF client_ack_loop.loop_inbox])
    (simp add: client_ack_guard_def MAX_RETRIES_def split: sum.splits)

lemma read_block_any:
  "wlp (read_block n h) (\<lambda>r s'. inbox s' = inbox s) s"
  by (auto simp: read_block_def ReadBytesFromStdin_def Let_def split: sum.splits stop.splits prod.splits)

lemma returns_read_block [simp, returns_rules]: "returns (read_block n h) s"
  unfolding read_block_def ReadBytesFromStdin_def Let_def
  by (intro returns_intros; simp split: sum.splits prod.splits; auto)

interpretation upload_loop: consuming_loop upload_guard upload_round
proof unfold_locales
  fix a and s :: tftp_client
  assume g: "upload_guard a"
  obtain bn fin h where a: "a = (bn, fin, h)" by (cases a)
  show "returns (upload_round a) s"
    unfolding upload_round_def a prod.case Let_def
    by (intro returns_intros) (simp_all add: client_ack_loop.loop_returns)
  show "wlp (upload_round a) (\<lambda>r s'. case r of Inl e \<Rightarrow> True
      | Inr a' \<Rightarrow> length (inbox s') < length (inbox s)) s"
    unfolding upload_round_def a prod.case Let_def
    by (auto intro!: wlp_mono [OF read_block_any] wlp_mono [OF client_ack_loop_consumes] split: sum.splits)
qed

lemma returns_wrq_response [simp, returns_rules]: "returns wrq_response s"
  unfolding wrq_response_def by (intro returns_intros) simp_all

lemma returns_wrq_loop [simp]: "returns (while_m wrq_guard wrq_round (0, False)) s"
proof -
  have "returns (bnd wrq_response (\<lambda>_. ret (0, True))) s" by (intro returns_intros) simp_all
  then show ?thesis by (simp only: returns_def wrq_loop_eq)
qed

lemma returns_Client_Write [simp, returns_rules]: "returns Client_Write s"
  unfolding Client_Write_def SendWrq_def SendData_def Let_def
  by (intro returns_intros) (simp_all add: upload_loop.loop_returns)

end
