(* ===== verification/Download.thy ===== *)
theory Download
  imports ClientLemmas
begin

text \<open>
  What a download guarantees (src/tftp-client/Read.cpp): when it succeeds, the local file holds
  the DATA blocks 1, 2, .. in this order, each written once; only blocks that have been
  written are acknowledged; no other file is touched; every loop returns. The invariants of
  the transfer are those of theory \<open>Receiving\<close>.
\<close>

section \<open>Waiting for one block\<close>

lemma block_reply_uint [simp]: "block_reply (uint (w :: 16 word)) = AckPacket_MakeRaw (AckPacket w)"
  by (simp add: block_reply_def)

lemma recv_inv_server:
  "recv_inv peer blk s first bs ns s1 \<Longrightarrow> server s1 = server s \<and> cl_blksize s1 = cl_blksize s"
  using recv_inv_fields same_client_fields by blast

definition heard :: "tftp_client \<Rightarrow> bytes \<Rightarrow> nat \<Rightarrow> 16 word \<Rightarrow> bool \<Rightarrow>
    (bool \<times> nat \<times> 16 word \<times> bool) outcome \<Rightarrow> tftp_client \<Rightarrow> bool" where
  "heard s c n bn fin r s' \<longleftrightarrow> (case r of
      Inl e \<Rightarrow> stopped (server s) farewell s [] e s'
        \<or> stopped (server s) farewell s [block_reply (uint bn)] e s'
    | Inr (a, n', bn', fin') \<Rightarrow> length (inbox s') < length (inbox s) \<and>
        (if a then n' = n \<and> uint bn' = uint bn + 1
           \<and> heard_block (server s) (uint (cl_blksize s)) s [block_reply (uint bn)] c (uint bn + 1) fin fin' s'
         else n' \<le> n + 1 \<and> bn' = bn \<and> fin' = fin
           \<and> still_waiting (server s) s [block_reply (uint bn)] c s'))"

text \<open>The states after the reply of a round.\<close>

lemma quiet_after_ack:
  assumes "writer_holds s c"
    "quiet (server s) (s\<lparr>loads := l, outbox := outbox s @ [(server s, reply)]\<rparr>) s2"
  shows "peer_frame (server s) s [reply] s2 \<and> writer_holds s2 c \<and> cl_blksize s2 = cl_blksize s
    \<and> server s2 = server s \<and> w_open (the_writer s2) = w_open (the_writer s)"
proof -
  have "peer_frame (server s) s [reply] (s\<lparr>loads := l, outbox := outbox s @ [(server s, reply)]\<rparr>)"
    by (simp add: peer_frame_def files_only_def same_session_def)
  from peer_frame_quiet [OF this assms(2)] assms show ?thesis
    by (simp add: writer_holds_quiet [OF assms(2)] quiet_client_fields)
qed

lemma word16_Suc: "uint (v :: 16 word) = uint (w :: 16 word) + 1 \<Longrightarrow> uint (w + 1) = uint w + 1"
  using uint_block_number [of v] by (simp add: uint_word_ariths)

lemma heard_interrupted:
  assumes "peer_frame (server s) s replies s2" "peer_frame (server s) s2 [farewell] s'" "interrupted e"
    and "replies = [] \<or> replies = [block_reply (uint bn)]"
  shows "heard s c n bn fin (Inl e) s'"
  using peer_frame_trans [OF assms(1,2)] assms(3,4) by (auto simp: heard_def stopped_def)

lemma client_data_wait:
  assumes w: "writer_holds s c" and blk: "size_ok s"
  shows "wlp (try_catch
       (bnd RecievePacketFromServer (\<lambda>response_n.
        bnd (lift_exn (GetOpcodeFromRaw response_n)) (\<lambda>opcode_n.
        if opcode_n = DATA then
          bnd (gets cl_blksize) (\<lambda>blk.
          bnd (lift_exn (DataPacket_ctor_raw response_n (uint blk))) (\<lambda>data_n.
          if uint (dp_block_number data_n) = uint bn + 1 then
            seq (write_block (dp_data data_n))
                (ret (True, n, bn + 1,
                      if length (dp_data data_n) < unat blk then True else fin))
          else if uint (dp_block_number data_n) < uint bn + 1 then
            seq IncreaseTimeout (ret (False, n + 1, bn, fin))
          else throw (block_number_error ''DATA'' (uint bn + 1) (dp_block_number data_n))))
        else if opcode_n = ERROR then throw_error_packet ''Server'' response_n
        else ret (False, n, bn, fin))))
       (catch_wait
          (seq IncreaseTimeout (ret (False, n + 1, bn, fin)))
          (seq Client_CheckForSigintRRQ (ret (False, n, bn, fin))))) (heard s c n bn fin)
    (s\<lparr>loads := l, outbox := outbox s @ [(server s, block_reply (uint bn))]\<rparr>)"
proof (rule wlp_wait_server, rule wlp_wait, goal_cases)
  let ?s1 = "s\<lparr>loads := l, outbox := outbox s @ [(server s, block_reply (uint bn))]\<rparr>"
  note q = quiet_after_ack [where l = l and reply = "block_reply (uint bn)", OF w]
  have b: "0 < uint (cl_blksize s)" "uint (cl_blksize s) < 2 ^ 32" using blk by (simp_all add: size_ok_def)
  {
    case (1 b s2)
    then have 2: "received (server s) ?s1 b s2" by simp
    have l: "length (inbox s2) < length (inbox s)"
      and qu: "peer_frame (server s) s [block_reply (uint bn)] s2" "writer_holds s2 c"
        "cl_blksize s2 = cl_blksize s" "w_open (the_writer s2) = w_open (the_writer s)"
      using received_length [OF 2] q [OF received_quiet [OF 2]] by simp_all
    have ses: "same_session s ?s1" by (simp add: same_session_def)
    have wr: "wlp (write_block (dp_data p)) (\<lambda>r s'. case r of
        Inl e \<Rightarrow> heard s c n bn fin (Inl e) s' \<and> \<not> waitable e
      | Inr _ \<Rightarrow> heard s c n bn fin (Inr (True, n, bn + 1,
            if length (dp_data p) < unat (cl_blksize s) then True else fin)) s') s2"
      if p: "DataPacket_ctor_raw b (uint (cl_blksize s)) = Inr p" "uint (dp_block_number p) = uint bn + 1" for p
    proof (rule wlp_mono [OF write_block_heard [OF qu(2,1) 2 p(1) ses b, where fin = fin and farewell = farewell]],
        goal_cases)
      case (1 r s')
      have "(int (length (dp_data p)) < uint (cl_blksize s)) = (length (dp_data p) < unat (cl_blksize s))"
        unfolding uint_nat by linarith
      then have fin: "(if length (dp_data p) < unat (cl_blksize s) then True else fin) =
          (fin \<or> int (length (dp_data p)) < uint (cl_blksize s))" by simp
      have nums: "uint (bn + 1) = uint bn + 1" using word16_Suc [OF p(2)] .
      show ?case
      proof (cases r)
        case (Inl e)
        with 1 show ?thesis by (simp add: heard_def)
      next
        case (Inr u)
        with 1 l p(2) nums show ?thesis unfolding sum.case fin by (simp add: heard_def)
      qed
    qed
    show ?case
      using qu l
      by (auto simp: heard_def stopped_def still_waiting_def ctor_not_waitable
          intro!: wlp_mono [OF wlp_throw_error_packet] wlp_mono [OF wr] split: sum.splits)
  next
    case (2 s2)
    then show ?case using q [of s2] by (auto simp: heard_def still_waiting_def)
  next
    case (3 s2)
    then show ?case
      using q [of s2] unfolding wlp_seq
      by (intro wlp_Client_CheckForSigintRRQ) (auto intro: heard_interrupted)
  next
    case (4 e s2)
    then show ?case using q [of s2] by (simp add: heard_def stopped_def)
  }
qed

lemma heard_loads: "heard s c n bn fin (Inr (False, n', bn', fin')) s' \<Longrightarrow>
  heard s c n bn fin (Inr (False, n', bn', fin')) (s'\<lparr>loads := l\<rparr>)"
  by (simp add: heard_def still_waiting_def)

lemma heard_again:
  assumes "heard s c n bn fin (Inr (False, n', bn', fin')) s'"
  shows "wlp (seq Client_CheckForSigintRRQ (ret (False, n', bn', fin'))) (heard s c n bn fin) s'"
proof -
  have f: "peer_frame (server s) s [block_reply (uint bn)] s'"
    using assms by (simp add: heard_def still_waiting_def)
  then have "server s' = server s" by (simp add: peer_frame_def same_client_fields)
  with f assms show ?thesis
    unfolding wlp_seq
    by (intro wlp_Client_CheckForSigintRRQ) (auto intro: heard_interrupted heard_loads)
qed

lemma client_data_round_spec:
  assumes w: "writer_holds s c" and blk: "size_ok s"
  shows "wlp (client_data_round (False, n, bn, fin)) (heard s c n bn fin) s"
  unfolding client_data_round_def prod.case wlp_bnd [of "try_catch _ _"] try_catch_seq
proof (rule wlp_Client_CheckForSigintRRQ, goal_cases)
  case 1
  show ?case
    unfolding sum.case wlp_send_to_server block_reply_uint [symmetric]
  proof (rule wlp_mono [where Q = "heard s c n bn fin"], goal_cases)
    case 1
    show ?case using client_data_wait [OF w blk, of bn n fin "Suc (loads s)"] by simp
  next
    case (2 r s')
    show ?case
    proof (cases r)
      case (Inl e)
      with 2 show ?thesis by simp
    next
      case (Inr x)
      obtain a n' bn' fin' where x: "x = (a, n', bn', fin')" by (cases x) auto
      show ?thesis
        using 2 heard_again [of s c n bn fin n' bn' fin' s'] by (cases a) (simp_all add: Inr x del: wlp_seq)
    qed
  qed
next
  case (2 e s')
  then have h: "heard s c n bn fin (Inl e) s'"
    using heard_interrupted [of s "[]" s s' e] by simp
  with 2 show ?case by (cases e) (auto simp: waitable_def)
qed

section \<open>The waiting loop\<close>

lemma returns_client_data_round [simp, returns_rules]: "returns (client_data_round a) s"
  unfolding client_data_round_def
  by (cases a; simp only: prod.case; intro round_returns; simp)

lemma wlp_check_keeps_inbox:
  "wlp Client_CheckForSigintRRQ (\<lambda>r s'. inbox s' = inbox s \<and> (sigint_set s \<longrightarrow> (\<exists>e. r = Inl e)) \<and> unhandled r) s"
  by (rule wlp_Client_CheckForSigintRRQ) auto

lemma client_data_round_consumes:
  "wlp (client_data_round a) (\<lambda>r s'. case r of Inl e \<Rightarrow> True
     | Inr a' \<Rightarrow> length (inbox s') < length (inbox s)) s"
proof -
  obtain b n bn fin where a: "a = (b, n, bn, fin)" by (cases a) auto
  show ?thesis
    unfolding client_data_round_def a prod.case wlp_bnd [of "try_catch _ _"] try_catch_seq
  proof (rule wlp_mono [OF wlp_check_keeps_inbox], goal_cases)
    case (1 r s1)
    show ?case
    proof (cases r)
      case (Inl e)
      with 1 show ?thesis by (auto simp: waitable_def split: stop.splits)
    next
      case (Inr u)
      show ?thesis
        unfolding Inr sum.case wlp_send_to_server
      proof (rule wlp_wait_server, rule wlp_mono [OF round_consumes], goal_cases)
        case (1 b s2)
        then show ?case
          by (auto simp: ctor_not_waitable intro!: wlp_mono [OF wlp_throw_error_packet]
            wlp_mono [OF write_block_any] split: sum.splits)
      next
        case (2 s2)
        then show ?case by simp
      next
        case (3 s2)
        then show ?case by (auto intro!: wlp_mono [OF wlp_check_keeps_inbox])
      next
        case (4 r s2)
        then show ?case
          using 1 by (cases r) (auto split: stop.splits sum.splits intro!: wlp_mono [OF wlp_check_keeps_inbox])
      qed
    qed
  qed
qed

interpretation client_data_loop: consuming_loop client_data_guard client_data_round
  by unfold_locales (simp_all add: client_data_round_consumes)

section \<open>The downloading loops\<close>

lemma reply_of_block_0 [simp]: "reply_of (l, block_reply 0) = (\<lambda>n. block_reply (int n))"
  by (auto simp: reply_of_def)

text \<open>The transfer, from a state \<open>b\<close> in which nothing has been received.\<close>

abbreviation taken :: "tftp_client \<Rightarrow> bytes list \<Rightarrow> nat list \<Rightarrow> tftp_client \<Rightarrow> bool" where
  "taken b \<equiv> recv_inv (server b) (uint (cl_blksize b)) b (1, block_reply 0)"

abbreviation cut_short :: "tftp_client \<Rightarrow> stop \<Rightarrow> tftp_client \<Rightarrow> bool" where
  "cut_short b \<equiv> recv_stopped (server b) (uint (cl_blksize b)) farewell b (1, block_reply 0)"

definition client_data_inv ::
  "tftp_client \<Rightarrow> bytes list \<Rightarrow> bool \<times> nat \<times> 16 word \<times> bool \<Rightarrow> tftp_client \<Rightarrow> bool" where
  "client_data_inv b bs = (\<lambda>(a, n, bn, fin) s'.
     wait_inv (server b) (uint (cl_blksize b)) b (1, block_reply 0) bs a fin s' \<and>
     uint bn = int (length bs) + (if a then 1 else 0) \<and> (a \<longrightarrow> n < MAX_RETRIES))"

definition client_data_result :: "tftp_client \<Rightarrow> bytes list \<Rightarrow>
    (bool \<times> nat \<times> 16 word \<times> bool) outcome \<Rightarrow> tftp_client \<Rightarrow> bool" where
  "client_data_result b bs r s' = (case r of
     Inl e \<Rightarrow> cut_short b e s'
   | Inr x \<Rightarrow> client_data_inv b bs x s' \<and> \<not> client_data_guard x)"

lemma client_data_loop_spec:
  assumes inv: "taken b bs ns s1" and bn: "uint bn = int (length bs)" and blk: "size_ok b"
  shows "wlp (while_m client_data_guard client_data_round (False, 0, bn, False)) (client_data_result b bs) s1"
proof (rule wlp_while [where I = "client_data_inv b bs"])
  show "client_data_inv b bs (False, 0, bn, False) s1"
    using inv bn by (auto simp: wait_inv_def client_data_inv_def)
next
  fix x s2
  assume I: "client_data_inv b bs x s2" and g: "client_data_guard x"
  then obtain n bn2 ns2 where x: "x = (False, n, bn2, False)" and i: "taken b bs ns2 s2"
    and n: "n < MAX_RETRIES" and bn2: "uint bn2 = int (length bs)"
    by (cases x) (auto simp: wait_inv_def client_data_guard_def client_data_inv_def)
  note f = recv_inv_server [OF i]
  have w: "writer_holds s2 (concat bs)" "size_ok s2"
    using recv_inv_fields [OF i] blk f by (simp_all add: size_ok_def)
  show "wlp (client_data_round x) (\<lambda>r s'. case r of
      Inl e \<Rightarrow> client_data_result b bs (Inl e) s' | Inr a' \<Rightarrow> client_data_inv b bs a' s') s2"
    unfolding x
  proof (rule wlp_mono [OF client_data_round_spec [OF w]], goal_cases)
    case (1 r s')
    show ?case
    proof (cases r)
      case (Inl e)
      with 1 recv_inv_stopped [OF i, of farewell "[length bs]" e s']
        recv_inv_stopped [OF i, of farewell "[]" e s'] show ?thesis
        by (auto simp: client_data_result_def heard_def f bn2)
    next
      case (Inr y)
      obtain a n' bn' fin' where y: "y = (a, n', bn', fin')" by (cases y) auto
      show ?thesis
      proof (cases a)
        case True
        with 1 n recv_inv_heard [OF i, of "[length bs]" fin' s'] show ?thesis
          by (auto simp: Inr y f bn2 client_data_inv_def wait_inv_def heard_def)
      next
        case False
        with 1 recv_inv_still [OF i, of "[length bs]" s'] show ?thesis
          by (auto simp: Inr y f bn2 client_data_inv_def wait_inv_def heard_def)
      qed
    qed
  qed
qed (simp add: client_data_result_def)

definition download_inv :: "tftp_client \<Rightarrow> 16 word \<times> bool \<Rightarrow> tftp_client \<Rightarrow> bool" where
  "download_inv b = (\<lambda>(bn, fin) s'. \<exists>bs ns. taken b bs ns s' \<and> uint bn = int (length bs)
     \<and> shape (uint (cl_blksize b)) fin bs)"

lemma download_round_spec:
  assumes I: "download_inv b (bn, False) s1" and blk: "size_ok b"
  shows "wlp (download_round (bn, False)) (\<lambda>r s'. case r of
      Inl e \<Rightarrow> cut_short b e s' | Inr a' \<Rightarrow> download_inv b a' s') s1"
proof -
  obtain bs ns where i: "taken b bs ns s1" "uint bn = int (length bs)" "shape (uint (cl_blksize b)) False bs"
    using I by (auto simp: download_inv_def)
  show ?thesis
    unfolding download_round_def prod.case wlp_bnd
  proof (rule wlp_mono [OF client_data_loop_spec [OF i(1,2) blk]], goal_cases)
    case (1 r s')
    show ?case
    proof (cases r)
      case (Inl e)
      with 1 show ?thesis by (simp add: client_data_result_def)
    next
      case (Inr y)
      obtain a n bn' fin where y: "y = (a, n, bn', fin)" by (cases y) auto
      have d: "client_data_inv b bs (a, n, bn', fin) s'" "a \<or> n \<ge> MAX_RETRIES"
        using 1 by (simp_all add: Inr y client_data_result_def client_data_guard_def not_less)
      have wi: "wait_inv (server b) (uint (cl_blksize b)) b (1, block_reply 0) bs a fin s'"
        and bn': "uint bn' = int (length bs) + (if a then 1 else 0)"
        using d(1) by (simp_all add: client_data_inv_def)
      show ?thesis
      proof (cases "n \<ge> MAX_RETRIES")
        case True
        with wait_timeout [OF wi] show ?thesis by (simp add: Inr y)
      next
        case False
        with d(2) have "a" by simp
        with wait_over [OF wi i(3)] bn' False show ?thesis
          by (auto simp: Inr y download_inv_def)
      qed
    qed
  qed
qed

interpretation download_loop: consuming_loop download_guard download_round
proof unfold_locales
  fix a s assume "download_guard a"
  obtain bn fin where a: "a = (bn, fin)" by (cases a)
  show "returns (download_round a) s"
    unfolding download_round_def a prod.case
    by (intro returns_intros) (simp_all add: client_data_loop.loop_returns)
  have c: "wlp (while_m client_data_guard client_data_round (False, 0, bn, fin)) (\<lambda>r s'. case r of Inl e \<Rightarrow> True
      | Inr a' \<Rightarrow> length (inbox s') < length (inbox s)) s"
    by (rule wlp_mono [OF client_data_loop.loop_inbox])
      (simp add: client_data_guard_def MAX_RETRIES_def split: sum.splits)
  show "wlp (download_round a) (\<lambda>r s'. case r of Inl e \<Rightarrow> True
      | Inr a' \<Rightarrow> length (inbox s') < length (inbox s)) s"
    unfolding download_round_def a prod.case wlp_bnd
    by (rule wlp_mono [OF c]) (auto split: sum.splits)
qed

text \<open>An interruption between two blocks, and the last ACK.\<close>

lemma taken_interrupted:
  assumes i: "taken b bs ns s1" and e: "interrupted e" "peer_frame (server s1) s1 [farewell] s'"
  shows "cut_short b e s'"
proof (rule recv_inv_stopped [OF i])
  show "stopped (server b) farewell s1 (map (reply_of (1, block_reply 0)) []) e s'"
    using e recv_inv_server [OF i] by (simp add: stopped_def)
qed simp

abbreviation download_result :: "tftp_client \<Rightarrow> unit outcome \<Rightarrow> tftp_client \<Rightarrow> bool" where
  "download_result b \<equiv> whole_result (server b) (uint (cl_blksize b)) farewell b (1, block_reply 0)"

lemma wlp_last_ack:
  assumes I: "download_inv b (bn, True) s1"
  shows "wlp (seq Client_CheckForSigintRRQ (send_to_server (AckPacket_MakeRaw (AckPacket bn))))
     (download_result b) s1"
proof -
  obtain bs ns where i: "taken b bs ns s1" and bn: "uint bn = int (length bs)"
    and sh: "shape (uint (cl_blksize b)) True bs"
    using I by (auto simp: download_inv_def)
  have f: "server s1 = server b" using recv_inv_server [OF i] by simp
  have i': "taken b bs ns (s1\<lparr>loads := Suc (loads s1)\<rparr>)" using i by simp
  have "bs \<noteq> []" using sh by (auto simp: shape_def)
  from send_last_ack [OF i' this] have go: "download_result b (Inr ()) (s1\<lparr>loads := Suc (loads s1),
      outbox := outbox s1 @ [(server s1, block_reply (uint bn))]\<rparr>)"
    using sh unfolding whole_result_def sum.case by (intro exI conjI) (simp_all add: f bn)
  show ?thesis
    unfolding wlp_seq
  proof (rule wlp_Client_CheckForSigintRRQ, goal_cases)
    case 1
    then show ?case using go by simp
  next
    case (2 e s')
    then show ?case using taken_interrupted [OF i] by (simp add: whole_result_def)
  qed
qed

lemma wlp_download_loop:
  assumes I: "download_inv b (bn, fin) s1" and blk: "size_ok b"
  shows "wlp (bnd (while_m download_guard download_round (bn, fin)) (\<lambda>(block_number', _).
      seq Client_CheckForSigintRRQ (send_to_server (AckPacket_MakeRaw (AckPacket block_number')))))
     (download_result b) s1"
proof -
  have "wlp (while_m download_guard download_round (bn, fin)) (\<lambda>r s'. case r of
      Inl e \<Rightarrow> cut_short b e s' | Inr x \<Rightarrow> download_inv b x s' \<and> \<not> download_guard x) s1"
  proof (rule wlp_while [where I = "download_inv b"])
    fix x s2
    assume I: "download_inv b x s2" and "download_guard x"
    then obtain bn where x: "x = (bn, False)" by (cases x) (simp add: download_guard_def)
    show "wlp (download_round x) (\<lambda>r s'. case r of
        Inl e \<Rightarrow> (case Inl e of Inl e \<Rightarrow> cut_short b e s'
          | Inr x \<Rightarrow> download_inv b x s' \<and> \<not> download_guard x)
      | Inr a' \<Rightarrow> download_inv b a' s') s2"
      using download_round_spec [OF I [unfolded x] blk] unfolding x sum.case .
  qed (use I in simp_all)
  then show ?thesis
    unfolding wlp_bnd
  proof (rule wlp_mono, goal_cases)
    case (1 r s')
    show ?case
    proof (cases r)
      case (Inl e)
      with 1 show ?thesis by (simp add: whole_result_def)
    next
      case (Inr x)
      obtain bn' fin' where x: "x = (bn', fin')" by (cases x)
      have "download_inv b (bn', True) s'"
        using 1 by (cases fin') (simp_all add: Inr x download_guard_def)
      from wlp_last_ack [OF this] show ?thesis by (simp add: Inr x)
    qed
  qed
qed

section \<open>The request\<close>

abbreviation rrq_raw :: "tftp_client \<Rightarrow> bytes" where
  "rrq_raw s \<equiv> request_raw s RRQ (arg_filepath (args s))"

text \<open>
  \<open>started s b\<close>: between \<open>s\<close> and \<open>b\<close> the request was sent, and repeated, and nothing of the
  file was received. The first answer is taken from any address, whose port becomes the
  server's: when it is the first block, \<open>b\<close> has it in its inbox as if the server had sent it.
\<close>

definition readdressed :: "tftp_client \<Rightarrow> tftp_client \<Rightarrow> tftp_client \<Rightarrow> bool" where
  "readdressed s c b \<longleftrightarrow> b = c \<or> (\<exists>a d used. b = c\<lparr>inbox := Datagram (server c) d # inbox c\<rparr>
     \<and> inbox s = used @ Datagram a d # inbox c \<and> sin_port a = sin_port (server c))"

definition agreed :: "tftp_client \<Rightarrow> tftp_client \<Rightarrow> bool" where
  "agreed s b \<longleftrightarrow> (\<exists>k. k \<le> MAX_RETRIES \<and> answered s (replicate k (server s, rrq_raw s)) b \<and> client_ok b)"

definition started :: "tftp_client \<Rightarrow> tftp_client \<Rightarrow> bool" where
  "started s b \<longleftrightarrow> (\<exists>k c. k \<le> MAX_RETRIES \<and> answered s (replicate k (server s, rrq_raw s)) c
     \<and> client_ok c \<and> readdressed s c b)"

definition ended :: "tftp_client \<Rightarrow> stop \<Rightarrow> tftp_client \<Rightarrow> bool" where
  "ended s e s' \<longleftrightarrow> (\<exists>b. started s b \<and> cut_short b e s')"

definition begun :: "tftp_client \<Rightarrow> 16 word \<times> bool \<Rightarrow> tftp_client \<Rightarrow> bool" where
  "begun s = (\<lambda>(bn, fin) s'. \<exists>b. started s b \<and> download_inv b (bn, fin) s' \<and>
     (agreed s b \<and> s' = b \<and> bn = 0 \<and> \<not> fin \<or> arg_options (args s') = []))"

text \<open>Waiting for the first answer, after \<open>k\<close> requests.\<close>

definition asking :: "tftp_client \<Rightarrow> nat \<Rightarrow> tftp_client \<Rightarrow> bool" where
  "asking s k s1 \<longleftrightarrow> answered s (replicate k (server s, rrq_raw s)) s1 \<and> client_ok s1
     \<and> server s1 = server s \<and> args s1 = args s"

lemma started_fields:
  assumes "started s b"
  shows "fsys b = fsys s" "the_writer b = the_writer s" "client_ok b" "maxPacketSize b = maxPacketSize s"
    "sin_addr (server b) = sin_addr (server s)"
  using assms by (auto simp: started_def answered_def readdressed_def)

lemma agreed_started: "agreed s b \<Longrightarrow> started s b"
  by (auto simp: agreed_def started_def readdressed_def)

lemma agreed_reoptioned:
  assumes "agreed s b" "reoptioned b b'" "client_ok b'"
  shows "agreed s b'"
proof -
  obtain k where "k \<le> MAX_RETRIES" "answered s (replicate k (server s, rrq_raw s)) b"
    using assms(1) by (auto simp: agreed_def)
  then show ?thesis
    unfolding agreed_def
    using answered_trans [OF _ reoptioned_answered [OF assms(2,3)], of s "replicate k (server s, rrq_raw s)"] assms(3)
    by auto
qed

lemma startedI:
  "answered s (replicate k (server s, rrq_raw s)) b \<Longrightarrow> client_ok b \<Longrightarrow> k \<le> MAX_RETRIES \<Longrightarrow> started s b"
  by (auto simp: started_def readdressed_def)

lemma started_writer: "started s b \<Longrightarrow> writer_holds s [] \<Longrightarrow> writer_holds b []"
  by (simp add: writer_holds_def Let_def started_fields)

lemma ended_now: "started s b \<Longrightarrow> writer_holds s [] \<Longrightarrow> ended s e b"
  unfolding ended_def by (blast intro: recv_inv_stop recv_inv_start started_writer)

lemma ended_stopped:
  assumes st: "started s b" and w: "writer_holds s []"
    and stop: "stopped (server b) farewell b [] e s'"
  shows "ended s e s'"
proof -
  have "stopped (server b) farewell b (map (reply_of (1, block_reply 0)) []) e s'" using stop by simp
  from recv_inv_stopped [OF recv_inv_start [OF started_writer [OF st w]] this] st
  show ?thesis by (auto simp: ended_def)
qed

text \<open>A check for an interruption in such a state.\<close>

lemma wlp_check_started:
  assumes w: "writer_holds s []" and a: "started s s1"
    and go: "\<not> sigint_set s1 \<Longrightarrow> Q (Inr ()) (s1\<lparr>loads := Suc (loads s1)\<rparr>)"
    and stop: "\<And>e s'. ended s e s' \<Longrightarrow> \<not> waitable e \<Longrightarrow> Q (Inl e) s'"
  shows "wlp Client_CheckForSigintRRQ Q s1"
proof (rule wlp_Client_CheckForSigintRRQ)
  fix e s'
  assume "interrupted e" "\<not> waitable e" "peer_frame (server s1) s1 [farewell] s'"
  then show "Q (Inl e) s'" by (intro stop ended_stopped [OF a w]) (simp_all add: stopped_def)
qed (use go in simp)

text \<open>The answer is the first block.\<close>

lemma first_block:
  assumes ans: "answered s (replicate k (server s, rrq_raw s)) s3" "client_ok s3" "k \<le> MAX_RETRIES"
    and w: "writer_holds s []" and none: "arg_options (args s3) = []"
    and i: "inbox s = used @ Datagram a d # inbox s3" "sin_port a = sin_port (server s3)"
    and p: "DataPacket_ctor_raw (take (maxPacketSize s) d) (uint (cl_blksize s3)) = Inr p"
      "dp_block_number p = 1"
  shows "wlp (write_block (dp_data p)) (\<lambda>r s'. case r of
      Inl e \<Rightarrow> ended s e s' \<and> \<not> waitable e
    | Inr _ \<Rightarrow> begun s (1, length (dp_data p) < unat (cl_blksize s3)) s') s3"
proof -
  define b where "b = s3\<lparr>inbox := Datagram (server s3) d # inbox s3\<rparr>"
  have f: "server b = server s3" "cl_blksize b = cl_blksize s3" "args b = args s3"
    "maxPacketSize b = maxPacketSize s"
    using ans(1) by (simp_all add: b_def answered_def)
  have "readdressed s s3 b" unfolding readdressed_def b_def using i by blast
  then have st: "started s b" unfolding started_def using ans by blast
  have q: "quiet (server b) b s3" by (simp add: quiet_def same_session_def b_def)
  have rc: "received (server b) b (take (maxPacketSize s) d) s3"
    using q f(4) by (auto simp: received_def took_def b_def)
  have w3: "writer_holds s3 []" using started_writer [OF st w] by (simp add: b_def writer_holds_def Let_def split: if_splits)
  have inv: "taken b [] [] b" using started_writer [OF st w] by (rule recv_inv_start)
  have blk: "0 < uint (cl_blksize b)" "uint (cl_blksize b) < 2 ^ 32"
    using ans(2) f by (simp_all add: client_ok_def size_ok_def)
  show ?thesis
  proof (rule wlp_mono [OF write_block_heard [OF w3 quiet_peer_frame [OF q] rc p(1) [folded f(2)] _ blk,
        where farewell = farewell and fin = False]], goal_cases)
    case 1
    then show ?case by simp
  next
    case (2 r s')
    show ?case
    proof (cases r)
      case (Inl e)
      with 2 ended_stopped [OF st w] show ?thesis by simp
    next
      case (Inr u)
      have lt: "(int (length (dp_data p)) < uint (cl_blksize b)) = (length (dp_data p) < unat (cl_blksize s3))"
        unfolding uint_nat f(2) by linarith
      have "heard_block (server b) (uint (cl_blksize b)) b (map (reply_of (1, block_reply 0)) []) (concat [])
          (int (length ([] :: bytes list)) + 1) False (length (dp_data p) < unat (cl_blksize s3)) s'"
        using 2 by (simp add: Inr p(2) lt)
      from recv_inv_heard [OF inv this] obtain d' where d': "taken b [d'] [] s'"
        "int (length d') \<le> uint (cl_blksize b)"
        "(length (dp_data p) < unat (cl_blksize s3)) = (int (length d') < uint (cl_blksize b))"
        by auto
      have "download_inv b (1, length (dp_data p) < unat (cl_blksize s3)) s'"
        using d' shape_snoc [of _ "[]", OF _ d'(2)]
        by (auto simp: download_inv_def shape_def [of _ False] intro!: exI [of _ "[d']"])
      moreover have "arg_options (args s') = []"
        using recv_inv_fields [OF d'(1)] same_client_fields [of b s'] none f(3) by simp
      ultimately show ?thesis using st by (auto simp: Inr begun_def)
    qed
  qed
qed

lemma begun_oack:
  assumes "agreed s b" "writer_holds s []" shows "begun s (0, False) b"
  using recv_inv_start [OF started_writer [OF agreed_started [OF assms(1)] assms(2)],
      of "server b" "uint (cl_blksize b)" "(1, block_reply 0)"] assms(1) agreed_started [OF assms(1)]
  by (auto simp: begun_def download_inv_def shape_def intro!: exI [of _ b] exI [of _ "[]"])

lemma wlp_for_each_unhandled:
  assumes "\<And>x s1. wlp (f x) (\<lambda>r s'. s' = s1 \<and> unhandled r) s1"
  shows "wlp (for_each xs f) (\<lambda>r s'. s' = s \<and> unhandled r) s"
proof (induction xs)
  case (Cons x xs)
  show ?case
    by (auto simp: Cons intro!: wlp_mono [OF assms] split: sum.splits)
qed simp

text \<open>The answer to the request.\<close>

definition response_result ::
  "tftp_client \<Rightarrow> (16 word \<times> bool) outcome \<Rightarrow> tftp_client \<Rightarrow> bool" where
  "response_result s r s' = (case r of Inl e \<Rightarrow> ended s e s' \<and> \<not> waitable e | Inr x \<Rightarrow> begun s x s')"

lemma response_result_simps [simp]:
  "response_result s (Inl e) s' \<longleftrightarrow> ended s e s' \<and> \<not> waitable e"
  "response_result s (Inr x) s' = begun s x s'"
  by (simp_all add: response_result_def)

lemma answered_reoptioned:
  "answered s out s2 \<Longrightarrow> reoptioned s2 s3 \<Longrightarrow> client_ok s3 \<Longrightarrow> answered s out s3"
  using answered_trans [OF _ reoptioned_answered] by fastforce

lemma data_response:
  assumes ans: "answered s (replicate k (server s, rrq_raw s)) s2" "client_ok s2" "k \<le> MAX_RETRIES"
    and w: "writer_holds s []"
    and i: "inbox s = used @ Datagram a d # inbox s2" "sin_port a = sin_port (server s2)"
    and p: "DataPacket_ctor_raw (take (maxPacketSize s) d) (uint (cl_blksize s2)) = Inr p" "dp_block_number p = 1"
  shows "wlp (seq (set_options [])
        (seq SetupUdpClient
        (bnd (gets cl_blksize) (\<lambda>blk'.
         seq (write_block (dp_data p))
             (ret (1, length (dp_data p) < unat blk')))))) (response_result s) s2"
proof -
  let ?s3 = "s2\<lparr>args := (args s2)\<lparr>arg_options := []\<rparr>\<rparr>"
  have s3: "reoptioned s2 ?s3" "client_ok ?s3" using ans(2) by (simp_all add: client_ok_def)
  have size: "cl_blksize ?s3 = cl_blksize s2" by simp
  have set_up: "wlp SetupUdpClient Q' ?s3 = Q' (Inr ()) ?s3" for Q'
    by (simp add: wlp_def no_options_skip(2))
  from first_block [OF answered_reoptioned [OF ans(1) s3] s3(2) ans(3) w, of used a d p, unfolded size]
  have "wlp (write_block (dp_data p)) (\<lambda>r s'. case r of
      Inl e \<Rightarrow> ended s e s' \<and> \<not> waitable e
    | Inr _ \<Rightarrow> begun s (1, length (dp_data p) < unat (cl_blksize s2)) s') ?s3"
    using i p by simp
  then show ?thesis
    unfolding wlp_seq wlp_set_options sum.case set_up wlp_bnd wlp_gets
    by (rule wlp_mono) (auto split: sum.splits)
qed

lemma wlp_check_tsize:
  "wlp (for_each opts (\<lambda>option.
      if opt_name option = TSIZE then
        bnd (lift_exn (sto_exn (stoull (opt_value option)))) (\<lambda>tsize.
        bnd (gets fsys) (\<lambda>fs.
        bnd (gets (\<lambda>s. arg_dest_filepath (args s))) (\<lambda>dest.
        if \<not> HasEnoughSpace fs dest tsize then throw NotEnoughSpaceException else skip)))
      else skip)) (\<lambda>r s'. s' = s3 \<and> unhandled r) s3"
  by (rule wlp_for_each_unhandled) (auto simp: waitable_def dest: sto_exn_Inl split: sum.splits)

text \<open>The options that were agreed are put to use.\<close>

lemma wlp_agree:
  assumes ans: "answered s (replicate k (server s, rrq_raw s)) s2" "k \<le> MAX_RETRIES"
    and w: "writer_holds s []" and s3: "reoptioned s2 s3" "client_ok s3"
  shows "wlp SetupUdpClient (\<lambda>r s'. r = Inr () \<and> begun s (0, False) s') s3"
proof (rule wlp_mono [OF wlp_SetupUdpClient [OF s3(2)]], goal_cases)
  case (1 r s5)
  then have re: "reoptioned s2 s5" using reoptioned_trans [OF s3(1)] by blast
  then have "agreed s s5"
    unfolding agreed_def using answered_reoptioned [OF ans(1)] 1 ans(2) by blast
  with begun_oack [OF _ w] 1 show ?case by simp
qed

lemma oack_response:
  assumes ans: "answered s (replicate k (server s, rrq_raw s)) s2" "client_ok s2" "k \<le> MAX_RETRIES"
    and w: "writer_holds s []"
  shows "wlp (seq (accept_oack raw)
      (bnd (gets (\<lambda>s. arg_options (args s))) (\<lambda>options.
       seq (for_each options (\<lambda>option.
              if opt_name option = TSIZE then
                bnd (lift_exn (sto_exn (stoull (opt_value option)))) (\<lambda>tsize.
                bnd (gets fsys) (\<lambda>fs.
                bnd (gets (\<lambda>s. arg_dest_filepath (args s))) (\<lambda>dest.
                if \<not> HasEnoughSpace fs dest tsize then throw NotEnoughSpaceException else skip)))
              else skip))
      (seq SetupUdpClient (ret (0, False)))))) (response_result s) s2"
  unfolding wlp_seq [of "accept_oack _"]
proof (rule wlp_mono [OF wlp_accept_oack [OF ans(2)]], goal_cases)
  case (1 r s3)
  show ?case
  proof (cases r)
    case (Inl e)
    with 1 ended_now [OF startedI [OF ans] w] show ?thesis by simp
  next
    case (Inr u)
    then have s3: "reoptioned s2 s3" "client_ok s3" using 1 by simp_all
    note ans3 = answered_reoptioned [OF ans(1) s3]
    note set_up = wlp_agree [OF ans(1,3) w s3]
    show ?thesis
      unfolding Inr sum.case wlp_bnd [of "gets _"] wlp_gets wlp_seq [of "for_each _ _"]
    proof (rule wlp_mono [OF wlp_check_tsize], goal_cases)
      case (1 r s4)
      then show ?case
        using ended_now [OF startedI [OF ans3 s3(2) ans(3)] w]
        by (cases r) (auto intro: wlp_mono [OF set_up])
    qed
  qed
qed

lemma rrq_response_spec:
  assumes ans: "answered s (replicate k (server s, rrq_raw s)) s2" "client_ok s2" "k \<le> MAX_RETRIES"
    and w: "writer_holds s []"
    and i: "inbox s = used @ Datagram a d # inbox s2" "sin_port a = sin_port (server s2)"
  shows "wlp (rrq_response (take (maxPacketSize s) d)) (response_result s) s2"
proof -
  have stop: "response_result s (Inl e) s2" if "\<not> waitable e" for e
    using ended_now [OF startedI [OF ans] w] that by simp
  show ?thesis
    unfolding rrq_response_def
    using data_response [OF ans w i] oack_response [OF ans w] stop
    by (auto simp: ctor_not_waitable simp del: wlp_seq intro!: wlp_mono [OF wlp_throw_error_packet] split: sum.splits)
qed

text \<open>One round of the loop that asks.\<close>

definition asked_result ::
  "tftp_client \<Rightarrow> (nat \<times> (16 word \<times> bool) option) outcome \<Rightarrow> tftp_client \<Rightarrow> bool" where
  "asked_result s r s' = (case r of
     Inl e \<Rightarrow> ended s e s'
   | Inr (k, None) \<Rightarrow> k \<le> MAX_RETRIES \<and> asking s k s'
   | Inr (k, Some x) \<Rightarrow> begun s x s')"

lemma asked_result_simps [simp]:
  "asked_result s (Inl e) s' = ended s e s'"
  "asked_result s (Inr (k, None)) s' = (k \<le> MAX_RETRIES \<and> asking s k s')"
  "asked_result s (Inr (k, Some x)) s' = begun s x s'"
  by (simp_all add: asked_result_def)

lemma asking_step [simp]:
  "asking s k (s'\<lparr>loads := n\<rparr>) = asking s k s'"
  "asking s k (s'\<lparr>udp_timeout := t, so_rcvtimeo := u\<rparr>) = asking s k s'"
  by (simp_all add: asking_def)

lemma asking_started: "asking s k s1 \<Longrightarrow> k \<le> MAX_RETRIES \<Longrightarrow> started s s1"
  unfolding asking_def by (blast intro: startedI)

lemma asking_send:
  assumes "asking s k s1"
  shows "asking s (Suc k) (s1\<lparr>outbox := outbox s1 @ [(server s1, rrq_raw s)]\<rparr>)"
proof -
  have "replicate k (server s, rrq_raw s) @ [(server s, rrq_raw s)] = replicate (Suc k) (server s, rrq_raw s)"
    by (simp add: replicate_append_same)
  then show ?thesis
    using answered_trans [OF _ answered_send [of s1 "server s1" "rrq_raw s"], of s "replicate k (server s, rrq_raw s)"]
      assms by (simp add: asking_def del: replicate_Suc)
qed

lemma asking_inbox: "asking s k s1 \<Longrightarrow> inbox s1 = e # rest \<Longrightarrow> asking s k (s1\<lparr>loads := n, inbox := rest\<rparr>)"
  by (auto simp: asking_def answered_def)

lemma rrq_wait_spec:
  assumes a: "asking s k s1" and k: "k \<le> MAX_RETRIES" and w: "writer_holds s []"
  shows "wlp (try_catch
       (bnd (first_response Client_CheckForSigintRRQ) (\<lambda>response_1.
        bnd (rrq_response response_1) (\<lambda>a. ret (n, Some a))))
       (\<lambda>e. if e = UdpTimeoutException then seq IncreaseTimeout (ret (k, None)) else throw e))
     (asked_result s) s1"
  unfolding wlp_try_catch wlp_bnd [of "first_response _"]
proof (rule wlp_first_response, goal_cases)
  case (1 ad d rest)
  let ?s2 = "s1\<lparr>loads := Suc (loads s1), inbox := rest, server_address := (server s1)\<lparr>sin_port := sin_port ad\<rparr>\<rparr>"
  obtain used where u: "inbox s = used @ inbox s1" and m: "maxPacketSize s1 = maxPacketSize s"
    using a by (auto simp: asking_def answered_def)
  have "answered s (replicate k (server s, rrq_raw s)) ?s2" "client_ok ?s2"
    using a 1 by (auto simp: asking_def answered_def)
  from rrq_response_spec [OF this k w, of used ad d] show ?case
    unfolding sum.case wlp_bnd [of "rrq_response _"] m
    by (rule wlp_mono) (auto simp: u 1 waitable_def split: sum.splits stop.splits)
next
  case (2 rest)
  then show ?case using asking_inbox [OF a] k by simp
next
  case (3 rest)
  then show ?case using ended_now [OF asking_started [OF asking_inbox [OF a] k] w] by simp
next
  case 4
  then show ?case using ended_now [OF asking_started [OF _ k] w] a by simp
next
  case 5
  show ?case
    by (rule wlp_check_started [OF w asking_started [OF _ k]])
      (use a 5 in \<open>auto simp: waitable_def dest: sigint_set_mono split: stop.splits\<close>)
qed

lemma rrq_round_spec:
  assumes a: "asking s k s1" and k: "k < MAX_RETRIES" and w: "writer_holds s []"
  shows "wlp (rrq_round (k, None)) (asked_result s) s1"
proof -
  have raw: "request_raw s1 RRQ (arg_filepath (args s1)) = rrq_raw s"
    using a by (simp add: asking_def request_raw_def)
  have "wlp (try_catch
       (bnd (gets (\<lambda>s. arg_filepath (args s))) (\<lambda>filepath.
        seq (send_request RRQ filepath)
       (bnd (first_response Client_CheckForSigintRRQ) (\<lambda>response_1.
        bnd (rrq_response response_1) (\<lambda>a. ret (k, Some a))))))
       (\<lambda>e. if e = UdpTimeoutException then seq IncreaseTimeout (ret (k + 1, None))
            else throw e)) (asked_result s) s1"
    unfolding wlp_try_catch wlp_bnd [of "gets _"] wlp_gets sum.case wlp_seq [of "send_request _ _"]
  proof (rule wlp_mono [OF wlp_send_request], goal_cases)
    case 1
    then show ?case by simp
  next
    case (2 r s2)
    show ?case
    proof (cases r)
      case (Inl e)
      with 2 ended_now [OF asking_started [OF a] w] k show ?thesis
        by (auto simp: waitable_def split: stop.splits)
    next
      case (Inr u)
      with 2 have "asking s (Suc k) s2" using asking_send [OF a] by (simp add: raw)
      from rrq_wait_spec [OF this _ w, of k, unfolded wlp_try_catch Suc_eq_plus1] k show ?thesis
        unfolding Inr sum.case by simp
    qed
  qed
  then show ?thesis
    unfolding rrq_round_def prod.case wlp_bnd [of "try_catch _ _"]
  proof (rule wlp_mono, goal_cases)
    case (1 r s')
    show ?case
    proof (cases r)
      case (Inl e)
      with 1 show ?thesis by simp
    next
      case (Inr y)
      obtain n ans where y: "y = (n, ans)" by (cases y)
      show ?thesis
      proof (cases ans)
        case None
        then have s': "asking s n s'" "n \<le> MAX_RETRIES" using 1 by (simp_all add: Inr y)
        show ?thesis
          unfolding Inr y None sum.case prod.case wlp_if wlp_seq
          using wlp_check_started [OF w asking_started [OF s']] s' by simp
      next
        case (Some x)
        with 1 show ?thesis by (simp add: Inr y)
      qed
    qed
  qed
qed

lemma rrq_loop_spec:
  assumes a: "asking s 0 s1" and w: "writer_holds s []"
  shows "wlp (while_m rrq_guard rrq_round (0, None)) (asked_result s) s1"
proof (rule wlp_while [where I = "\<lambda>x s'. asked_result s (Inr x) s'"])
  fix x s2
  assume I: "asked_result s (Inr x) s2" and g: "rrq_guard x"
  then obtain k where x: "x = (k, None)" "k < MAX_RETRIES" "asking s k s2"
    by (cases x) (auto simp: rrq_guard_def)
  show "wlp (rrq_round x) (\<lambda>r s'. case r of
      Inl e \<Rightarrow> asked_result s (Inl e) s' | Inr a' \<Rightarrow> asked_result s (Inr a') s') s2"
    unfolding x(1) by (rule wlp_mono [OF rrq_round_spec [OF x(3,2) w]]) (auto split: sum.splits)
qed (use a in \<open>simp_all\<close>)

section \<open>The whole download\<close>

text \<open>How the part of \<open>Read\<close> between the constructor and the destructor of the writer ends.\<close>

definition body_result :: "tftp_client \<Rightarrow> unit outcome \<Rightarrow> tftp_client \<Rightarrow> bool" where
  "body_result s r s' \<longleftrightarrow> (\<exists>b. started s b \<and> download_result b r s')"

lemma body_result_ended: "ended s e s' \<Longrightarrow> body_result s (Inl e) s'"
  by (auto simp: body_result_def ended_def whole_result_def)

text \<open>From the answer to the transfer: the options are put to use.\<close>

lemma begun_use_blksize:
  assumes b: "begun s x s1" and w: "writer_holds s []"
  shows "wlp use_blksize (\<lambda>r s'. r = Inr () \<and> (\<exists>b. started s b \<and> download_inv b x s')) s1"
proof -
  obtain bn fin where x: "x = (bn, fin)" by (cases x)
  obtain b' where b': "started s b'" "download_inv b' (bn, fin) s1"
    "agreed s b' \<and> s1 = b' \<and> bn = 0 \<and> \<not> fin \<or> arg_options (args s1) = []"
    using b by (auto simp: begun_def x)
  show ?thesis
  proof (cases "arg_options (args s1) = []")
    case True
    with b' show ?thesis by (auto simp: wlp_def no_options_skip x)
  next
    case False
    with b' have s1: "s1 = b'" "bn = 0" "\<not> fin" "agreed s b'" by simp_all
    show ?thesis
    proof (rule wlp_mono [OF wlp_use_blksize [OF started_fields(3) [OF b'(1)], folded s1(1)]], goal_cases)
      case (1 r s')
      then have "agreed s s'" using agreed_reoptioned [OF s1(4)] unfolding s1 by blast
      with 1 begun_oack [OF _ w] s1 show ?case by (auto simp: begun_def x)
    qed
  qed
qed

lemma begun_inv: "begun s x s1 \<Longrightarrow> \<exists>b. started s b \<and> download_inv b x s1"
  by (auto simp: begun_def)

lemma begun_step:
  assumes "begun s x s1" "writer_holds s []"
    and s2: "s2 = s1\<lparr>loads := n\<rparr> \<or> s2 = s1\<lparr>udp_timeout := t, so_rcvtimeo := u\<rparr>"
  shows "begun s x s2"
proof -
  obtain bn fin where x: "x = (bn, fin)" by (cases x)
  obtain b where b: "started s b" "download_inv b (bn, fin) s1"
    "agreed s b \<and> s1 = b \<and> bn = 0 \<and> \<not> fin \<or> arg_options (args s1) = []"
    using assms(1) by (auto simp: begun_def x)
  show ?thesis
  proof (cases "arg_options (args s1) = []")
    case True
    moreover have "download_inv b (bn, fin) s2"
      using b(2) s2 unfolding download_inv_def prod.case by (elim disjE) simp_all
    moreover have "args s2 = args s1" using s2 by auto
    ultimately show ?thesis using b(1) by (auto simp: begun_def x)
  next
    case False
    with b s2 have "agreed s s2" by (auto simp: agreed_def)
    with False b begun_oack [OF _ assms(2)] show ?thesis by (simp add: x)
  qed
qed

lemma wlp_check_inv:
  assumes i: "started s b" "download_inv b x s1"
    and go: "Q (Inr ()) (s1\<lparr>loads := Suc (loads s1)\<rparr>)"
    and stop: "\<And>e s'. ended s e s' \<Longrightarrow> Q (Inl e) s'"
  shows "wlp Client_CheckForSigintRRQ Q s1"
proof (rule wlp_Client_CheckForSigintRRQ)
  fix e s'
  assume e: "interrupted e" "peer_frame (server s1) s1 [farewell] s'"
  obtain bs ns where "taken b bs ns s1" using i(2) by (cases x) (auto simp: download_inv_def)
  from taken_interrupted [OF this e] i(1) have "ended s e s'" by (auto simp: ended_def)
  then show "Q (Inl e) s'" by (rule stop)
qed (rule go)

text \<open>The transfer and the last ACK, and what comes between the answer and the transfer.\<close>

lemma wlp_transfer:
  assumes "started s b" "download_inv b (bn, fin) s1"
  shows "wlp (bnd (while_m download_guard download_round (bn, fin)) (\<lambda>(block_number', _).
      seq Client_CheckForSigintRRQ (send_to_server (AckPacket_MakeRaw (AckPacket block_number')))))
     (body_result s) s1"
proof (rule wlp_mono [OF wlp_download_loop [OF assms(2)]], goal_cases)
  case 1
  then show ?case using started_fields(3) [OF assms(1)] by (simp add: client_ok_def)
next
  case 2
  then show ?case using assms(1) by (auto simp: body_result_def)
qed

lemma wlp_begin_transfer:
  assumes b: "begun s (bn, fin) s1" and w: "writer_holds s []"
  shows "wlp (seq use_blksize
        (seq Client_CheckForSigintRRQ
        (bnd (while_m download_guard download_round (bn, fin)) (\<lambda>(block_number', _).
         seq Client_CheckForSigintRRQ
             (send_to_server (AckPacket_MakeRaw (AckPacket block_number'))))))) (body_result s) s1"
  unfolding wlp_seq [of use_blksize]
proof (rule wlp_mono [OF begun_use_blksize [OF b w]], goal_cases)
  case (1 r s')
  then obtain b2 where r: "r = Inr ()" and b2: "started s b2" "download_inv b2 (bn, fin) s'" by blast
  have "download_inv b2 (bn, fin) (s'\<lparr>loads := Suc (loads s')\<rparr>)"
    using b2(2) by (simp add: download_inv_def)
  from wlp_transfer [OF b2(1) this] show ?case
    unfolding r sum.case wlp_seq [of Client_CheckForSigintRRQ]
    by (intro wlp_check_inv [OF b2]) (simp_all add: body_result_ended del: wlp_bnd)
qed

lemma wlp_after_answer:
  assumes b: "begun s (bn, fin) s1" and w: "writer_holds s []"
  shows "wlp (seq Client_CheckForSigintRRQ
        (seq TimeoutReset
        (seq use_blksize
        (seq Client_CheckForSigintRRQ
        (bnd (while_m download_guard download_round (bn, fin)) (\<lambda>(block_number', _).
         seq Client_CheckForSigintRRQ
             (send_to_server (AckPacket_MakeRaw (AckPacket block_number')))))))))
     (body_result s) s1"
proof -
  obtain b1 where b1: "started s b1" "download_inv b1 (bn, fin) s1" using begun_inv [OF b] by blast
  let ?s2 = "s1\<lparr>loads := Suc (loads s1)\<rparr>"
  let ?s3 = "?s2\<lparr>udp_timeout := default_timeout, so_rcvtimeo := default_timeout\<rparr>"
  have "begun s (bn, fin) ?s2" by (rule begun_step [OF b w, of _ "Suc (loads s1)"]) simp
  then have "begun s (bn, fin) ?s3"
    by (rule begun_step [OF _ w, of _ _ _ _ default_timeout default_timeout]) simp
  from wlp_begin_transfer [OF this w] show ?thesis
    unfolding wlp_seq [of Client_CheckForSigintRRQ "seq TimeoutReset _"]
    by (intro wlp_check_inv [OF b1]) (simp_all add: body_result_ended wlp_seq [of TimeoutReset] del: wlp_seq)
qed

lemma read_body_spec:
  assumes w: "writer_holds s []" and ok: "client_ok s"
  shows "wlp read_body (body_result s) s"
proof -
  have ag: "asking s 0 s" using ok by (simp add: asking_def)
  show ?thesis
    unfolding read_body_def wlp_seq [of _ "bnd (while_m rrq_guard _ _) _"]
  proof (rule wlp_check_started [OF w asking_started [OF ag]], goal_cases)
    case 1
    then show ?case by simp
  next
    case 2
    have "asking s 0 (s\<lparr>loads := Suc (loads s)\<rparr>)" using ag by simp
    from rrq_loop_spec [OF this w] show ?case
      unfolding sum.case wlp_bnd [of "while_m rrq_guard _ _"]
    proof (rule wlp_mono, goal_cases)
      case (1 r s')
      show ?case
      proof (cases r)
        case (Inl e)
        with 1 body_result_ended show ?thesis by simp
      next
        case (Inr y)
        obtain n ans where y: "y = (n, ans)" by (cases y)
        show ?thesis
        proof (cases ans)
          case None
          with 1 ended_now [OF asking_started w] show ?thesis by (auto simp: Inr y body_result_ended)
        next
          case (Some x)
          obtain bn fin where x: "x = (bn, fin)" by (cases x)
          have "begun s (bn, fin) s'" using 1 by (simp add: Inr y Some x)
          from wlp_after_answer [OF this w] show ?thesis unfolding Inr y Some x by simp
        qed
      qed
    qed
  next
    case (3 e s')
    then show ?case using body_result_ended by simp
  qed
qed

text \<open>The blocks of the DATA packets that came from a port, whatever the address.\<close>

definition port_event :: "16 word \<Rightarrow> nat \<Rightarrow> int \<Rightarrow> net_event \<Rightarrow> (int \<times> bytes) list" where
  "port_event port limit blk e = (case e of
     Datagram a d \<Rightarrow> if sin_port a = port then data_event a limit blk e else [] | _ \<Rightarrow> [])"

definition port_datas :: "16 word \<Rightarrow> nat \<Rightarrow> int \<Rightarrow> net_event list \<Rightarrow> (int \<times> bytes) list" where
  "port_datas port limit blk evs = concat (map (port_event port limit blk) evs)"

lemma port_datas_simps [simp]:
  "port_datas port limit blk [] = []"
  "port_datas port limit blk (e # es) = port_event port limit blk e @ port_datas port limit blk es"
  "port_datas port limit blk (xs @ ys) = port_datas port limit blk xs @ port_datas port limit blk ys"
  by (simp_all add: port_datas_def)

lemma data_event_port: "subseq (data_event a limit blk e) (port_event (sin_port a) limit blk e)"
  by (auto simp: data_event_def port_event_def split: net_event.splits sum.splits)

lemma datas_port: "subseq (datas a limit blk evs) (port_datas (sin_port a) limit blk evs)"
  by (induction evs) (simp_all add: data_event_port list_emb_append_mono)

lemma data_event_address:
  "sin_port a = port \<Longrightarrow> port_event port limit blk (Datagram a d) = data_event b limit blk (Datagram b d)"
  by (simp add: port_event_def data_event_def)

lemma started_got:
  assumes st: "started s b" and g: "got (server b) blk b nds s'"
  shows "subseq nds (port_datas (sin_port (server b)) (maxPacketSize s) blk (inbox s))"
proof -
  let ?P = "port_datas (sin_port (server b)) (maxPacketSize s) blk"
    and ?D = "datas (server b) (maxPacketSize s) blk"
  obtain c where c: "readdressed s c b" and inb: "\<exists>u. inbox s = u @ inbox c"
    using st by (auto simp: started_def answered_def)
  obtain u where u: "inbox b = u @ inbox s'" "subseq nds (?D u)"
    using g started_fields(4) [OF st] by (auto simp: got_def)
  have "subseq (?D u) (?D (inbox b))" unfolding u(1) by (simp add: subseq_rev_drop_many)
  moreover have "subseq (?D (inbox b)) (?P (inbox s))"
    using c unfolding readdressed_def
  proof (elim disjE exE conjE)
    assume "b = c"
    with inb obtain v where "inbox s = v @ inbox b" by blast
    then show ?thesis
      using subseq_order.trans [OF datas_port [of "server b" "maxPacketSize s" blk "inbox b"]
          list_emb_append2 [OF subseq_order.refl]] by simp
  next
    fix a d v
    assume b: "b = c\<lparr>inbox := Datagram (server c) d # inbox c\<rparr>"
      and s: "inbox s = v @ Datagram a d # inbox c" and p: "sin_port a = sin_port (server c)"
    have "?D (inbox b) = data_event (server b) (maxPacketSize s) blk (Datagram (server b) d) @ ?D (inbox c)"
      by (simp add: b)
    also have "\<dots> = port_event (sin_port (server b)) (maxPacketSize s) blk (Datagram a d) @ ?D (inbox c)"
      using data_event_address [of a] p by (simp add: b)
    finally show ?thesis
      unfolding s by (simp add: list_emb_append_mono datas_port list_emb_append2)
  qed
  ultimately show ?thesis using u(2) subseq_order.trans by blast
qed

text \<open>The outcome of a download, from the state of the client before it.\<close>

definition download_path :: "tftp_client \<Rightarrow> path" where
  "download_path s = canonical_of (fsys s) (arg_dest_filepath (args s))"

definition downloaded ::
  "tftp_client \<Rightarrow> bytes list \<Rightarrow> nat \<Rightarrow> nat list \<Rightarrow> bytes list \<Rightarrow> tftp_client \<Rightarrow> bool" where
  "downloaded s bs k ns extra s' \<longleftrightarrow>
     sent_to (server s') (outbox s') = sent_to (server s') (outbox s)
       @ sent_to (server s') (replicate k (server s, rrq_raw s))
       @ map (\<lambda>n. block_reply (int n)) ns @ extra
     \<and> k \<le> MAX_RETRIES \<and> acks_upto 1 (length bs) ns
     \<and> subseq (numbered 1 bs) (port_datas (sin_port (server s')) (maxPacketSize s)
         (uint (cl_blksize s')) (inbox s))"

definition download_outcome :: "tftp_client \<Rightarrow> unit outcome \<Rightarrow> tftp_client \<Rightarrow> bool" where
  "download_outcome s r s' \<longleftrightarrow>
     (\<forall>q. q \<noteq> download_path s \<longrightarrow> nodes (fsys s') q = nodes (fsys s) q)
     \<and> sin_addr (server s') = sin_addr (server s) \<and> size_ok s'
     \<and> (\<exists>bs k ns extra. downloaded s bs k ns extra s' \<and> (case r of
          Inr _ \<Rightarrow> extra = [] \<and> ns \<noteq> [] \<and> last ns = length bs
            \<and> blocks (unat (cl_blksize s')) (concat bs) = bs
            \<and> nodes (fsys s') (download_path s) = Some (FileN (concat bs))
        | Inl e \<Rightarrow> extra = [] \<or> interrupted e \<and> extra = [farewell]))"

lemma started_downloaded:
  assumes st: "started s b" and g: "got (server b) (uint (cl_blksize b)) b (numbered 1 bs) s2"
    and f: "peer_frame (server b) b (map (\<lambda>n. block_reply (int n)) ns @ extra) s2" "acks_upto 1 (length bs) ns"
    and s': "server s' = server b" "cl_blksize s' = cl_blksize b" "outbox s' = outbox s2"
  shows "\<exists>k. downloaded s bs k ns extra s'"
proof -
  obtain k c where k: "k \<le> MAX_RETRIES" "answered s (replicate k (server s, rrq_raw s)) c"
    "outbox b = outbox c"
    using st by (auto simp: started_def readdressed_def)
  have "subseq (numbered 1 bs) (port_datas (sin_port (server s')) (maxPacketSize s)
         (uint (cl_blksize s')) (inbox s))"
    using started_got [OF st g] s' by simp
  with k f s' show ?thesis
    by (intro exI [of _ k]) (simp add: downloaded_def peer_frame_def answered_def)
qed

lemma body_result_closed:
  assumes res: "body_result s r s2" and ok: "client_ok s"
    and wr: "w_filepath (the_writer s) = arg_dest_filepath (args s)"
    and close: "s' = s2 \<or> (\<exists>p. peer_frame p s2 [] s') \<and> inbox s' = inbox s2 \<and> outbox s' = outbox s2
      \<and> (w_tbw_later_buffer (the_writer s2) = [] \<longrightarrow> fsys s' = fsys s2)"
  shows "download_outcome s r s'"
proof -
  obtain b where st: "started s b" and d: "download_result b r s2"
    using res by (auto simp: body_result_def)
  note b = started_fields [OF st]
  have fo: "files_only b s2" and ses: "same_session b s2"
    using d by (auto simp: whole_result_def recv_stopped_def recv_inv_def peer_frame_def split: sum.splits)
  have fo': "files_only s2 s'" and ses': "same_session s2 s'"
    using close by (auto simp: peer_frame_def files_only_def)
  have f: "server s' = server b" "cl_blksize s' = cl_blksize b" "outbox s' = outbox s2"
    using same_client_fields [OF same_session_trans [OF ses ses']] close by auto
  have path: "canonical_of (fsys b) (w_filepath (the_writer b)) = download_path s"
    using b wr by (simp add: download_path_def)
  have other: "\<forall>q. q \<noteq> download_path s \<longrightarrow> nodes (fsys s') q = nodes (fsys s) q"
    using fo fo' b wr by (simp add: files_only_def download_path_def)
  have size: "size_ok s'" using b(3) f(2) by (simp add: client_ok_def size_ok_def)
  have "\<exists>bs k ns extra. downloaded s bs k ns extra s' \<and> (case r of
          Inr _ \<Rightarrow> extra = [] \<and> ns \<noteq> [] \<and> last ns = length bs
            \<and> blocks (unat (cl_blksize s')) (concat bs) = bs
            \<and> nodes (fsys s') (download_path s) = Some (FileN (concat bs))
        | Inl e \<Rightarrow> extra = [] \<or> interrupted e \<and> extra = [farewell])"
  proof (cases r)
    case (Inl e)
    with d obtain bs ns extra where
      x: "peer_frame (server b) b (map (\<lambda>n. block_reply (int n)) ns @ extra) s2" "acks_upto 1 (length bs) ns"
      "got (server b) (uint (cl_blksize b)) b (numbered 1 bs) s2"
      "extra = [] \<or> interrupted e \<and> extra = [farewell]"
      by (auto simp: whole_result_def recv_stopped_def)
    from started_downloaded [OF st x(3,1,2) f] x(4) show ?thesis unfolding Inl sum.case by blast
  next
    case (Inr u)
    with d obtain bs ns where i: "taken b bs (ns @ [length bs]) s2"
      and sh: "shape (uint (cl_blksize b)) True bs"
      by (auto simp: whole_result_def)
    have w: "writer_holds s2 (concat bs)" "w_open (the_writer s2)"
      using i sh by (auto simp: recv_inv_def shape_def)
    then have "nodes (fsys s') (download_path s) = Some (FileN (concat bs))"
      using close fo path by (auto simp: writer_holds_def Let_def files_only_def)
    moreover have "blocks (unat (cl_blksize s')) (concat bs) = bs"
      using shape_blocks [OF _ sh] size f(2) by (simp add: size_ok_def)
    moreover have "\<exists>k. downloaded s bs k (ns @ [length bs]) [] s'"
      using i by (intro started_downloaded [OF st _ _ _ f]) (simp_all add: recv_inv_def)
    then obtain k where "downloaded s bs k (ns @ [length bs]) [] s'" ..
    ultimately show ?thesis unfolding Inr sum.case
      by (intro exI [of _ bs] exI [of _ k] exI [of _ "ns @ [length bs]"] exI [of _ "[]"]) simp
  qed
  with other size b(5) f(1) show ?thesis by (simp add: download_outcome_def)
qed

theorem Client_Read_octet:
  assumes ok: "client_ok s" and mode: "arg_file_mode (args s) = OCTET"
  shows "wlp Client_Read (download_outcome s) s"
proof -
  define s0 where "s0 = s\<lparr>the_writer := \<lparr>w_filepath = arg_dest_filepath (args s), w_mode = DF_OCTET,
      w_open = False, w_fail = False, w_tbw_later_buffer = []\<rparr>\<rparr>"
  have w: "writer_holds s0 []" and ok0: "client_ok s0" and p: "w_filepath (the_writer s0) = arg_dest_filepath (args s0)"
    using ok by (simp_all add: s0_def writer_holds_def)
  have f: "download_path s0 = download_path s" "fsys s0 = fsys s" "server s0 = server s"
    by (simp_all add: s0_def download_path_def)
  have g: "downloaded s0 bs k ns extra = downloaded s bs k ns extra" for bs k ns extra
    by (intro ext) (simp add: s0_def downloaded_def request_raw_def)
  have same: "download_outcome s0 = download_outcome s"
    by (intro ext) (unfold download_outcome_def f g, rule refl)
  note closed = body_result_closed [OF _ ok0 p]
  have "wlp (scoped read_body Writer_dtor) (download_outcome s0) s0"
    unfolding wlp_scoped
  proof (rule wlp_mono [OF read_body_spec [OF w ok0]], goal_cases)
    case (1 r s2)
    have d: "wlp Writer_dtor (\<lambda>r' s'. r' = Inr () \<and> download_outcome s0 r s') s2"
      by (rule wlp_mono [OF wlp_Writer_dtor [of "server s2"]]) (use closed [OF 1] in blast)
    show ?case
    proof (cases r)
      case (Inr x)
      then show ?thesis using d by (auto elim!: wlp_mono)
    next
      case (Inl e)
      then show ?thesis using d closed [OF 1, of s2]
        by (cases e) (auto elim!: wlp_mono)
    qed
  qed
  then show ?thesis
    unfolding same Client_Read_def wlp_bnd wlp_gets sum.case wlp_seq
    by (simp add: Writer_ctor_def wlp_writer_put s0_def mode data_format_def)
qed

section \<open>Every loop returns\<close>

lemma returns_rrq_response [simp, returns_rules]: "returns (rrq_response b) s"
  unfolding rrq_response_def by (intro returns_intros returns_for_each) simp_all

lemma returns_rrq_round [simp, returns_rules]: "returns (rrq_round a) s"
  unfolding rrq_round_def by (cases a; simp only: prod.case; intro returns_intros; simp)

text \<open>A round either counts a retry or has the answer.\<close>

definition counts :: "nat \<Rightarrow> (nat \<times> (16 word \<times> bool) option) outcome \<Rightarrow> bool" where
  "counts k r = (case r of Inr (k', None) \<Rightarrow> k' = Suc k | _ \<Rightarrow> True)"

lemma counts_simps [simp]: "counts k (Inl e)" "counts k (Inr (k', Some x))"
  "counts k (Inr (k', None)) = (k' = Suc k)"
  by (simp_all add: counts_def)

lemma rrq_round_counts: "wlp (rrq_round (k, None)) (\<lambda>r s'. counts k r) s"
proof -
  have "wlp (bnd (gets (\<lambda>s. arg_filepath (args s))) (\<lambda>filepath.
        seq (send_request RRQ filepath)
       (bnd (first_response Client_CheckForSigintRRQ) (\<lambda>response_1.
        bnd (rrq_response response_1) (\<lambda>a. ret (k, Some a))))))
      (\<lambda>r s'. \<forall>y. r = Inr y \<longrightarrow> (\<exists>x. snd y = Some x)) s"
    unfolding seq_def by (intro wlp_bnd_any) simp_all
  then show ?thesis
    unfolding rrq_round_def prod.case wlp_bnd [of "try_catch _ _"] wlp_try_catch
    by (rule wlp_mono)
      (auto simp: seq_def [of Client_CheckForSigintRRQ] simp del: wlp_bnd intro!: wlp_bnd_any split: sum.splits stop.splits prod.splits)
qed

lemma returns_rrq_loop [simp]: "returns (while_m rrq_guard rrq_round (0, None)) s"
proof (rule returns_while [where I = "\<lambda>a s. True"
      and f = "\<lambda>a s. if snd a = None then Suc (MAX_RETRIES - fst a) else 0"])
  fix a and s :: tftp_client assume "rrq_guard a"
  then obtain k where a: "a = (k, None)" "k < MAX_RETRIES" by (cases a) (simp add: rrq_guard_def)
  show "returns (rrq_round a) s \<and> wlp (rrq_round a) (\<lambda>r s'. case r of Inl e \<Rightarrow> True
      | Inr a' \<Rightarrow> True \<and> (if snd a' = None then Suc (MAX_RETRIES - fst a') else 0)
          < (if snd a = None then Suc (MAX_RETRIES - fst a) else 0)) s"
    unfolding a(1) using a(2)
    by (auto intro!: wlp_mono [OF rrq_round_counts] simp: counts_def split: sum.splits)
qed simp

lemma returns_Client_Read [simp, returns_rules]: "returns Client_Read s"
  unfolding Client_Read_def read_body_def
  by (intro returns_intros) (simp_all add: download_loop.loop_returns)

end
