(* ===== verification/NetasciiTransfer.thy ===== *)
theory NetasciiTransfer
  imports FileIO
begin

text \<open>
  Text in NETASCII format, block by block: what the writer stores is the decoding of the whole
  stream, wherever the blocks are cut, and what the reader sends is not the encoding of the file.
\<close>

section \<open>Decoding in pieces\<close>

text \<open>
  The writer holds back a CR at the end of a block, whether it is half of a pair or has already
  been decoded from CR NUL. In the second case the next byte must not be LF or NUL, which would
  be read as the other half.
\<close>

fun no_false_pair :: "bytes \<Rightarrow> bool" where
  "no_false_pair [] = True"
| "no_false_pair [x] = True"
| "no_false_pair (x # y # ys) =
     (if x = CR \<and> y = LF then no_false_pair ys
      else if x = CR \<and> y = NUL then (ys = [] \<or> hd ys \<noteq> LF \<and> hd ys \<noteq> NUL) \<and> no_false_pair ys
      else no_false_pair (y # ys))"

text \<open>The bytes that are written, and the ones that are held back.\<close>

definition hold_back :: "bytes \<Rightarrow> bytes \<times> bytes" where
  "hold_back d = (if d \<noteq> [] \<and> last d = CR then (butlast d, [CR]) else (d, []))"

lemma hold_back_simps [simp]:
  "hold_back [] = ([], [])"
  "d \<noteq> [] \<Longrightarrow> hold_back (x # d) = (x # fst (hold_back d), snd (hold_back d))"
  "x \<noteq> CR \<Longrightarrow> hold_back (x # d) = (x # fst (hold_back d), snd (hold_back d))"
  "hold_back [CR] = ([], [CR])"
  by (auto simp: hold_back_def)

lemma hold_back_append: "fst (hold_back d) @ snd (hold_back d) = d"
  by (cases d rule: rev_cases) (auto simp: hold_back_def)

lemma snd_hold_back: "snd (hold_back d) = [] \<or> snd (hold_back d) = [CR]"
  by (simp add: hold_back_def)

lemma no_false_pair_CR:
  "no_false_pair x \<Longrightarrow> x = [] \<or> hd x \<noteq> LF \<and> hd x \<noteq> NUL \<Longrightarrow> no_false_pair (CR # x)"
  by (cases x) auto

lemma FormatFromNETASCII_CR:
  "x = [] \<or> hd x \<noteq> LF \<and> hd x \<noteq> NUL \<Longrightarrow> FormatFromNETASCII (CR # x) = CR # FormatFromNETASCII x"
  by (cases x) auto

text \<open>Cutting the stream after \<open>y\<close>.\<close>

lemma FormatFromNETASCII_cut:
  "no_false_pair (y @ x) \<Longrightarrow> no_false_pair (snd (hold_back (FormatFromNETASCII y)) @ x)
     \<and> fst (hold_back (FormatFromNETASCII y)) @ FormatFromNETASCII (snd (hold_back (FormatFromNETASCII y)) @ x)
       = FormatFromNETASCII (y @ x)"
proof (induction y rule: FormatFromNETASCII.induct)
  case (2 a)
  then show ?case
  proof (cases "a = CR")
    case False
    with 2 show ?thesis by (cases x) auto
  qed simp
next
  case (3 a b ys)
  consider "a = CR" "b = LF" | "a = CR" "b = NUL" "ys = []" | "a = CR" "b = NUL" "ys \<noteq> []"
    | "a \<noteq> CR \<or> b \<noteq> LF \<and> b \<noteq> NUL" by blast
  then show ?case
  proof cases
    case 1
    with 3 show ?thesis by simp
  next
    case 2
    with "3.prems" show ?thesis
      by (simp add: no_false_pair_CR FormatFromNETASCII_CR)
  next
    case 3: 3
    with "3.IH" "3.prems" show ?thesis by (cases ys) simp_all
  next
    case 4
    then have e: "FormatFromNETASCII (a # b # ys) = a # FormatFromNETASCII (b # ys)"
      "FormatFromNETASCII ((a # b # ys) @ x) = a # FormatFromNETASCII ((b # ys) @ x)"
      by auto
    have "no_false_pair ((b # ys) @ x)" using 4 "3.prems" by auto
    with 4 "3.IH"(3,4) have "no_false_pair (snd (hold_back (FormatFromNETASCII (b # ys))) @ x)
      \<and> fst (hold_back (FormatFromNETASCII (b # ys))) @ FormatFromNETASCII (snd (hold_back (FormatFromNETASCII (b # ys))) @ x)
       = FormatFromNETASCII ((b # ys) @ x)" by blast
    then show ?thesis unfolding e by simp
  qed
qed simp

section \<open>The writer\<close>

text \<open>
  The writer has been given the stream \<open>w\<close>, and there is space for \<open>n\<close> more bytes.
\<close>

definition text_written :: "'b world_scheme \<Rightarrow> bytes \<Rightarrow> nat \<Rightarrow> bool" where
  "text_written s w n \<longleftrightarrow> (let wr = the_writer s; p = canonical_of (fsys s) (w_filepath wr);
       l = w_tbw_later_buffer wr in
     w_mode wr = DF_NETASCII \<and> \<not> w_fail wr \<and> (l = [] \<or> l = [CR]) \<and> length l + n \<le> avail (fsys s)
     \<and> may_open (fsys s) p
     \<and> (if w_open wr then \<exists>c. nodes (fsys s) p = Some (FileN c) \<and> (\<forall>x. no_false_pair (w @ x) \<longrightarrow>
            no_false_pair (l @ x) \<and> c @ FormatFromNETASCII (l @ x) = FormatFromNETASCII (w @ x))
        else w = [] \<and> l = [] \<and> nodes (fsys s) p \<noteq> Some DirN))"

lemma text_written_put:
  assumes t: "text_written s w (length d + n)" and o: "w_open (the_writer s)" and d: "d \<noteq> []"
  shows "wlp (Writer_WriteFile d) (\<lambda>r s'. r = Inr () \<and> text_written s' (w @ d) n \<and> w_open (the_writer s')
     \<and> sink_frame s s') s"
proof -
  define wr where "wr = the_writer s"
  define p where "p = canonical_of (fsys s) (w_filepath wr)"
  define l where "l = w_tbw_later_buffer wr"
  define D where "D = FormatFromNETASCII (l @ d)"
  define out where "out = fst (hold_back D)"
  define l' where "l' = snd (hold_back D)"
  obtain c where c: "nodes (fsys s) p = Some (FileN c)"
    and I: "\<And>x. no_false_pair (w @ x) \<Longrightarrow> no_false_pair (l @ x) \<and> c @ FormatFromNETASCII (l @ x) = FormatFromNETASCII (w @ x)"
    and m: "w_mode wr = DF_NETASCII" "\<not> w_fail wr" "length l + length d + n \<le> avail (fsys s)" "may_open (fsys s) p"
    using t o unfolding text_written_def Let_def wr_def [symmetric] p_def [symmetric] l_def [symmetric] by auto
  have ne: "D \<noteq> []" using d by (simp add: D_def)
  have "length out + length l' = length D" using hold_back_append [of D] unfolding out_def l'_def
    by (metis length_append)
  then have room: "length out \<le> avail (fsys s)" "length l' + n \<le> avail (fsys s) - length out"
    using m(3) length_FormatFromNETASCII [of "l @ d"] by (simp_all add: D_def)
  then have ap: "append_file (fsys s) (w_filepath wr) out = (True, (fsys s)\<lparr>nodes := (nodes (fsys s))
      (p := Some (FileN (c @ out))), avail := avail (fsys s) - length out\<rparr>)"
    using c by (simp add: append_file_def Let_def p_def)
  let ?s' = "s\<lparr>fsys := (fsys s)\<lparr>nodes := (nodes (fsys s))(p := Some (FileN (c @ out))),
      avail := avail (fsys s) - length out\<rparr>, the_writer := wr\<lparr>w_tbw_later_buffer := l', w_fail := False\<rparr>\<rparr>"
  have J: "no_false_pair (l' @ x) \<and> (c @ out) @ FormatFromNETASCII (l' @ x) = FormatFromNETASCII ((w @ d) @ x)"
    if "no_false_pair ((w @ d) @ x)" for x
    using I [of "d @ x"] FormatFromNETASCII_cut [of "l @ d" x] that
    unfolding D_def [symmetric] out_def [symmetric] l'_def [symmetric] by simp
  have "text_written ?s' (w @ d) n" "sink_frame s ?s'" "w_open (the_writer ?s')"
    using m room J snd_hold_back [of D] o
    unfolding text_written_def sink_frame_def Let_def by (auto simp: wr_def p_def l'_def)
  moreover have "wlp (Writer_WriteFile d) Q s = Q (Inr ()) ?s'" for Q
  proof (cases "last D = CR")
    case True
    then have "out = butlast D" "l' = [CR]" using ne by (simp_all add: out_def l'_def hold_back_def)
    then show ?thesis
      using o d ne True m(1,2) ap
      by (simp add: Writer_WriteFile_def wr_def l_def D_def Let_def wlp_writer_put)
  next
    case False
    then have "out = D" "l' = []" using ne by (simp_all add: out_def l'_def hold_back_def)
    then show ?thesis
      using o d ne False m(1,2) ap
      by (simp add: Writer_WriteFile_def wr_def l_def D_def Let_def wlp_writer_put)
  qed
  ultimately show ?thesis by simp
qed

lemma text_written_write:
  assumes t: "text_written s w (length d + n)" and d: "d \<noteq> []"
  shows "wlp (Writer_WriteFile d) (\<lambda>r s'. r = Inr () \<and> text_written s' (w @ d) n \<and> w_open (the_writer s')
     \<and> sink_frame s s') s"
proof (cases "w_open (the_writer s)")
  case True
  show ?thesis by (rule text_written_put [OF t True d])
next
  case False
  have "\<exists>fs'. open_write (fsys s) (w_filepath (the_writer s)) = Some fs' \<and> avail (fsys s) \<le> avail fs'"
    using t False by (auto simp: open_write_def text_written_def Let_def split: option.split node.split)
  then obtain fs' where fs': "open_write (fsys s) (w_filepath (the_writer s)) = Some fs'"
    "avail (fsys s) \<le> avail fs'" by blast
  let ?s1 = "s\<lparr>fsys := fs', the_writer := (the_writer s)\<lparr>w_open := True, w_fail := False\<rparr>\<rparr>"
  have "text_written ?s1 w (length d + n)"
    using t False fs' open_write_static [OF fs'(1)] by (simp add: text_written_def Let_def)
  moreover have "sink_frame s ?s1" using open_write_static [OF fs'(1)] by (auto simp: sink_frame_def)
  ultimately show ?thesis
    by (auto simp: Writer_WriteFile_closed [OF False] fs'(1) intro: sink_frame_trans
        intro!: wlp_mono [OF text_written_put [of ?s1, OF _ _ d]])
qed

lemma text_written_blocks:
  "text_written s w (length (concat bs) + n) \<Longrightarrow> \<forall>b \<in> set bs. b \<noteq> [] \<Longrightarrow> bs \<noteq> [] \<or> w_open (the_writer s) \<Longrightarrow>
   wlp (for_each bs Writer_WriteFile) (\<lambda>r s'. r = Inr () \<and> text_written s' (w @ concat bs) n
     \<and> w_open (the_writer s') \<and> sink_frame s s') s"
proof (induction bs arbitrary: s w)
  case (Cons b bs)
  have rest: "wlp (for_each bs Writer_WriteFile) (\<lambda>r s''. r = Inr () \<and> text_written s'' (w @ concat (b # bs)) n
      \<and> w_open (the_writer s'') \<and> sink_frame s s'') s'"
    if "text_written s' (w @ b) (length (concat bs) + n)" "w_open (the_writer s')" "sink_frame s s'" for s'
    using Cons.IH [of s' "w @ b"] that Cons.prems(2) by (auto elim!: wlp_mono intro: sink_frame_trans)
  have "text_written s w (length b + (length (concat bs) + n))" "b \<noteq> []"
    using Cons.prems by (simp_all add: add.assoc)
  from text_written_write [OF this] show ?case
    unfolding for_each.simps wlp_seq by (rule wlp_mono) (use rest in auto)
qed simp

text \<open>Closing the writer writes what was held back.\<close>

lemma text_written_close:
  assumes t: "text_written s w n" and o: "w_open (the_writer s)" and ok: "no_false_pair w"
  shows "wlp Writer_dtor (\<lambda>r s'. r = Inr () \<and> sink_frame s s'
     \<and> nodes (fsys s') (canonical_of (fsys s) (w_filepath (the_writer s))) = Some (FileN (FormatFromNETASCII w))) s"
proof -
  obtain c where c: "nodes (fsys s) (canonical_of (fsys s) (w_filepath (the_writer s))) = Some (FileN c)"
    "c @ FormatFromNETASCII (w_tbw_later_buffer (the_writer s)) = FormatFromNETASCII w"
    and l: "w_tbw_later_buffer (the_writer s) = [] \<or> w_tbw_later_buffer (the_writer s) = [CR]"
    "\<not> w_fail (the_writer s)" "length (w_tbw_later_buffer (the_writer s)) \<le> avail (fsys s)"
    using t o ok unfolding text_written_def Let_def by (auto dest: spec [of _ "[]"])
  from l(1) show ?thesis
  proof
    assume "w_tbw_later_buffer (the_writer s) = []"
    then show ?thesis using c l o by (simp add: Writer_dtor_def sink_frame_def)
  next
    assume "w_tbw_later_buffer (the_writer s) = [CR]"
    then show ?thesis
      using c l o by (auto simp: Writer_dtor_def wlp_writer_put append_file_def sink_frame_def Let_def)
  qed
qed

text \<open>A text without NUL, encoded and sent in blocks.\<close>

lemma no_false_pair_CR_LF [simp]:
  "x \<noteq> CR \<Longrightarrow> no_false_pair (x # xs) = no_false_pair xs"
  "no_false_pair (CR # LF # xs) = no_false_pair xs"
  by (cases xs; simp)+

lemma hd_FormatToNETASCII: "FormatToNETASCII d \<noteq> [] \<Longrightarrow> NUL \<notin> set d \<Longrightarrow>
   hd (FormatToNETASCII d) \<noteq> LF \<and> hd (FormatToNETASCII d) \<noteq> NUL"
  by (cases d rule: FormatToNETASCII.cases) auto

lemma no_false_pair_encoded: "NUL \<notin> set d \<Longrightarrow> no_false_pair (FormatToNETASCII d)"
proof (induction d rule: FormatToNETASCII.induct)
  case (3 x y ys)
  then show ?case using hd_FormatToNETASCII [of "y # ys"] by auto
qed auto

section \<open>The reader\<close>

text \<open>Text without line ends encodes to itself.\<close>

definition one_line :: "bytes \<Rightarrow> bool" where
  "one_line d \<longleftrightarrow> CR \<notin> set d \<and> LF \<notin> set d"

lemma one_line_encoded: "one_line d \<Longrightarrow> FormatToNETASCII d = d"
  by (induction d) (auto simp: one_line_def)

lemma one_line_take: "one_line d \<Longrightarrow> one_line (take n d)"
  by (auto simp: one_line_def dest: in_set_takeD)

lemma one_line_last: "one_line d \<Longrightarrow> d \<noteq> [] \<Longrightarrow> last d \<noteq> CR \<and> last d \<noteq> LF"
  unfolding one_line_def by (metis last_in_set)

lemma complete_line_stop: "\<not> ends_line b \<Longrightarrow> complete_line u err b ov st = Inr (b, ov, st)"
  by (simp add: complete_line.simps)

lemma needs_crlf_last: "2 \<le> length b \<Longrightarrow> last b \<noteq> LF \<Longrightarrow> needs_crlf n b"
  by (cases "b = []") (auto simp: needs_crlf_def last_conv_nth)

text \<open>
  A full block that does not end a line: the two bytes CR LF, which belong after the last line of
  a text, are put after it.
\<close>

lemma finish_netascii_full:
  assumes "FormatToNETASCII b = b" "2 \<le> length b" "last b \<noteq> LF"
  shows "finish_netascii (length b) b ov = (b, [CR, LF])"
  using assms needs_crlf_last [of b "length b"] by (simp add: finish_netascii_def Let_def)

lemma reader_netascii_short:
  assumes "good_stream st" "length (FormatToNETASCII (st_rest st)) + 2 \<le> n"
  shows "\<exists>st'. reader_netascii u n [] st = Inr (FormatToNETASCII (st_rest st) @ [CR, LF], [], st')"
proof -
  have "length (st_rest st) < n" using assms(2) length_FormatToNETASCII [of "st_rest st"] by simp
  with assms show ?thesis
    using stream_read_good [OF assms(1), of n]
    by (simp add: reader_netascii_def take_overflow_def finish_netascii_def needs_crlf_def Let_def)
qed

lemma reader_netascii_first:
  assumes "good_stream st" "one_line (st_rest st)" "2 \<le> n" "n \<le> length (st_rest st)"
  shows "reader_netascii u n [] st = Inr (take n (st_rest st), [CR, LF], snd (stream_read n st))"
proof -
  let ?b = "take n (st_rest st)"
  have b: "length ?b = n" "one_line ?b" "?b \<noteq> []" using assms by (auto simp: one_line_take)
  have "finish_netascii n ?b [] = (?b, [CR, LF])"
    using finish_netascii_full [of ?b "[]"] b one_line_encoded [OF b(2)] one_line_last [OF b(2,3)] assms(3) by simp
  moreover have "\<not> ends_line ?b" using one_line_last [OF b(2,3)] by (simp add: ends_line_def)
  moreover have "\<not> st_eof (snd (stream_read n st))"
    using stream_read_good(3) [OF assms(1,4)] by (simp add: good_stream_def)
  ultimately show ?thesis
    using stream_read_good [OF assms(1), of n] assms(3,4)
    by (simp add: reader_netascii_def take_overflow_def Let_def complete_line_stop)
qed

lemma reader_netascii_next:
  assumes "good_stream st" "one_line (st_rest st)" "3 \<le> n" "n - 2 \<le> length (st_rest st)"
  shows "reader_netascii u n [CR, LF] st =
    Inr (CR # LF # take (n - 2) (st_rest st), [CR, LF], snd (stream_read (n - 2) st))"
proof -
  let ?d = "take (n - 2) (st_rest st)"
  have b: "length ?d = n - 2" "one_line ?d" "?d \<noteq> []" using assms by (auto simp: one_line_take)
  let ?b = "CR # LF # ?d"
  have "Suc (Suc (n - 2)) = n" using assms(3) by simp
  then have "finish_netascii n ?b [] = (?b, [CR, LF])"
    using finish_netascii_full [of ?b "[]"] b one_line_encoded [OF b(2)] one_line_last [OF b(2,3)] by simp
  moreover have "\<not> ends_line ?b" using one_line_last [OF b(2,3)] b(3) by (simp add: ends_line_def)
  moreover have "\<not> st_eof (snd (stream_read (n - 2) st))"
    using stream_read_good(3) [OF assms(1,4)] by (simp add: good_stream_def)
  moreover have "n - Suc (Suc 0) = n - 2" "Suc (Suc (n - 2)) = n" using assms(3) by simp_all
  ultimately show ?thesis
    using stream_read_good [OF assms(1), of "n - 2"] assms(3,4)
    by (simp add: reader_netascii_def take_overflow_def Let_def complete_line_stop)
qed

lemma Reader_ReadFile_netascii:
  assumes "r_mode r = DF_NETASCII" "FileExists (fsys s) (r_filepath r)"
    and "(case r_file r of None \<Rightarrow> Reader_OpenFile r | Some st \<Rightarrow> ret st) s = Some (Inr st, s)"
    and "reader_netascii (r_indet r) n (r_overflow_buffer r) st = Inr (b, ov, st')"
  shows "Reader_ReadFile n r s = Some (Inr (b, r\<lparr>r_file := Some st', r_overflow_buffer := ov\<rparr>), s)"
  using assms by (simp add: Reader_ReadFile_def bnd_def [of "gets fsys"] gets_def ret_def bnd_def)

end
