(* ===== verification/Completion.thy ===== *)
theory Completion
  imports Upload Download Session NetasciiTransfer Arrivals
begin

text \<open>
  Transfers of the client that succeed: when the packets of the server arrive, in order and each
  after a few disturbances at most, nothing interrupts and there is room for the file, a download
  stores the file, and an upload sends all blocks. The other theories say what holds of every run;
  here the loops are followed to their end.
\<close>

section \<open>Writing with room\<close>

text \<open>The file of the writer is open, or can be opened, and there is space for \<open>n\<close> more bytes.\<close>

definition room :: "'b world_scheme \<Rightarrow> nat \<Rightarrow> bool" where
  "room s n \<longleftrightarrow> (let p = canonical_of (fsys s) (w_filepath (the_writer s)) in
     n \<le> avail (fsys s) \<and> may_open (fsys s) p \<and> nodes (fsys s) p \<noteq> Some DirN)"

lemma wlp_write_block_room:
  assumes h: "writer_holds s c" and r: "room s (length d + n)"
  shows "wlp (write_block d) (\<lambda>r s'. r = Inr () \<and> sink_frame s s' \<and> writer_holds s' (c @ d)
     \<and> w_open (the_writer s') \<and> room s' n) s"
proof -
  define p where "p = canonical_of (fsys s) (w_filepath (the_writer s))"
  have opened: "wlp (Writer_WriteFile d) (\<lambda>r s'. r = Inr () \<and> room s' n) s1"
    if "w_open (the_writer s1)" "writer_holds s1 c" "room s1 (length d + n)" for s1 :: "'a world_scheme"
  proof -
    let ?f = "w_filepath (the_writer s1)"
    have a: "nodes (fsys s1) (canonical_of (fsys s1) ?f) = Some (FileN c)" "w_mode (the_writer s1) = DF_OCTET"
      "w_tbw_later_buffer (the_writer s1) = []" "\<not> w_fail (the_writer s1)"
      using that by (auto simp: writer_holds_def Let_def)
    have w: "(the_writer s1)\<lparr>w_tbw_later_buffer := []\<rparr> = the_writer s1"
      using a(3) by (metis writer.surjective writer.update_convs(5))
    have "length d \<le> avail (fsys s1)" using that(3) by (simp add: room_def Let_def)
    then have ap: "append_file (fsys s1) ?f d = (True, (fsys s1)\<lparr>nodes := (nodes (fsys s1))
        (canonical_of (fsys s1) ?f := Some (FileN (c @ d))), avail := avail (fsys s1) - length d\<rparr>)"
      using a(1) by (simp add: append_file_def Let_def)
    show ?thesis
      using that(1,3) a ap
      by (auto simp: Writer_WriteFile_def w wlp_writer_put Let_def room_def)
  qed
  have "wlp (Writer_WriteFile d) (\<lambda>r s'. r = Inr () \<and> room s' n) s"
  proof (cases "w_open (the_writer s)")
    case True
    then show ?thesis using opened h r by blast
  next
    case False
    have "\<exists>fs'. open_write (fsys s) (w_filepath (the_writer s)) = Some fs' \<and> avail (fsys s) \<le> avail fs'"
      using r by (auto simp: open_write_def room_def Let_def split: option.split node.split)
    then obtain fs' where fs': "open_write (fsys s) (w_filepath (the_writer s)) = Some fs'"
      "avail (fsys s) \<le> avail fs'" by blast
    let ?s1 = "s\<lparr>fsys := fs', the_writer := (the_writer s)\<lparr>w_open := True, w_fail := False\<rparr>\<rparr>"
    have "writer_holds ?s1 c" "room ?s1 (length d + n)"
      using h r False fs' open_write_static [OF fs'(1)]
      by (simp_all add: writer_holds_def room_def Let_def)
    with opened [of ?s1] show ?thesis by (simp add: Writer_WriteFile_closed [OF False] fs'(1))
  qed
  from wlp_conj [OF wlp_conj [OF octet_sink.write_block [OF h] wlp_Writer_WriteFile_open] this]
  show ?thesis
    unfolding write_block_def wlp_try_catch by (rule wlp_mono) auto
qed

text \<open>
  The writer, in either format, has been given the stream \<open>c\<close> and will be given the blocks \<open>bs\<close>, for
  which there is room. In NETASCII format no block may be empty.
\<close>

definition storing :: "'b world_scheme \<Rightarrow> bytes \<Rightarrow> bytes list \<Rightarrow> bool" where
  "storing s c bs \<longleftrightarrow> (case w_mode (the_writer s) of
     DF_OCTET \<Rightarrow> writer_holds s c \<and> room s (length (concat bs))
   | DF_NETASCII \<Rightarrow> text_written s c (length (concat bs)) \<and> (\<forall>b \<in> set bs. b \<noteq> []))"

lemma storing_same:
  "fsys s1 = fsys s \<Longrightarrow> the_writer s1 = the_writer s \<Longrightarrow> storing s1 c bs = storing s c bs"
  by (simp add: storing_def writer_holds_def room_def text_written_def Let_def split: DataFormat.split)

lemma storing_steps [simp]:
  "storing (s\<lparr>loads := k\<rparr>) c bs = storing s c bs"
  "storing (s\<lparr>outbox := out\<rparr>) c bs = storing s c bs"
  "storing (s\<lparr>udp_timeout := t, so_rcvtimeo := u\<rparr>) c bs = storing s c bs"
  by (rule storing_same; simp)+

text \<open>What the file holds in the end.\<close>

definition local_text :: "DataFormat \<Rightarrow> bytes \<Rightarrow> bytes" where
  "local_text md c = (case md of DF_OCTET \<Rightarrow> c | DF_NETASCII \<Rightarrow> FormatFromNETASCII c)"

lemma local_text_octet [simp]: "local_text DF_OCTET c = c"
  by (simp add: local_text_def)

lemma storing_written:
  assumes "storing s c (b # bs)"
  shows "wlp (write_block b) (\<lambda>r s'. r = Inr () \<and> storing s' (c @ b) bs \<and> w_open (the_writer s')
     \<and> sink_frame s s' \<and> w_mode (the_writer s') = w_mode (the_writer s)) s"
proof (cases "w_mode (the_writer s)")
  case DF_OCTET
  then have "writer_holds s c" "room s (length b + length (concat bs))" using assms by (simp_all add: storing_def)
  from wlp_write_block_room [OF this] show ?thesis
    by (rule wlp_mono) (simp add: storing_def DF_OCTET writer_holds_def Let_def)
next
  case DF_NETASCII
  then have t: "text_written s c (length b + length (concat bs))" "b \<noteq> []" "\<forall>b \<in> set bs. b \<noteq> []"
    using assms by (simp_all add: storing_def)
  have m: "text_written s' (c @ b) (length (concat bs)) \<Longrightarrow> w_mode (the_writer s') = DF_NETASCII" for s' :: "'a world_scheme"
    by (simp add: text_written_def Let_def)
  show ?thesis
    unfolding write_block_def wlp_try_catch
    by (rule wlp_mono [OF text_written_write [OF t(1,2)]]) (simp add: storing_def DF_NETASCII t(3) m)
qed

lemma storing_close:
  assumes "storing s c []" "w_open (the_writer s)" "w_mode (the_writer s) = DF_NETASCII \<longrightarrow> no_false_pair c"
  shows "wlp Writer_dtor (\<lambda>r s'. r = Inr () \<and> sink_frame s s'
     \<and> nodes (fsys s') (canonical_of (fsys s) (w_filepath (the_writer s)))
         = Some (FileN (local_text (w_mode (the_writer s)) c))) s"
proof (cases "w_mode (the_writer s)")
  case DF_OCTET
  then show ?thesis
    using assms by (simp add: storing_def writer_holds_def Let_def Writer_dtor_def sink_frame_def)
next
  case DF_NETASCII
  then show ?thesis
    using assms text_written_close [of s c 0] by (simp add: storing_def local_text_def)
qed

section \<open>Blocks that arrive\<close>

text \<open>
  A receiver that has stored \<open>c0\<close> at \<open>pth\<close> and whose peer will send the blocks \<open>bs\<close> from number \<open>n\<close>,
  \<open>k\<close> disturbances having happened since the last block; \<open>m\<close> is the number of bytes of a full block.
\<close>

definition incoming :: "DataFormat \<Rightarrow> sockaddr \<Rightarrow> path \<Rightarrow> nat \<Rightarrow> bytes \<Rightarrow> nat \<Rightarrow> int \<Rightarrow> bytes list \<Rightarrow>
    net_event list \<Rightarrow> 'b udp_client_scheme \<Rightarrow> bool" where
  "incoming md peer pth m c0 k n bs rest s \<longleftrightarrow> sigint_at s = None \<and> 4 + m \<le> maxPacketSize s
     \<and> arrives peer (data_due (maxPacketSize s) m n bs) k rest (inbox s) \<and> k < MAX_RETRIES
     \<and> canonical_of (fsys s) (w_filepath (the_writer s)) = pth
     \<and> w_mode (the_writer s) = md \<and> storing s c0 bs"

lemma incoming_steps [simp]:
  "incoming md peer pth m c0 k n bs rest (s\<lparr>loads := l\<rparr>) = incoming md peer pth m c0 k n bs rest s"
  "incoming md peer pth m c0 k n bs rest (s\<lparr>outbox := out\<rparr>) = incoming md peer pth m c0 k n bs rest s"
  "incoming md peer pth m c0 k n bs rest (s\<lparr>udp_timeout := t, so_rcvtimeo := u\<rparr>)
     = incoming md peer pth m c0 k n bs rest s"
  by (simp_all add: incoming_def)

lemma incoming_no_sigint: "incoming md peer pth m c0 k n bs rest s \<Longrightarrow> \<not> sigint_set s"
  by (simp add: incoming_def sigint_set_def)

lemma incoming_due:
  assumes "incoming md peer pth m c0 k n (b # bs) rest s" "length b \<le> m"
  shows "arrives peer ((data_raw n b, stale_data (maxPacketSize s) m n) # data_due (maxPacketSize s) m (n + 1) bs)
      k rest (inbox s)" "sigint_at s = None" "fitting s (data_raw n b, stale_data (maxPacketSize s) m n)"
    "k < MAX_RETRIES"
  using assms by (auto simp: incoming_def fitting_data)

text \<open>Still waiting, after a disturbance.\<close>

lemma incoming_later:
  assumes "incoming md peer pth m c0 k n bs rest s" "recv_frame peer s s'" "j < MAX_RETRIES"
    and "arrives peer (data_due (maxPacketSize s) m n bs) j rest (inbox s')"
  shows "incoming md peer pth m c0 j n bs rest s'"
proof -
  note f = recv_frame_fields [OF assms(2)] recv_frame_udp_fields [OF assms(2)]
  have "storing s' c0 bs = storing s c0 bs" by (rule storing_same) (simp_all add: f(1,2))
  with assms(1,3,4) f show ?thesis by (simp add: incoming_def)
qed

lemma incoming_written:
  assumes f: "incoming md peer pth m c0 k n (b # bs) rest s"
    and s1: "arrives peer (data_due (maxPacketSize s) m (n + 1) bs) 0 rest (inbox s1)" "sigint_at s1 = sigint_at s"
      "fsys s1 = fsys s" "the_writer s1 = the_writer s" "maxPacketSize s1 = maxPacketSize s"
  shows "wlp (write_block b) (\<lambda>r s'. r = Inr () \<and> incoming md peer pth m (c0 @ b) 0 (n + 1) bs rest s'
     \<and> w_open (the_writer s') \<and> sink_frame s1 s') s1"
proof -
  have w: "storing s1 c0 (b # bs)" using f storing_same [OF s1(3,4)] by (simp add: incoming_def)
  show ?thesis
  proof (rule wlp_mono [OF storing_written [OF w]], goal_cases)
    case (1 r s')
    then have eq: "s' = s1\<lparr>fsys := fsys s', the_writer := the_writer s'\<rparr>" by (simp add: sink_frame_def)
    have "sigint_at s' = None" "maxPacketSize s' = maxPacketSize s" "inbox s' = inbox s1"
      using f s1 by (subst eq; simp add: incoming_def)+
    with 1 f s1(1) show ?case by (simp add: incoming_def sink_frame_def s1(2-) MAX_RETRIES_def)
  qed
qed

lemma incoming_stored:
  "incoming DF_OCTET peer pth m c k n [] rest s \<Longrightarrow> w_open (the_writer s) \<Longrightarrow> nodes (fsys s) pth = Some (FileN c)
     \<and> w_tbw_later_buffer (the_writer s) = []"
  by (auto simp: incoming_def storing_def writer_holds_def Let_def)

section \<open>Downloads\<close>

definition flowing :: "path \<Rightarrow> nat \<Rightarrow> bytes \<Rightarrow> nat \<Rightarrow> int \<Rightarrow> bytes list \<Rightarrow> net_event list \<Rightarrow> tftp_client \<Rightarrow> bool" where
  "flowing pth m c0 k n bs rest s \<longleftrightarrow> incoming DF_OCTET (server s) pth m c0 k n bs rest s \<and> unat (cl_blksize s) = m"

lemma flowing_steps [simp]:
  "flowing pth m c0 k n bs rest (s\<lparr>loads := l\<rparr>) = flowing pth m c0 k n bs rest s"
  "flowing pth m c0 k n bs rest (s\<lparr>outbox := out\<rparr>) = flowing pth m c0 k n bs rest s"
  "flowing pth m c0 k n bs rest (s\<lparr>udp_timeout := t, so_rcvtimeo := u\<rparr>) = flowing pth m c0 k n bs rest s"
  by (simp_all add: flowing_def)

lemma flowing_no_sigint: "flowing pth m c0 k n bs rest s \<Longrightarrow> \<not> sigint_set s"
  unfolding flowing_def by (blast dest: incoming_no_sigint)

lemma wlp_check_flowing:
  "flowing pth m c0 k n bs rest s \<Longrightarrow> wlp Client_CheckForSigintRRQ Q s = Q (Inr ()) (s\<lparr>loads := Suc (loads s)\<rparr>)"
  by (simp add: Client_CheckForSigintRRQ_def flowing_no_sigint)

lemma client_recv_fields:
  fixes s s' :: tftp_client
  assumes "recv_frame peer s s'"
  shows "server s' = server s" "cl_blksize s' = cl_blksize s" "args s' = args s"
  using assms by (auto simp: recv_frame_def dest: arg_cong [where f = server_address]
      arg_cong [where f = cl_blksize] arg_cong [where f = args])

lemma flowing_later:
  assumes "flowing pth m c0 k n bs rest s" "recv_frame (server s) s s'" "j < MAX_RETRIES"
    and "arrives (server s) (data_due (maxPacketSize s) m n bs) j rest (inbox s')"
  shows "flowing pth m c0 j n bs rest s'"
  using assms incoming_later [OF _ assms(2-4)] client_recv_fields [OF assms(2)] by (auto simp: flowing_def)

lemma flowing_written:
  assumes f: "flowing pth m c0 k n (b # bs) rest s"
    and s1: "arrives (server s) (data_due (maxPacketSize s) m (n + 1) bs) 0 rest (inbox s1)"
      "sigint_at s1 = sigint_at s" "fsys s1 = fsys s" "the_writer s1 = the_writer s"
      "maxPacketSize s1 = maxPacketSize s" "server s1 = server s" "cl_blksize s1 = cl_blksize s"
  shows "wlp (write_block b) (\<lambda>r s'. r = Inr () \<and> flowing pth m (c0 @ b) 0 (n + 1) bs rest s'
     \<and> w_open (the_writer s') \<and> sink_frame s1 s') s1"
proof (rule wlp_mono [OF incoming_written [OF f [unfolded flowing_def, THEN conjunct1] s1(1-5)]], goal_cases)
  case (1 r s')
  then have eq: "s' = s1\<lparr>fsys := fsys s', the_writer := the_writer s'\<rparr>" by (simp add: sink_frame_def)
  have "server s' = server s" "unat (cl_blksize s') = m"
    using f s1 by (subst eq; simp add: flowing_def)+
  with 1 show ?case by (simp add: flowing_def)
qed

lemma flowing_received:
  assumes f: "flowing pth m c0 k n (b # bs) rest s" and r: "recv_frame (server s) s s1"
    and a: "arrives (server s) (data_due (maxPacketSize s) m (n + 1) bs) 0 rest (inbox s1)"
  shows "wlp (write_block b) (\<lambda>r s'. r = Inr () \<and> flowing pth m (c0 @ b) 0 (n + 1) bs rest s' \<and> w_open (the_writer s')) s1"
  by (rule wlp_mono [OF flowing_written [OF f a]])
    (auto simp: recv_frame_fields [OF r] recv_frame_udp_fields [OF r] client_recv_fields [OF r])

text \<open>One round: the block, or another try. \<open>q\<close> counts the tries the client counts.\<close>

lemma client_data_flow:
  assumes f: "flowing pth m c0 k n (b # bs) rest s" and b: "length b \<le> m" "n < 65536" and n: "n = uint bn + 1"
    and q: "q \<le> k"
  shows "wlp (client_data_round (False, q, bn, False)) (\<lambda>r s'.
       r = Inr (True, q, bn + 1, length b < m) \<and> flowing pth m (c0 @ b) 0 (n + 1) bs rest s' \<and> w_open (the_writer s')
     \<or> (\<exists>p j. r = Inr (False, p, bn, False) \<and> p \<le> j \<and> flowing pth m c0 j n (b # bs) rest s')) s"
    (is "wlp _ ?Q s")
proof -
  have num: "uint (word_of_int n :: 16 word) = uint bn + 1"
    unfolding uint_word16 using b(2) n by (simp add: unsigned_greater_eq)
  have blk: "0 \<le> uint (cl_blksize s)" "uint (cl_blksize s) < 2 ^ 32"
    using uint_block_number [of "cl_blksize s"] by simp_all
  have bm: "unat (cl_blksize s) = m" "uint (cl_blksize s) = int m" "take m b = b"
    using f b blk(1) by (auto simp: flowing_def simp flip: uint_nat)
  have parse: "DataPacket_ctor_raw (data_raw n b) (int m) = Inr \<lparr>dp_block_number = word_of_int n, dp_data = b\<rparr>"
    using data_raw_parse [OF blk, of n b] by (simp add: bm)
  let ?s0 = "s\<lparr>loads := Suc (loads s)\<rparr>"
  let ?s1 = "?s0\<lparr>outbox := outbox ?s0 @ [(server ?s0, AckPacket_MakeRaw (AckPacket bn))]\<rparr>"
  have f1: "flowing pth m c0 k n (b # bs) rest ?s1" using f by simp
  note due = incoming_due [OF f1 [unfolded flowing_def, THEN conjunct1] b(1)]
  let ?P = "\<lambda>r s'. r = Inr (True, q, bn + 1, length b < m) \<and> flowing pth m (c0 @ b) 0 (n + 1) bs rest s' \<and> w_open (the_writer s')
     \<or> (\<exists>p j. r = Inr (False, p, bn, False) \<and> p \<le> j \<and> flowing pth m c0 j n (b # bs) rest s')"
  show ?thesis
    unfolding client_data_round_def prod.case wlp_bnd [of "try_catch _ _"] try_catch_seq wlp_check_flowing [OF f]
      sum.case wlp_send_to_server
  proof (rule wlp_mono [where Q = ?P], rule wlp_wait_server, rule wlp_wait_due [OF due], goal_cases)
    case (1 s')
    then show ?case
      using flowing_received [OF f1 1] client_recv_fields(2) [OF 1(1)]
      by (cases "length b < m") (simp_all add: parse bm num, (erule wlp_mono, auto)+)
  next
    case (2 j x s')
    have l: "flowing pth m c0 j n (b # bs) rest s'" using flowing_later [OF f1 2(1,4)] 2(2) by simp
    note f = client_recv_fields(2) [OF 2(1)]
    from 2(5) have "stale_data (maxPacketSize s) m n x" by simp
    then show ?case
    proof (cases rule: stale_dataE)
      case (old p)
      then show ?thesis using l 2(3) q n f bm(2) by (auto intro!: exI [of _ j])
    next
      case (other opc)
      then show ?thesis using l 2(3) q by (auto intro!: exI [of _ j])
    qed
  next
    case (3 j s')
    have "flowing pth m c0 j n (b # bs) rest s'" using flowing_later [OF f1 3(1,4)] 3(2) by simp
    with 3(3) q show ?case by (auto intro!: exI [of _ j])
  next
    case (4 r s')
    then show ?case by (auto simp: wlp_check_flowing)
  qed
qed

lemma download_round_flow:
  assumes f: "flowing pth m c0 0 n (b # bs) rest s" and b: "length b \<le> m" "n < 65536" and n: "n = uint bn + 1"
  shows "wlp (download_round (bn, False)) (\<lambda>r s'. r = Inr (bn + 1, length b < m)
     \<and> flowing pth m (c0 @ b) 0 (n + 1) bs rest s' \<and> w_open (the_writer s')) s"
proof -
  define I where "I = (\<lambda>(got, q, bn', fin) s'.
     if got then q < MAX_RETRIES \<and> bn' = bn + 1 \<and> fin = (length b < m)
       \<and> flowing pth m (c0 @ b) 0 (n + 1) bs rest s' \<and> w_open (the_writer s')
     else bn' = bn \<and> \<not> fin \<and> (\<exists>k. q \<le> k \<and> flowing pth m c0 k n (b # bs) rest s'))"
  have few: "flowing pth m c0 k n (b # bs) rest s' \<Longrightarrow> k < MAX_RETRIES" for k s'
    by (simp add: flowing_def incoming_def)
  have "wlp (while_m client_data_guard client_data_round (False, 0, bn, False))
      (\<lambda>r s'. \<exists>q. q < MAX_RETRIES \<and> r = Inr (True, q, bn + 1, length b < m)
         \<and> flowing pth m (c0 @ b) 0 (n + 1) bs rest s' \<and> w_open (the_writer s')) s"
  proof (rule wlp_while [where I = I], goal_cases)
    case 1
    show ?case using f by (auto simp: I_def)
  next
    case (2 x s')
    then obtain q k where x: "x = (False, q, bn, False)" "q \<le> k" "flowing pth m c0 k n (b # bs) rest s'"
      by (cases x) (auto simp: I_def client_data_guard_def)
    have "q < MAX_RETRIES" using few [OF x(3)] x(2) by simp
    then show ?case
      unfolding x(1) by (auto simp: I_def intro!: wlp_mono [OF client_data_flow [OF x(3) b n x(2)]])
  next
    case (3 x s')
    then show ?case by (cases x) (auto simp: I_def client_data_guard_def dest: few split: if_splits)
  qed
  then show ?thesis
    unfolding download_round_def prod.case wlp_bnd
    by (rule wlp_mono) auto
qed

text \<open>All the blocks that are left.\<close>

lemma download_loop_flow:
  assumes "flowing pth m c0 0 (uint bn + 1) (blocks m c) rest s" "0 < m"
    and "uint bn + int (length (blocks m c)) < 65536"
  shows "wlp (while_m download_guard download_round (bn, False)) (\<lambda>r s'. (\<exists>x. r = Inr x)
     \<and> flowing pth m (c0 @ c) 0 (uint bn + 1 + int (length (blocks m c))) [] rest s' \<and> w_open (the_writer s')) s"
  using assms
proof (induction "length c" arbitrary: c c0 bn s rule: less_induct)
  case less
  have g: "download_guard (bn, False)" by (simp add: download_guard_def)
  show ?case
  proof (cases "length c < m")
    case True
    have out: "\<not> download_guard (bn + 1, True)" by (simp add: download_guard_def)
    have f: "flowing pth m c0 0 (uint bn + 1) (c # []) rest s"
      using less.prems(1) True by (simp add: blocks_short)
    show ?thesis
      unfolding wlp_while_go [where c = download_guard, OF g]
      by (rule wlp_mono [OF download_round_flow [OF f _ _ refl]])
        (use True less.prems(3) in \<open>auto simp: blocks_short wlp_while_out [where c = download_guard, OF out] add.assoc\<close>)
  next
    case False
    let ?b = "take m c" and ?c = "drop m c"
    have bs: "blocks m c = ?b # blocks m ?c" using False less.prems(2) by (simp add: blocks_long)
    have "uint (word_of_int (uint bn + 1) :: 16 word) = uint bn + 1"
      unfolding uint_word16 using less.prems(3) bs by (simp add: unsigned_greater_eq)
    then have bn: "uint (bn + 1) = uint bn + 1" by (rule word16_Suc)
    have next_blocks: "wlp (while_m download_guard download_round (bn + 1, False)) (\<lambda>r s'. (\<exists>x. r = Inr x)
       \<and> flowing pth m (c0 @ c) 0 (uint bn + 1 + int (length (blocks m c))) [] rest s' \<and> w_open (the_writer s')) s1"
      if "flowing pth m (c0 @ ?b) 0 (uint bn + 1 + 1) (blocks m ?c) rest s1" for s1
      using less.hyps [of ?c "c0 @ ?b" "bn + 1" s1] that False less.prems(2,3)
      by (simp add: bs bn add.assoc)
    have f: "flowing pth m c0 0 (uint bn + 1) (?b # blocks m ?c) rest s" using less.prems(1) bs by simp
    show ?thesis
      unfolding wlp_while_go [where c = download_guard, OF g]
      by (rule wlp_mono [OF download_round_flow [OF f _ _ refl]])
        (use False less.prems(3) bs next_blocks in auto)
  qed
qed

section \<open>The request and its answer\<close>

text \<open>The request is sent when its options can be written.\<close>

definition sendable :: "tftp_option list \<Rightarrow> bool" where
  "sendable opts = (case options_MakeRaw opts of Inl _ \<Rightarrow> False | Inr _ \<Rightarrow> True)"

lemma wlp_send_request_ok:
  assumes "sendable (arg_options (args s))" "opc = RRQ \<or> opc = WRQ"
  shows "wlp (send_request opc f) Q s =
    Q (Inr ()) (s\<lparr>outbox := outbox s @ [(server s, request_raw s opc f)]\<rparr>)"
  using assms
  by (auto simp: send_request_def ReadWritePacket_ctor_def ReadWritePacket_MakeRaw_def request_raw_def
      sendable_def send_to_server_def split: sum.splits)

lemma wlp_first_response_ok:
  assumes "sigint_at s = None" "inbox s = Datagram a d # rest" "sin_addr a = sin_addr (server s)"
  shows "wlp (first_response chk) Q s = Q (Inr (take (maxPacketSize s) d))
    (s\<lparr>loads := Suc (loads s), inbox := rest, server_address := a\<rparr>)"
proof -
  have "(server s)\<lparr>sin_port := sin_port a\<rparr> = a" using assms(3) by simp
  then show ?thesis
    using assms(1,2) by (simp add: first_response_def UdpClient_Receive_def sigint_set_def)
qed

lemma wlp_first_response_lost:
  assumes "sigint_at s = None" "inbox s = RecvTimeout # rest"
  shows "wlp (first_response chk) Q s = Q (Inl (Raise UdpTimeoutException)) (s\<lparr>loads := Suc (loads s), inbox := rest\<rparr>)"
  using assms by (simp add: first_response_def UdpClient_Receive_def sigint_set_def)

lemma wlp_check_ok:
  "\<not> sigint_set s \<Longrightarrow> wlp Client_CheckForSigintRRQ Q s = Q (Inr ()) (s\<lparr>loads := Suc (loads s)\<rparr>)"
  by (simp add: Client_CheckForSigintRRQ_def)

lemma wlp_check_WRQ_ok:
  "\<not> sigint_set s \<Longrightarrow> wlp Client_CheckForSigintWRQ Q s = Q (Inr ()) (s\<lparr>loads := Suc (loads s)\<rparr>)"
  by (simp add: Client_CheckForSigintWRQ_def)

text \<open>Options that leave the block size as it is.\<close>

definition steady :: "tftp_option list \<Rightarrow> 16 word \<Rightarrow> bool" where
  "steady opts blk \<longleftrightarrow> (\<forall>opt \<in> set opts. valid_option opt
     \<and> (opt_name opt = BLKSIZE \<longrightarrow> stoi (opt_value opt) = Inr (uint blk)))"

lemma wlp_set_blksize_steady:
  "stoi (opt_value opt) = Inr (uint (cl_blksize s)) \<Longrightarrow> wlp (set_blksize opt) Q s = Q (Inr ()) s"
  by (simp add: set_blksize_def sto_exn_def)

lemma wlp_use_blksize_steady:
  assumes "steady (arg_options (args s)) (cl_blksize s)"
  shows "wlp use_blksize Q s = Q (Inr ()) s"
proof -
  have "steady opts (cl_blksize s) \<Longrightarrow>
      wlp (for_each opts (\<lambda>option. if opt_name option = BLKSIZE then set_blksize option else skip)) Q s = Q (Inr ()) s" for opts
    by (induction opts) (auto simp: steady_def wlp_set_blksize_steady)
  with assms show ?thesis by (simp add: use_blksize_def)
qed

lemma wlp_SetupUdpClient_steady:
  assumes "steady (arg_options (args s)) (cl_blksize s)"
  shows "wlp SetupUdpClient (\<lambda>r s'. r = Inr () \<and> (\<exists>t u. s' = s\<lparr>cl_timeout := t, so_rcvtimeo := u\<rparr>)) s"
    (is "wlp _ ?Q s")
  unfolding SetupUdpClient_def wlp_bnd [of "gets _"] wlp_gets sum.case
proof (rule wlp_mono [OF wlp_for_each [where I = "\<lambda>s'. \<exists>t u. s' = s\<lparr>cl_timeout := t, so_rcvtimeo := u\<rparr>"
      and E = "\<lambda>_ _. False"]], goal_cases)
  case 1
  have "s = s\<lparr>cl_timeout := cl_timeout s, so_rcvtimeo := so_rcvtimeo s\<rparr>" by simp
  then show ?case by blast
next
  case (2 opt s1)
  then obtain t u where s1: "s1 = s\<lparr>cl_timeout := t, so_rcvtimeo := u\<rparr>" by blast
  have v: "valid_option opt" "opt_name opt = BLKSIZE \<longrightarrow> stoi (opt_value opt) = Inr (uint (cl_blksize s1))"
    using assms 2 by (simp_all add: steady_def s1)
  show ?case
  proof (cases "opt_name opt")
    case BLKSIZE
    then show ?thesis using v(2) s1 by (simp add: wlp_set_blksize_steady) blast
  next
    case TIMEOUT
    then show ?thesis
      using valid_timeout_value [OF v(1)] by (auto simp: sto_exn_def s1) blast
  qed (use s1 in auto)
next
  case (3 r s')
  then show ?case by (cases r) auto
qed

text \<open>After the answer: nothing has been stored yet, or the first block.\<close>

definition begins :: "path \<Rightarrow> nat \<Rightarrow> bytes \<Rightarrow> net_event list \<Rightarrow> 16 word \<times> bool \<Rightarrow> tftp_client \<Rightarrow> bool" where
  "begins pth m c rest x s \<longleftrightarrow> steady (arg_options (args s)) (cl_blksize s)
     \<and> (x = (0, False) \<and> flowing pth m [] 0 1 (blocks m c) rest s
      \<or> x = (1, length c < m) \<and> flowing pth m (take m c) 0 2 (tl (blocks m c)) rest s \<and> w_open (the_writer s))"

lemma begins_steps [simp]:
  "begins pth m c rest x (s\<lparr>loads := k\<rparr>) = begins pth m c rest x s"
  "begins pth m c rest x (s\<lparr>udp_timeout := t, so_rcvtimeo := u\<rparr>) = begins pth m c rest x s"
  by (simp_all add: begins_def)

lemma blocks_hd: "0 < m \<Longrightarrow> blocks m c = take m c # tl (blocks m c)"
  by (cases "length c < m") (simp_all add: blocks_short blocks_long)

lemma blocks_hd_length [simp]: "0 < m \<Longrightarrow> length (hd (blocks m c)) \<le> m"
  using blocks_hd [of m c] by (metis list.sel(1) length_take min.cobounded2)

lemma download_begins:
  assumes b: "begins pth m c rest x s" and m: "0 < m" "length (blocks m c) < 65536"
  shows "wlp (while_m download_guard download_round x) (\<lambda>r s'. (\<exists>y. r = Inr y)
     \<and> (\<exists>k. flowing pth m c 0 k [] rest s') \<and> w_open (the_writer s')) s"
proof -
  consider "x = (0, False)" "flowing pth m [] 0 1 (blocks m c) rest s"
    | "x = (1, True)" "length c < m" "flowing pth m c 0 2 [] rest s" "w_open (the_writer s)"
    | "x = (1, False)" "\<not> length c < m" "flowing pth m (take m c) 0 2 (blocks m (drop m c)) rest s"
    using b m by (cases "length c < m") (auto simp: begins_def blocks_short blocks_long)
  then show ?thesis
  proof cases
    case 1
    then show ?thesis
      using m by (auto intro!: wlp_mono [OF download_loop_flow [of pth m "[]" 0 c rest s]])
  next
    case 2
    have "\<not> download_guard (1, True)" by (simp add: download_guard_def)
    show ?thesis
      unfolding 2(1) wlp_while_out [where c = download_guard, OF \<open>\<not> download_guard (1, True)\<close>]
      using 2 by auto
  next
    case 3
    then show ?thesis
      using m by (auto simp: blocks_long intro!: wlp_mono [OF download_loop_flow [of pth m "take m c" 1 "drop m c" rest s]])
  qed
qed

lemma rrq_response_data:
  assumes f: "flowing pth m [] 0 1 (blocks m c) rest s" and m: "0 < m"
    and s1: "arrives (server s) (data_due (maxPacketSize s) m 2 (tl (blocks m c))) 0 rest (inbox s1)" "sigint_at s1 = sigint_at s"
      "fsys s1 = fsys s" "the_writer s1 = the_writer s" "maxPacketSize s1 = maxPacketSize s"
      "server s1 = server s" "cl_blksize s1 = cl_blksize s"
  shows "wlp (rrq_response (data_raw 1 (take m c))) (\<lambda>r s'. \<exists>x. r = Inr x \<and> begins pth m c rest x s') s1"
proof -
  let ?s2 = "s1\<lparr>args := (args s1)\<lparr>arg_options := []\<rparr>\<rparr>"
  have f': "flowing pth m [] 0 1 (take m c # tl (blocks m c)) rest s" using f blocks_hd [OF m] by simp
  have bm: "unat (cl_blksize s1) = m" using f s1 by (simp add: flowing_def incoming_def)
  have blk: "0 \<le> uint (cl_blksize s1)" "uint (cl_blksize s1) < 2 ^ 32"
    using uint_block_number [of "cl_blksize s1"] by simp_all
  have nb: "nat (uint (cl_blksize s1)) = m" using bm by (simp only: unat_eq_nat_uint)
  have w: "wlp (write_block (take m c)) (\<lambda>r s'. r = Inr () \<and> begins pth m c rest (1, length c < m) s') ?s2"
  proof (rule wlp_mono [OF flowing_written [OF f']], goal_cases)
    case (8 r s')
    then have eq: "s' = ?s2\<lparr>fsys := fsys s', the_writer := the_writer s'\<rparr>" by (simp add: sink_frame_def)
    have "args s' = (args s1)\<lparr>arg_options := []\<rparr>" by (subst eq) simp
    with 8 show ?case by (simp add: begins_def steady_def)
  qed (simp_all add: s1)
  have set_up: "wlp SetupUdpClient Q ?s2 = Q (Inr ()) ?s2" for Q
    by (simp add: wlp_def no_options_skip(2))
  show ?thesis
    unfolding rrq_response_def
    by (simp add: data_raw_parse [OF blk] nb bm wlp_set_options set_up)
      (rule wlp_mono [OF w], auto simp: bm min_less_iff_disj)
qed

text \<open>The answer \<open>OACK\<close>, with options the client requesting for; \<open>None\<close> is no such answer.\<close>

definition oack_bytes :: "tftp_option list \<Rightarrow> bytes" where
  "oack_bytes opts = (case OackPacket_MakeRaw (OackPacket opts) of Inl _ \<Rightarrow> [] | Inr raw \<Rightarrow> raw)"

definition accepts :: "tftp_client \<Rightarrow> tftp_option list option \<Rightarrow> bool" where
  "accepts s opts = (case opts of None \<Rightarrow> True | Some os \<Rightarrow>
     wf_oack (OackPacket os) \<and> length (oack_bytes os) \<le> maxPacketSize s
     \<and> length os \<le> length (arg_options (args s))
     \<and> ValidateOptionsInOack (arg_options (args s)) os = Inr ()
     \<and> (\<forall>opt \<in> set os. opt_name opt \<noteq> TSIZE
          \<and> (opt_name opt = BLKSIZE \<longrightarrow> stoi (opt_value opt) = Inr (uint (cl_blksize s)))))"

lemma oack_bytes_parse: "wf_oack (OackPacket os) \<Longrightarrow> OackPacket_ctor_raw (oack_bytes os) = Inr (OackPacket os)"
  using oack_codec.roundtrip [of "OackPacket os"] by (auto simp: oack_bytes_def)

lemma rrq_response_oack:
  assumes f: "flowing pth m [] 0 1 (blocks m c) rest s" and a: "accepts s (Some os)"
  shows "wlp (rrq_response (oack_bytes os)) (\<lambda>r s'. \<exists>x. r = Inr x \<and> begins pth m c rest x s') s"
proof -
  let ?s2 = "s\<lparr>args := (args s)\<lparr>arg_options := os\<rparr>\<rparr>"
  have p: "OackPacket_ctor_raw (oack_bytes os) = Inr (OackPacket os)"
    using a oack_bytes_parse by (simp add: accepts_def)
  have st: "steady os (cl_blksize s)"
    using a OackPacket_ctor_raw_wf [OF p]
    by (auto simp: accepts_def steady_def wire_options_def wire_option_def OackPacket_def)
  have ts: "wlp (for_each opts (\<lambda>option. if opt_name option = TSIZE then f option else skip)) Q s1 = Q (Inr ()) s1"
    if "\<forall>opt \<in> set opts. opt_name opt \<noteq> TSIZE" for opts f Q and s1 :: tftp_client
    using that by (induction opts) simp_all
  have no: "\<forall>opt \<in> set os. opt_name opt \<noteq> TSIZE" using a by (simp add: accepts_def)
  have w: "wlp SetupUdpClient (\<lambda>r s'. r = Inr () \<and> begins pth m c rest (0, False) s') ?s2"
  proof (rule wlp_mono [OF wlp_SetupUdpClient_steady], goal_cases)
    case 1
    then show ?case using st by simp
  next
    case (2 r s')
    then obtain t u where "s' = ?s2\<lparr>cl_timeout := t, so_rcvtimeo := u\<rparr>" "r = Inr ()" by blast
    with f st show ?case by (auto simp: begins_def flowing_def incoming_def storing_def room_def writer_holds_def Let_def)
  qed
  show ?thesis
    using a OackPacket_ctor_raw_opcode [OF p]
    unfolding rrq_response_def
    by (simp add: p accept_oack_def accepts_def OackPacket_def wlp_set_options ts [OF no])
      (rule wlp_mono [OF w], auto)
qed

section \<open>The whole download\<close>

definition may_store :: "filesystem \<Rightarrow> path \<Rightarrow> nat \<Rightarrow> bool" where
  "may_store fs p n \<longleftrightarrow> n \<le> avail fs \<and> may_open fs p \<and> nodes fs p \<noteq> Some DirN"

text \<open>
  What the server answers, and what it sends then: the first block is itself an answer, and the
  others follow, or all of them follow the OACK.
\<close>

definition answer :: "tftp_option list option \<Rightarrow> bytes list \<Rightarrow> bytes" where
  "answer opts bs = (case opts of None \<Rightarrow> data_raw 1 (hd bs) | Some os \<Rightarrow> oack_bytes os)"

definition then_due :: "nat \<Rightarrow> nat \<Rightarrow> tftp_option list option \<Rightarrow> bytes list \<Rightarrow> due list" where
  "then_due lim m opts bs =
     (case opts of None \<Rightarrow> data_due lim m 2 (tl bs) | Some _ \<Rightarrow> data_due lim m 1 bs)"

text \<open>
  The server answers from the port of \<open>a\<close>, before the client gives up, and sends the content \<open>c\<close> in
  blocks of the client's size.
\<close>

definition serves :: "sockaddr \<Rightarrow> tftp_option list option \<Rightarrow> bytes \<Rightarrow> net_event list \<Rightarrow> tftp_client \<Rightarrow> bool" where
  "serves a opts c rest s \<longleftrightarrow> sigint_at s = None \<and> size_ok s \<and> 65468 \<le> maxPacketSize s
     \<and> sin_addr a = sin_addr (server s) \<and> accepts s opts \<and> sendable (arg_options (args s))
     \<and> length (blocks (unat (cl_blksize s)) c) < 65536
     \<and> (let bs = blocks (unat (cl_blksize s)) c in answered_then a (answer opts bs)
          (then_due (maxPacketSize s) (unat (cl_blksize s)) opts bs) 0 rest (inbox s))"

definition file_complete :: "path \<Rightarrow> nat \<Rightarrow> bytes \<Rightarrow> tftp_client \<Rightarrow> bool" where
  "file_complete pth m c s \<longleftrightarrow> nodes (fsys s) pth = Some (FileN c) \<and> w_tbw_later_buffer (the_writer s) = []
     \<and> unat (cl_blksize s) = m"

lemma flowing_complete:
  "flowing pth m c 0 k [] rest s \<Longrightarrow> w_open (the_writer s) \<Longrightarrow> \<not> sigint_set s \<and> file_complete pth m c s"
  by (auto simp: flowing_def incoming_def storing_def writer_holds_def file_complete_def sigint_set_def Let_def)

lemma begins_no_sigint: "begins pth m c rest x s \<Longrightarrow> \<not> sigint_set s"
  by (auto simp: begins_def flowing_def incoming_def sigint_set_def)

lemma after_answer:
  assumes b: "begins pth m c rest x s" and m: "0 < m" "length (blocks m c) < 65536"
  shows "wlp (seq Client_CheckForSigintRRQ
        (seq TimeoutReset
        (seq use_blksize
        (seq Client_CheckForSigintRRQ
        (bnd (while_m download_guard download_round x)
          (\<lambda>(block_number', _).
         seq Client_CheckForSigintRRQ
             (send_to_server (AckPacket_MakeRaw (AckPacket block_number')))))))))
     (\<lambda>r s'. r = Inr () \<and> file_complete pth m c s') s"
proof -
  let ?s1 = "s\<lparr>loads := Suc (loads s), udp_timeout := default_timeout, so_rcvtimeo := default_timeout\<rparr>"
  let ?s2 = "s\<lparr>udp_timeout := default_timeout, so_rcvtimeo := default_timeout, loads := Suc (Suc (loads s))\<rparr>"
  have b1: "begins pth m c rest x ?s1" "begins pth m c rest x ?s2" using b by (simp_all add: begins_def)
  then have st: "steady (arg_options (args ?s1)) (cl_blksize ?s1)" by (simp add: begins_def)
  have loop: "wlp (while_m download_guard download_round x) (\<lambda>r s'. case r of
      Inl e \<Rightarrow> False
    | Inr y \<Rightarrow> wlp (case y of (block_number', _) \<Rightarrow> seq Client_CheckForSigintRRQ
             (send_to_server (AckPacket_MakeRaw (AckPacket block_number'))))
        (\<lambda>r s'. r = Inr () \<and> file_complete pth m c s') s') ?s2"
  proof (rule wlp_mono [OF download_begins [OF b1(2) m]], goal_cases)
    case (1 r s')
    then have "\<not> sigint_set s'" "file_complete pth m c s'" "\<exists>y. r = Inr y" using flowing_complete by blast+
    then show ?case
      by (auto simp: wlp_check_ok send_to_server_def file_complete_def)
  qed
  show ?thesis
    using wlp_check_ok [OF begins_no_sigint [OF b]] wlp_check_ok [OF begins_no_sigint [OF b1(1)]]
      wlp_use_blksize_steady [OF st]
    by simp (rule wlp_mono [OF loop], auto split: sum.splits)
qed

lemma bnd_assoc: "bnd (bnd m f) g = bnd m (\<lambda>x. bnd (f x) g)"
  by (rule ext) (simp add: bnd_def split: option.splits sum.splits)

text \<open>The state while the request is repeated: \<open>k\<close> receives have timed out.\<close>

definition requesting :: "sockaddr \<Rightarrow> tftp_option list option \<Rightarrow> path \<Rightarrow> nat \<Rightarrow> bytes \<Rightarrow> nat \<Rightarrow> net_event list \<Rightarrow> tftp_client \<Rightarrow> bool" where
  "requesting a opts pth m c k rest s \<longleftrightarrow> sigint_at s = None \<and> 4 + m \<le> maxPacketSize s \<and> 0 < m
     \<and> unat (cl_blksize s) = m \<and> sin_addr a = sin_addr (server s) \<and> accepts s opts
     \<and> sendable (arg_options (args s)) \<and> k < MAX_RETRIES
     \<and> answered_then a (answer opts (blocks m c)) (then_due (maxPacketSize s) m opts (blocks m c)) k rest (inbox s)
     \<and> canonical_of (fsys s) (w_filepath (the_writer s)) = pth
     \<and> w_mode (the_writer s) = DF_OCTET \<and> storing s [] (blocks m c)"

lemma accepts_steps [simp]:
  "accepts (s\<lparr>loads := l\<rparr>) opts = accepts s opts"
  "accepts (s\<lparr>inbox := i\<rparr>) opts = accepts s opts"
  "accepts (s\<lparr>outbox := out\<rparr>) opts = accepts s opts"
  "accepts (s\<lparr>server_address := a\<rparr>) opts = accepts s opts"
  "accepts (s\<lparr>udp_timeout := t, so_rcvtimeo := u\<rparr>) opts = accepts s opts"
  by (simp_all add: accepts_def split: option.split)

lemma requesting_steps [simp]:
  "requesting a opts pth m c k rest (s\<lparr>loads := l\<rparr>) = requesting a opts pth m c k rest s"
  "requesting a opts pth m c k rest (s\<lparr>outbox := out\<rparr>) = requesting a opts pth m c k rest s"
  "requesting a opts pth m c k rest (s\<lparr>udp_timeout := t, so_rcvtimeo := u\<rparr>) = requesting a opts pth m c k rest s"
  by (simp_all add: requesting_def)

lemma requesting_no_sigint: "requesting a opts pth m c k rest s \<Longrightarrow> \<not> sigint_set s"
  by (simp add: requesting_def sigint_set_def)

lemma storing_moved [simp]:
  "storing (s\<lparr>inbox := i\<rparr>) c bs = storing s c bs"
  "storing (u\<lparr>server_address := a\<rparr>) c bs = storing u c bs"
  by (rule storing_same; simp)+

text \<open>The answer is taken.\<close>

lemma rrq_response_answer:
  assumes k: "requesting a opts pth m c k rest s"
    and d: "d = answer opts (blocks m c)"
    and evs: "arrives a (then_due (maxPacketSize s) m opts (blocks m c)) 0 rest evs"
  shows "wlp (rrq_response d) (\<lambda>r s'. \<exists>x. r = Inr x \<and> begins pth m c rest x s')
      (s\<lparr>loads := l, inbox := evs, server_address := a\<rparr>)"
    (is "wlp _ _ ?s1")
proof -
  have sv: "sigint_at s = None" "4 + m \<le> maxPacketSize s" "0 < m" "unat (cl_blksize s) = m" "accepts s opts"
    "canonical_of (fsys s) (w_filepath (the_writer s)) = pth" "w_mode (the_writer s) = DF_OCTET"
    "storing s [] (blocks m c)"
    using k by (simp_all add: requesting_def)
  show ?thesis
  proof (cases opts)
    case None
    let ?all = "map (Datagram a) (data_raws 1 (blocks m c)) @ rest"
    have "flowing pth m [] 0 1 (blocks m c) rest (?s1\<lparr>inbox := ?all\<rparr>)"
      using sv by (simp add: flowing_def incoming_def data_due_all MAX_RETRIES_def)
    note data = rrq_response_data [OF this sv(3), of ?s1]
    have "d = data_raw 1 (take m c)"
      using blocks_hd [OF sv(3), of c] by (simp add: d None answer_def) (metis list.sel(1))
    then show ?thesis using data evs None by (simp add: then_due_def)
  next
    case (Some os)
    have "flowing pth m [] 0 1 (blocks m c) rest ?s1"
      using sv evs Some by (simp add: flowing_def incoming_def then_due_def MAX_RETRIES_def)
    from rrq_response_oack [OF this] show ?thesis
      using sv(5) Some by (simp add: d answer_def)
  qed
qed

lemma rrq_round_requesting:
  assumes k: "requesting a opts pth m c k rest s" and q: "q \<le> k"
  shows "wlp (rrq_round (q, None)) (\<lambda>r s'. (\<exists>x. r = Inr (q, Some x) \<and> begins pth m c rest x s')
     \<or> (\<exists>p j. r = Inr (p, None) \<and> p \<le> j \<and> requesting a opts pth m c j rest s')) s"
proof -
  have sv: "sigint_at s = None" "4 + m \<le> maxPacketSize s" "sin_addr a = sin_addr (server s)" "accepts s opts"
    "sendable (arg_options (args s))" "0 < m"
    using k by (simp_all add: requesting_def)
  let ?d = "answer opts (blocks m c)" and ?ds = "then_due (maxPacketSize s) m opts (blocks m c)"
  have "answered_then a ?d ?ds k rest (inbox s)" using k by (simp add: requesting_def)
  then consider (answer) evs where "inbox s = Datagram a ?d # evs" "arrives a ?ds 0 rest evs"
    | (lost) evs where "inbox s = RecvTimeout # evs" "Suc k < MAX_RETRIES" "answered_then a ?d ?ds (Suc k) rest evs"
    by (cases "inbox s") auto
  then show ?thesis
  proof cases
    case answer
    let ?s1 = "s\<lparr>outbox := outbox s @ [(server s, request_raw s RRQ (arg_filepath (args s)))]\<rparr>"
    have t: "take (maxPacketSize s) ?d = ?d"
      using sv(2,4) blocks_hd_length [OF sv(6), of c]
      by (cases opts) (simp_all add: answer_def accepts_def)
    have k1: "requesting a opts pth m c k rest ?s1" using k by simp
    note go = rrq_response_answer [OF k1 refl, of evs]
    show ?thesis
      unfolding rrq_round_def prod.case wlp_bnd [of "try_catch _ _"] wlp_try_catch
      using answer sv t
      by (simp add: wlp_send_request_ok wlp_first_response_ok) (rule wlp_mono [OF go], auto)
  next
    case lost
    let ?s1 = "s\<lparr>outbox := outbox s @ [(server s, request_raw s RRQ (arg_filepath (args s)))], inbox := evs\<rparr>"
    have "requesting a opts pth m c (Suc k) rest ?s1" using k lost by (simp add: requesting_def)
    then show ?thesis
      unfolding rrq_round_def prod.case wlp_bnd [of "try_catch _ _"] wlp_try_catch
      using lost sv q
      by (auto simp: wlp_send_request_ok wlp_first_response_lost Client_CheckForSigintRRQ_def sigint_set_def
          intro!: exI [of _ "Suc k"])
  qed
qed

lemma rrq_loop_completes:
  assumes "requesting a opts pth m c 0 rest s"
  shows "wlp (while_m rrq_guard rrq_round (0, None)) (\<lambda>r s'. \<exists>q x. q < MAX_RETRIES \<and> r = Inr (q, Some x)
     \<and> begins pth m c rest x s') s"
proof -
  define I where "I = (\<lambda>(q, ans) s'. q < MAX_RETRIES \<and> (case ans of
      None \<Rightarrow> \<exists>k. q \<le> k \<and> requesting a opts pth m c k rest s' | Some x \<Rightarrow> begins pth m c rest x s'))"
  have few: "q \<le> k \<Longrightarrow> requesting a opts pth m c k rest s' \<Longrightarrow> q < MAX_RETRIES" for k q s' by (simp add: requesting_def)
  show ?thesis
  proof (rule wlp_while [where I = I], goal_cases)
    case 1
    show ?case using assms by (auto simp: I_def MAX_RETRIES_def)
  next
    case (2 x s')
    then obtain q k where x: "x = (q, None)" "q \<le> k" "requesting a opts pth m c k rest s'" "q < MAX_RETRIES"
      by (cases x) (auto simp: I_def rrq_guard_def)
    show ?case
      unfolding x(1) by (rule wlp_mono [OF rrq_round_requesting [OF x(3,2)]])
        (use x(4) in \<open>elim disjE exE conjE; auto simp: I_def intro: few\<close>)
  next
    case (3 x s')
    then show ?case by (cases x) (auto simp: I_def rrq_guard_def split: option.splits)
  qed
qed

lemma serves_requesting:
  assumes "serves a opts c rest s" "writer_holds s []" "room s (length c)" "w_mode (the_writer s) = DF_OCTET"
    and "pth = canonical_of (fsys s) (w_filepath (the_writer s))" "m = unat (cl_blksize s)"
  shows "requesting a opts pth m c 0 rest s"
proof -
  have "0 < m" "4 + m \<le> maxPacketSize s"
    using assms(1) unfolding serves_def size_ok_def assms(6) uint_nat by linarith+
  with assms show ?thesis by (simp add: requesting_def serves_def storing_def Let_def MAX_RETRIES_def)
qed

lemma read_body_completes:
  assumes sv: "serves a opts c rest s" and w: "writer_holds s []" "room s (length c)" "w_mode (the_writer s) = DF_OCTET"
    and pth: "pth = canonical_of (fsys s) (w_filepath (the_writer s))"
  shows "wlp read_body (\<lambda>r s'. r = Inr () \<and> file_complete pth (unat (cl_blksize s)) c s') s"
proof -
  define m where "m = unat (cl_blksize s)"
  have sz: "size_ok s" "length (blocks m c) < 65536" using sv by (simp_all add: serves_def m_def)
  then have m: "0 < m" unfolding size_ok_def m_def uint_nat by linarith
  have ns: "\<not> sigint_set s" using sv by (simp add: serves_def sigint_set_def)
  let ?s1 = "s\<lparr>loads := Suc (loads s)\<rparr>"
  have "requesting a opts pth m c 0 rest ?s1" using serves_requesting [OF sv w pth m_def] by simp
  note loop = rrq_loop_completes [OF this]
  show ?thesis
    unfolding read_body_def wlp_seq [of Client_CheckForSigintRRQ] wlp_check_ok [OF ns] sum.case wlp_bnd [of "while_m rrq_guard _ _"]
  proof (rule wlp_mono [OF loop], goal_cases)
    case (1 r s')
    then obtain q x where x: "q < MAX_RETRIES" "r = Inr (q, Some x)" "begins pth m c rest x s'" by blast
    show ?case
      using after_answer [OF x(3) m sz(2)] x(1) by (cases x) (simp add: x(2) m_def)
  qed
qed

lemma Client_Read_completes:
  assumes sv: "serves a opts c rest s" and mode: "arg_file_mode (args s) = OCTET"
    and may: "may_store (fsys s) (download_path s) (length c)"
  shows "\<exists>s'. Client_Read s = Some (Inr (), s') \<and> nodes (fsys s') (download_path s) = Some (FileN c)
    \<and> cl_blksize s' = cl_blksize s"
    (is "\<exists>s'. _ \<and> ?P s'")
proof -
  let ?s1 = "s\<lparr>the_writer := \<lparr>w_filepath = arg_dest_filepath (args s), w_mode = DF_OCTET, w_open = False,
    w_fail = False, w_tbw_later_buffer = []\<rparr>\<rparr>"
  have sv1: "serves a opts c rest ?s1"
    using sv by (simp add: serves_def accepts_def size_ok_def split: option.splits)
  have w: "writer_holds ?s1 []" "room ?s1 (length c)" "w_mode (the_writer ?s1) = DF_OCTET"
    "download_path s = canonical_of (fsys ?s1) (w_filepath (the_writer ?s1))"
    using may by (simp_all add: writer_holds_def room_def may_store_def download_path_def)
  have "wlp (scoped read_body Writer_dtor) (\<lambda>r s'. r = Inr () \<and> ?P s') ?s1"
    unfolding wlp_scoped
  proof (rule wlp_mono [OF read_body_completes [OF sv1 w]], goal_cases)
    case (1 r s')
    then have "cl_blksize s' = cl_blksize s" "r = Inr ()" "nodes (fsys s') (download_path s) = Some (FileN c)"
      "w_tbw_later_buffer (the_writer s') = []"
      by (simp_all add: file_complete_def word_unat_eq_iff)
    then show ?case
      by (auto intro!: wlp_mono [OF wlp_Writer_dtor [where peer = "server s'"]]
          dest!: peer_frame_session same_client_fields)
  qed
  then have "wlp Client_Read (\<lambda>r s'. r = Inr () \<and> ?P s') s"
    by (simp add: Client_Read_def mode data_format_def del: wlp_scoped)
  then show ?thesis
    using returns_Client_Read [of s] by (auto simp: returns_iff dest!: wlpD)
qed

section \<open>Uploads\<close>

text \<open>
  A client whose peer will acknowledge the blocks from number \<open>n\<close> to \<open>z\<close>, \<open>k\<close> disturbances having
  happened since the last acknowledgement.
\<close>

definition awaited :: "nat \<Rightarrow> int \<Rightarrow> int \<Rightarrow> net_event list \<Rightarrow> tftp_client \<Rightarrow> bool" where
  "awaited k n z rest s \<longleftrightarrow> sigint_at s = None \<and> 4 \<le> maxPacketSize s \<and> k < MAX_RETRIES
     \<and> arrives (server s) (map (ack_due (maxPacketSize s)) [n..z]) k rest (inbox s)"

lemma awaited_steps [simp]:
  "awaited k n z rest (s\<lparr>loads := l\<rparr>) = awaited k n z rest s"
  "awaited k n z rest (s\<lparr>outbox := out\<rparr>) = awaited k n z rest s"
  "awaited k n z rest (s\<lparr>std_in := st\<rparr>) = awaited k n z rest s"
  "awaited k n z rest (s\<lparr>udp_timeout := t, so_rcvtimeo := u\<rparr>) = awaited k n z rest s"
  by (simp_all add: awaited_def)

lemma awaited_no_sigint: "awaited k n z rest s \<Longrightarrow> \<not> sigint_set s"
  by (simp add: awaited_def sigint_set_def)

definition same_input :: "tftp_client \<Rightarrow> tftp_client \<Rightarrow> bool" where
  "same_input s s' \<longleftrightarrow> std_in s' = std_in s \<and> server s' = server s \<and> cl_blksize s' = cl_blksize s"

lemma same_input_steps [simp]:
  "same_input s s"
  "same_input s (s'\<lparr>loads := l\<rparr>) = same_input s s'"
  "same_input (s\<lparr>loads := l\<rparr>) s' = same_input s s'"
  "same_input s (s'\<lparr>outbox := out\<rparr>) = same_input s s'"
  "same_input s (s'\<lparr>udp_timeout := t, so_rcvtimeo := u\<rparr>) = same_input s s'"
  by (simp_all add: same_input_def)

lemma awaited_later:
  assumes "awaited k n z rest s" "recv_frame (server s) s s'" "j < MAX_RETRIES"
    and "arrives (server s) (map (ack_due (maxPacketSize s)) [i..z]) j rest (inbox s')"
  shows "awaited j i z rest s'" "same_input s s'"
  using assms recv_frame_fields [OF assms(2)] recv_frame_udp_fields [OF assms(2)] client_recv_fields [OF assms(2)]
  by (simp_all add: awaited_def same_input_def)

lemma client_ack_round_flow:
  assumes a: "awaited k n z rest s" and n: "n \<le> z" and q: "q \<le> k"
  shows "wlp (client_ack_round (False, q, word_of_int n)) (\<lambda>r s'. same_input s s'
     \<and> (r = Inr (True, q, word_of_int n + 1) \<and> awaited 0 (n + 1) z rest s'
      \<or> (\<exists>p j. r = Inr (False, p, word_of_int n) \<and> p \<le> j \<and> awaited j n z rest s'))) s"
proof -
  let ?s1 = "s\<lparr>loads := Suc (loads s)\<rparr>"
  let ?P = "\<lambda>r s'. same_input s s'
     \<and> (r = Inr (True, q, word_of_int n + 1) \<and> awaited 0 (n + 1) z rest s'
      \<or> (\<exists>p j. r = Inr (False, p, word_of_int n) \<and> p \<le> j \<and> awaited j n z rest s'))"
  have a1: "awaited k n z rest ?s1" using a by simp
  have m: "4 \<le> maxPacketSize ?s1" using a by (simp add: awaited_def)
  have due: "arrives (server ?s1) (ack_due (maxPacketSize ?s1) n # map (ack_due (maxPacketSize ?s1)) [n + 1..z]) k rest (inbox ?s1)"
    "sigint_at ?s1 = None" "fitting ?s1 (ack_due (maxPacketSize ?s1) n)" "k < MAX_RETRIES"
    using a n fitting_ack [OF m] by (simp_all add: awaited_def upto_rec1)
  have eq: "ack_due l n # map (ack_due l) [n + 1..z] = map (ack_due l) [n..z]" for l
    using n by (simp add: upto_rec1)
  show ?thesis
    unfolding client_ack_round_def prod.case wlp_seq [of Client_CheckForSigintWRQ] wlp_check_WRQ_ok [OF awaited_no_sigint [OF a]]
      sum.case wlp_bnd [of "try_catch _ _"]
  proof (rule wlp_mono [where Q = ?P], rule wlp_wait_server, rule wlp_wait_due [OF due], goal_cases)
    case (1 s')
    have "awaited 0 (n + 1) z rest s'" "same_input s s'"
      using awaited_later [OF a1 1(1) _ 1(2)] by (simp_all add: MAX_RETRIES_def)
    then show ?case by (simp add: ack_due_def AckPacket_def)
  next
    case (2 j x s')
    have l: "awaited j n z rest s'" "same_input s s'"
      using awaited_later [OF a1 2(1) _ 2(2)[unfolded eq]] 2(4) by simp_all
    from 2(5) have "stale_ack (maxPacketSize s) n x" by (simp add: ack_due_def)
    then show ?case
    proof (cases rule: stale_ackE)
      case (old p)
      then show ?thesis using l 2(3) q by (auto intro!: exI [of _ j])
    next
      case (other opc)
      then show ?thesis using l 2(3) q by (auto intro!: exI [of _ j])
    qed
  next
    case (3 j s')
    have l: "awaited j n z rest s'" "same_input s s'"
      using awaited_later [OF a1 3(1) _ 3(2)[unfolded eq]] 3(4) by simp_all
    with 3(3) q show ?case by (auto intro!: exI [of _ j])
  next
    case (4 r s')
    then show ?case
      by (elim disjE exE conjE) (auto simp: wlp_check_WRQ_ok dest: awaited_no_sigint)
  qed
qed

lemma client_ack_flow:
  assumes a: "awaited 0 n z rest s" "n \<le> z"
  shows "wlp (while_m client_ack_guard client_ack_round (False, 0, word_of_int n)) (\<lambda>r s'.
    \<exists>q. q < MAX_RETRIES \<and> r = Inr (True, q, word_of_int n + 1) \<and> awaited 0 (n + 1) z rest s' \<and> same_input s s') s"
proof -
  define I where "I = (\<lambda>(got, q, bn :: 16 word) s'. same_input s s' \<and> q < MAX_RETRIES
     \<and> (if got then bn = word_of_int n + 1 \<and> awaited 0 (n + 1) z rest s'
        else bn = word_of_int n \<and> (\<exists>k. q \<le> k \<and> awaited k n z rest s')))"
  have few: "q \<le> k \<Longrightarrow> awaited k n z rest s' \<Longrightarrow> q < MAX_RETRIES" for k q n s' by (simp add: awaited_def)
  show ?thesis
  proof (rule wlp_while [where I = I], goal_cases)
    case 1
    show ?case using a(1) by (auto simp: I_def MAX_RETRIES_def)
  next
    case (2 x s')
    then obtain q k where x: "x = (False, q, word_of_int n)" "q \<le> k" "awaited k n z rest s'" "same_input s s'" "q < MAX_RETRIES"
      by (cases x) (auto simp: I_def client_ack_guard_def)
    show ?case
      unfolding x(1) by (rule wlp_mono [OF client_ack_round_flow [OF x(3) a(2) x(2)]])
        (use x(4,5) in \<open>elim disjE exE conjE; auto simp: I_def same_input_def intro: few\<close>)
  next
    case (3 x s')
    then show ?case by (cases x) (auto simp: I_def client_ack_guard_def split: if_splits)
  qed
qed

text \<open>One block; \<open>h'\<close> and \<open>st\<close> are the handler and the standard input after it has been read.\<close>

lemma upload_round_flow:
  assumes a: "awaited 0 n z rest s" "n \<le> z"
    and rd: "\<And>Q. wlp (read_block (unat (cl_blksize s)) h) Q (s\<lparr>loads := Suc (loads s)\<rparr>)
      = Q (Inr (d, h')) (s\<lparr>loads := Suc (loads s), std_in := st\<rparr>)"
  shows "wlp (upload_round (word_of_int n, False, h)) (\<lambda>r s'. r = Inr (word_of_int n + 1, length d < unat (cl_blksize s), h')
     \<and> awaited 0 (n + 1) z rest s' \<and> std_in s' = st \<and> server s' = server s \<and> cl_blksize s' = cl_blksize s) s"
proof -
  let ?s1 = "s\<lparr>loads := Suc (loads s), std_in := st, outbox := outbox s @ [(server s, data_raw n d)]\<rparr>"
  have "awaited 0 n z rest ?s1" using a(1) by simp
  note loop = client_ack_flow [OF this a(2)]
  show ?thesis
    unfolding upload_round_def
    using awaited_no_sigint [OF a(1)]
    by (cases "length d < unat (cl_blksize s)")
      (simp_all add: rd Let_def,
        (rule wlp_mono [OF loop], auto simp: same_input_def dest: awaited_no_sigint)+)
qed

text \<open>All the blocks of the standard input that are left; the numbers wrap around.\<close>

lemma std_same: "std_in s' = std_in s \<Longrightarrow> std_left h s' = std_left h s \<and> std_good h s' = std_good h s"
  by (simp add: std_left_def std_good_def)

lemma upload_loop_flow:
  assumes "awaited 0 n z rest s" "std_good h s" "m = unat (cl_blksize s)" "0 < m"
    and "z = n + int (length (blocks m (std_left h s))) - 1"
  shows "wlp (while_m upload_guard upload_round (word_of_int n, False, h))
    (\<lambda>r s'. (\<exists>x. r = Inr x) \<and> cl_blksize s' = cl_blksize s \<and> inbox s' = rest \<and> server s' = server s) s"
  using assms
proof (induction "length (std_left h s)" arbitrary: h s n rule: less_induct)
  case less
  let ?c = "std_left h s"
  have g: "upload_guard (word_of_int n, False, h)" by (simp add: upload_guard_def)
  have nk: "n \<le> z" using less.prems(5) by (cases "blocks m ?c") auto
  let ?s1 = "s\<lparr>loads := Suc (loads s)\<rparr>"
  have c1: "std_good h ?s1" "std_left h ?s1 = ?c" using less.prems(2) by (simp_all add: std_good_def std_left_def)
  obtain h' st where rd: "read_block m h ?s1 = Some (Inr (take m ?c, h'), ?s1\<lparr>std_in := st\<rparr>)"
      "std_left h' (?s1\<lparr>std_in := st\<rparr>) = drop m ?c"
      "m \<le> length ?c \<longrightarrow> std_good h' (?s1\<lparr>std_in := st\<rparr>)"
    using read_block_good [OF c1(1) less.prems(4)] unfolding c1(2) by blast
  have "wlp (read_block (unat (cl_blksize s)) h) Q ?s1 = Q (Inr (take m ?c, h')) (?s1\<lparr>std_in := st\<rparr>)" for Q
    using rd(1) less.prems(3) by (simp add: wlp_def)
  note round = upload_round_flow [OF less.prems(1) nk this]
  have short: "(length (take m ?c) < unat (cl_blksize s)) = (length ?c < m)" using less.prems(3) by auto
  show ?case
  proof (cases "length ?c < m")
    case True
    have out: "\<not> upload_guard (bn, True, h')" for bn by (simp add: upload_guard_def)
    have "n = z" using less.prems(5) True by (simp add: blocks_short)
    then show ?thesis
      unfolding wlp_while_go [where c = upload_guard, OF g]
      by (rule_tac wlp_mono [OF round]) (use True short in \<open>auto simp: wlp_while_out [where c = upload_guard, OF out] awaited_def\<close>)
  next
    case False
    have rest: "wlp (while_m upload_guard upload_round (word_of_int (n + 1), False, h')) (\<lambda>r s'. (\<exists>x. r = Inr x)
        \<and> cl_blksize s' = cl_blksize s \<and> inbox s' = rest \<and> server s' = server s) s2"
      if s2: "awaited 0 (n + 1) z rest s2" "std_in s2 = st" "server s2 = server s" "cl_blksize s2 = cl_blksize s" for s2
    proof -
      have l: "std_left h' s2 = drop m ?c" "std_good h' s2"
        using rd(2,3) False s2(2) std_same [of s2 "?s1\<lparr>std_in := st\<rparr>" h'] by simp_all
      have "wlp (while_m upload_guard upload_round (word_of_int (n + 1), False, h')) (\<lambda>r s'. (\<exists>x. r = Inr x)
        \<and> cl_blksize s' = cl_blksize s2 \<and> inbox s' = rest \<and> server s' = server s2) s2"
        by (rule less.hyps [OF _ s2(1) l(2)])
          (use False less.prems s2 l(1) in \<open>simp_all add: blocks_long\<close>)
      then show ?thesis using s2 by simp
    qed
    show ?thesis
      unfolding wlp_while_go [where c = upload_guard, OF g]
      by (rule wlp_mono [OF round]) (use False short rest in \<open>auto simp: add.commute\<close>)
  qed
qed

section \<open>The whole upload\<close>

text \<open>
  The server answers the request from the port of \<open>a\<close> at once, and the acknowledgements of all the
  blocks arrive.
\<close>

definition wrq_answer :: "tftp_option list option \<Rightarrow> bytes" where
  "wrq_answer opts = (case opts of None \<Rightarrow> ack_raw 0 | Some os \<Rightarrow> oack_bytes os)"

definition acknowledges :: "sockaddr \<Rightarrow> tftp_option list option \<Rightarrow> net_event list \<Rightarrow> tftp_client \<Rightarrow> bool" where
  "acknowledges a opts rest s \<longleftrightarrow> sigint_at s = None \<and> size_ok s \<and> 4 \<le> maxPacketSize s
     \<and> sin_addr a = sin_addr (server s) \<and> accepts s opts \<and> sendable (arg_options (args s))
     \<and> inbox s \<noteq> [] \<and> hd (inbox s) = Datagram a (wrq_answer opts)
     \<and> arrives a (map (ack_due (maxPacketSize s))
           [1..int (length (blocks (unat (cl_blksize s)) (st_rest (std_in s))))]) 0 rest (tl (inbox s))"

text \<open>What is left after the answer to the request.\<close>

definition sending :: "tftp_client \<Rightarrow> sockaddr \<Rightarrow> net_event list \<Rightarrow> tftp_client \<Rightarrow> bool" where
  "sending s a evs s' \<longleftrightarrow> inbox s' = evs \<and> server s' = a \<and> sigint_at s' = None \<and> std_in s' = std_in s
     \<and> uninit s' = uninit s \<and> maxPacketSize s' = maxPacketSize s \<and> cl_blksize s' = cl_blksize s
     \<and> arg_file_mode (args s') = arg_file_mode (args s)
     \<and> steady (arg_options (args s')) (cl_blksize s)"

lemma sending_no_sigint: "sending s a evs s' \<Longrightarrow> \<not> sigint_set s'"
  by (simp add: sending_def sigint_set_def)

lemma sending_loads [simp]: "sending s a evs (s'\<lparr>loads := k\<rparr>) = sending s a evs s'"
  by (simp add: sending_def)

lemma wlp_Setup_sending:
  assumes "sending s a evs s1"
  shows "wlp SetupUdpClient (\<lambda>r s'. r = Inr () \<and> sending s a evs s') s1"
proof (rule wlp_mono [OF wlp_SetupUdpClient_steady], goal_cases)
  case 1
  show ?case using assms by (simp add: sending_def)
next
  case (2 r s')
  then show ?case using assms by (auto simp: sending_def)
qed

lemma wrq_response_ok:
  assumes s: "sigint_at s = None" "sin_addr a = sin_addr (server s)" "4 \<le> maxPacketSize s" "accepts s opts"
    and i: "inbox s = Datagram a (wrq_answer opts) # evs"
  shows "wlp wrq_response (\<lambda>r s'. r = Inr () \<and> sending s a evs s') s"
proof -
  let ?s1 = "s\<lparr>loads := Suc (loads s)\<rparr>"
  let ?opts = "case opts of None \<Rightarrow> [] | Some os \<Rightarrow> os"
  let ?s2 = "s\<lparr>loads := Suc (Suc (loads s)), inbox := evs, server_address := a, args := (args s)\<lparr>arg_options := ?opts\<rparr>\<rparr>"
  have ns: "\<not> sigint_set s" using s(1) by (simp add: sigint_set_def)
  have st: "steady ?opts (cl_blksize s)"
  proof (cases opts)
    case (Some os)
    then have "OackPacket_ctor_raw (oack_bytes os) = Inr (OackPacket os)"
      using s(4) oack_bytes_parse by (simp add: accepts_def)
    from OackPacket_ctor_raw_wf [OF this] s(4) Some show ?thesis
      by (auto simp: accepts_def steady_def wire_options_def wire_option_def OackPacket_def)
  qed (simp add: steady_def)
  have "sending s a evs ?s2" using st s(1) by (simp add: sending_def)
  note set_up = wlp_Setup_sending [OF this]
  have fin: "wlp (seq SetupUdpClient Client_CheckForSigintWRQ) (\<lambda>r s'. r = Inr () \<and> sending s a evs s') ?s2"
    unfolding wlp_seq by (rule wlp_mono [OF set_up]) (auto dest: sending_no_sigint)
  let ?rest = "seq SetupUdpClient Client_CheckForSigintWRQ"
  show ?thesis
  proof (cases opts)
    case None
    have ack: "take (maxPacketSize s) (ack_raw 0) = ack_raw 0" using s(3) by simp
    have "inbox ?s1 = Datagram a (ack_raw 0) # evs" using i None by (simp add: wrq_answer_def)
    from wlp_first_response_ok [OF _ this] show ?thesis
      using s ns ack fin [unfolded wlp_seq] None unfolding wrq_response_def
      by (simp add: AckPacket_def wlp_set_options)
  next
    case (Some os)
    have p: "OackPacket_ctor_raw (oack_bytes os) = Inr (OackPacket os)"
      using s(4) oack_bytes_parse Some by (simp add: accepts_def)
    have t: "take (maxPacketSize s) (oack_bytes os) = oack_bytes os" using s(4) Some by (simp add: accepts_def)
    have "inbox ?s1 = Datagram a (oack_bytes os) # evs" using i Some by (simp add: wrq_answer_def)
    from wlp_first_response_ok [OF _ this] show ?thesis
      using s ns fin [unfolded wlp_seq] Some OackPacket_ctor_raw_opcode [OF p] unfolding wrq_response_def
      by (simp add: p t accept_oack_def accepts_def OackPacket_def wlp_set_options)
  qed
qed

lemma wlp_wrq_loop_eq:
  "wlp (while_m wrq_guard wrq_round (0, False)) Q s = wlp (bnd wrq_response (\<lambda>_. ret (0, True))) Q s"
  by (simp only: wlp_def wrq_loop_eq)

lemma wlp_SendWrq_ok:
  assumes k: "acknowledges a opts rest s"
  shows "wlp SendWrq (\<lambda>r s'. r = Inr () \<and> sending s a (tl (inbox s)) s') s"
    (is "wlp _ (\<lambda>r s'. r = Inr () \<and> sending s a ?evs s') s")
proof -
  let ?s1 = "s\<lparr>loads := Suc (loads s)\<rparr>"
  let ?s2 = "?s1\<lparr>outbox := outbox s @ [(server s, request_raw s WRQ (arg_dest_filepath (args s)))]\<rparr>"
  have s: "sigint_at s = None" "sin_addr a = sin_addr (server s)" "4 \<le> maxPacketSize s" "accepts s opts"
      "sendable (arg_options (args s))" "\<not> sigint_set s"
      "inbox s = Datagram a (wrq_answer opts) # ?evs"
    using k by (simp_all add: acknowledges_def sigint_set_def) (metis list.collapse)
  have "accepts ?s2 opts" using s(4) by simp
  from wrq_response_ok [of ?s2, OF _ _ _ this] s
  have wr: "wlp wrq_response (\<lambda>r s'. r = Inr () \<and> sending s a ?evs s') ?s2"
    by (simp add: sending_def)
  have req: "wlp (send_request WRQ (arg_dest_filepath (args s))) Q ?s1 = Q (Inr ()) ?s2" for Q
    using wlp_send_request_ok [of ?s1 WRQ] s(5) by (simp add: request_raw_def)
  have "wlp wrq_response (\<lambda>r s'. case r of
      Inl e \<Rightarrow> P e s' | Inr _ \<Rightarrow> sending s a ?evs s') ?s2" for P
    by (rule wlp_mono [OF wr]) auto
  then show ?thesis
    unfolding SendWrq_def using s(6)
    by (simp add: req wlp_wrq_loop_eq) (rule wlp_mono [OF wr], auto)
qed

lemma Client_Write_completes:
  assumes k: "acknowledges a opts rest s" and std: "good_stream (std_in s)" "arg_file_mode (args s) = OCTET"
  shows "\<exists>s'. Client_Write s = Some (Inr (), s') \<and> cl_blksize s' = cl_blksize s \<and> inbox s' = rest \<and> server s' = a"
    (is "\<exists>s'. _ \<and> ?P s'")
proof -
  let ?m = "unat (cl_blksize s)"
  have "size_ok s" using k by (simp add: acknowledges_def)
  then have m: "0 < ?m" by (rule size_ok_pos)
  have data: "wlp SendData (\<lambda>r s'. r = Inr () \<and> ?P s') s1"
    if s1: "sending s a (tl (inbox s)) s1" for s1
  proof -
    let ?s2 = "s1\<lparr>loads := Suc (loads s1)\<rparr>" and ?h = "StdHandler_ctor DF_OCTET (uninit s1)"
    have f: "arg_file_mode (args s1) = OCTET" "cl_blksize s1 = cl_blksize s" "server s1 = a"
      "steady (arg_options (args ?s2)) (cl_blksize ?s2)"
      using s1 std(2) unfolding sending_def by simp_all
    have lft: "std_left ?h ?s2 = st_rest (std_in s)" "std_good ?h ?s2"
      using s1 std(1) stdin_octet [where s = ?s2] by (simp_all add: sending_def)
    have a: "awaited 0 1 (int (length (blocks ?m (st_rest (std_in s))))) rest ?s2"
      using s1 k by (simp add: sending_def awaited_def acknowledges_def MAX_RETRIES_def)
    have "wlp (while_m upload_guard upload_round (word_of_int 1, False, ?h))
      (\<lambda>r s'. (\<exists>x. r = Inr x) \<and> cl_blksize s' = cl_blksize ?s2 \<and> inbox s' = rest \<and> server s' = server ?s2) ?s2"
      by (rule upload_loop_flow [OF a lft(2) _ m]) (simp_all add: f lft)
    then show ?thesis
      unfolding SendData_def using sending_no_sigint [OF s1]
      by (simp add: f Let_def wlp_use_blksize_steady [OF f(4)]) (erule wlp_mono, auto simp: f)
  qed
  have "wlp Client_Write (\<lambda>r s'. r = Inr () \<and> ?P s') s"
    unfolding Client_Write_def wlp_seq by (rule wlp_mono [OF wlp_SendWrq_ok [OF k]]) (auto intro: data)
  then show ?thesis
    using returns_Client_Write [of s] by (auto simp: returns_iff dest!: wlpD)
qed

end
