(* ===== verification/ClientProperties.thy ===== *)
theory ClientProperties
  imports Examples Completion
begin

text \<open>
  The properties of a run of the client, with the concrete runs they are applied at.
\<close>

section \<open>Inputs\<close>

definition ex_server :: sockaddr where
  "ex_server = \<lparr>sin_addr = 0x0A000001, sin_port = 69\<rparr>"

definition ex_timeout :: tftp_option where
  "ex_timeout = ex_option ''timeout'' ''255''"

definition ex_args :: tftp_client_args where
  "ex_args = \<lparr>arg_hostname = ''host'', arg_port = 69, arg_filepath = ''hello'',
     arg_dest_filepath = ''/srv/copy'', arg_mode = READ, arg_file_mode = OCTET,
     arg_options = [ex_timeout]\<rparr>"

definition ex_tftp_client :: "net_event list \<Rightarrow> tftp_client" where
  "ex_tftp_client evs = (client_members ((ex_world evs)\<lparr>std_in := stream_of ex_content\<rparr>) ex_args)
     \<lparr>server_address := ex_server\<rparr>"

lemma ex_tftp_simps [simp]:
  "fsys (ex_tftp_client evs) = ex_fs" "inbox (ex_tftp_client evs) = evs"
  "outbox (ex_tftp_client evs) = []" "cl_blksize (ex_tftp_client evs) = 512"
  "server_address (ex_tftp_client evs) = ex_server" "args (ex_tftp_client evs) = ex_args"
  "sigint_at (ex_tftp_client evs) = None" "std_in (ex_tftp_client evs) = stream_of ex_content"
  "maxPacketSize (ex_tftp_client evs) = 65500"
  by (simp_all add: ex_tftp_client_def client_members_def ex_world_def)

lemma ex_timeout_valid: "valid_option ex_timeout"
  by code_simp

lemma ex_client_ok: "client_ok (ex_tftp_client evs)"
  using ex_timeout_valid by (simp add: client_ok_def size_ok_def ex_args_def)

lemma ex_args_simps [simp]: "arg_file_mode ex_args = OCTET" "arg_options ex_args = [ex_timeout]"
  by (simp_all add: ex_args_def)

section \<open>Downloads\<close>

text \<open>
  C3. A download in OCTET mode, under any behaviour of the network (loss, duplication,
  reordering, foreign senders, timeouts, SIGINT): no path but the destination is touched; the
  server is sent at most five times the request, then only ACKs of blocks that have been
  received, never going back, with none but the last block left out, and possibly the ERROR packet of an interruption; the blocks are
  those of DATA packets 1, 2, .. that arrived in this order from the port of the first answer.
  When the download succeeds, the destination holds exactly these blocks, all but the last are
  full, the last is short, and the last packet sent is its ACK.
\<close>

theorem download_in_order:
  assumes "client_ok s" "arg_file_mode (args s) = OCTET"
  shows "wlp Client_Read (download_outcome s) s"
  using Client_Read_octet [OF assms] .

theorem download_in_order_witness:
  "wlp Client_Read (download_outcome (ex_tftp_client [RecvTimeout])) (ex_tftp_client [RecvTimeout])"
  by (rule download_in_order [OF ex_client_ok]) simp

section \<open>Uploads\<close>

text \<open>
  C4. An upload in OCTET mode of a readable standard input, under any behaviour of the network:
  no file is touched, and the server is sent the request and then DATA packets that are the
  first blocks of the input, numbered from 1 modulo 65536, each one once and in order; a block
  is sent only after the ACKs of the ones before were received in this order. When the upload
  succeeds all blocks have been sent and acknowledged; when it stops, the only thing that can
  follow is the ERROR packet of an interruption.
\<close>

theorem upload_in_order:
  assumes "client_ok s" "arg_file_mode (args s) = OCTET" "good_stream (std_in s)"
  shows "wlp Client_Write (upload_outcome s (st_rest (std_in s))) s"
  using Client_Write_octet [OF assms] .

theorem upload_in_order_witness:
  "wlp Client_Write (upload_outcome (ex_tftp_client [RecvTimeout]) ex_content) (ex_tftp_client [RecvTimeout])"
  using upload_in_order [OF ex_client_ok, of "[RecvTimeout]"] by simp

section \<open>The run\<close>




definition ex_upload :: "net_event list \<Rightarrow> tftp_client" where
  "ex_upload evs = (ex_tftp_client evs)\<lparr>args := ex_args\<lparr>arg_mode := WRITE\<rparr>\<rparr>"

lemma ex_timeout_raw [simp]: "sendable [ex_timeout]"
  by code_simp

lemma block_number_error_timeout [simp]: "block_number_error w n b \<noteq> UdpTimeoutException"
  by (simp add: block_number_error_def)

lemma ex_upload_simps [simp]:
  "sigint_at (ex_upload evs) = None" "inbox (ex_upload evs) = evs" "server (ex_upload evs) = ex_server"
  "maxPacketSize (ex_upload evs) = 65500" "outbox (ex_upload evs) = []"
  "arg_options (args (ex_upload evs)) = [ex_timeout]"
  by (simp_all add: ex_upload_def)


section \<open>The negotiation\<close>







section \<open>Flaws\<close>

text \<open>
  C37. A single timeout ends the exchange of the write request as if the server had answered:
  \<open>SendWrq\<close> returns without having received anything, and the DATA packets that follow go to
  the port the request was sent to.
\<close>

theorem wrq_timeout_ignored:
  assumes "sendable (arg_options (args s))" "sigint_at s = None" "inbox s = RecvTimeout # rest"
  shows "\<exists>s'. SendWrq s = Some (Inr (), s') \<and> inbox s' = rest \<and> server s' = server s
     \<and> args s' = args s \<and> outbox s' = outbox s @ [(server s, wrq_raw s)]"
proof -
  have "wlp SendWrq (\<lambda>r s'. r = Inr () \<and> inbox s' = rest \<and> server s' = server s
      \<and> args s' = args s \<and> outbox s' = outbox s @ [(server s, wrq_raw s)]) s"
    using assms
    by (simp add: SendWrq_def sigint_set_def wlp_send_request_ok wlp_wrq_loop_eq wrq_response_def first_response_def
        UdpClient_Receive_def MAX_RETRIES_def request_raw_def)
  moreover have "returns SendWrq s"
    unfolding SendWrq_def by (intro returns_intros) simp_all
  ultimately show ?thesis by (auto simp: returns_iff wlp_def)
qed

theorem wrq_timeout_ignored_witness:
  "\<exists>s'. SendWrq (ex_upload [RecvTimeout]) = Some (Inr (), s') \<and> server s' = ex_server"
  using wrq_timeout_ignored [of "ex_upload [RecvTimeout]" "[]"] by auto

text \<open>
  C38. The first answer to a write request is taken from any host: an ACK of block 0 from an
  address \<open>a\<close> completes the exchange, and the client goes on with the port of \<open>a\<close> at the
  address of the server.
\<close>

theorem first_answer_from_any_host:
  assumes "sendable (arg_options (args s))" "sigint_at s = None" "4 \<le> maxPacketSize s"
    and "inbox s = Datagram a (AckPacket_MakeRaw (AckPacket 0)) # rest"
  shows "\<exists>s'. SendWrq s = Some (Inr (), s') \<and> inbox s' = rest
     \<and> server s' = \<lparr>sin_addr = sin_addr (server s), sin_port = sin_port a\<rparr>"
proof -
  have t: "take (maxPacketSize s) (AckPacket_MakeRaw (AckPacket 0)) = AckPacket_MakeRaw (AckPacket 0)"
    using assms(3) by (simp add: AckPacket_MakeRaw_def)
  have "wlp SendWrq (\<lambda>r s'. r = Inr () \<and> inbox s' = rest
      \<and> server s' = \<lparr>sin_addr = sin_addr (server s), sin_port = sin_port a\<rparr>) s"
    using assms
    by (simp add: SendWrq_def sigint_set_def wlp_send_request_ok wlp_wrq_loop_eq wrq_response_def first_response_def
        UdpClient_Receive_def t AckPacket_def SetupUdpClient_def)
  moreover have "returns SendWrq s"
    unfolding SendWrq_def by (intro returns_intros) simp_all
  ultimately show ?thesis by (auto simp: returns_iff wlp_def)
qed

definition ex_stranger :: sockaddr where
  "ex_stranger = \<lparr>sin_addr = 0xC0A80001, sin_port = 4000\<rparr>"

theorem first_answer_from_any_host_witness:
  "\<exists>s'. SendWrq (ex_upload [Datagram ex_stranger (AckPacket_MakeRaw (AckPacket 0))]) = Some (Inr (), s')
     \<and> server s' = \<lparr>sin_addr = 0x0A000001, sin_port = 4000\<rparr>"
  using first_answer_from_any_host [of "ex_upload [Datagram ex_stranger (AckPacket_MakeRaw (AckPacket 0))]"
      ex_stranger "[]"] by (auto simp: ex_server_def ex_stranger_def)

text \<open>The loop over the options of the OACK, when the destination does not exist.\<close>

lemma tsize_check_fails:
  assumes "\<forall>opt \<in> set opts. valid_option opt" "TSIZE \<in> opt_name ` set opts"
    and "nodes (fsys s) (download_path s) = None"
  shows "wlp (for_each opts (\<lambda>option.
      if opt_name option = TSIZE then
        bnd (lift_exn (sto_exn (stoull (opt_value option)))) (\<lambda>tsize.
        bnd (gets fsys) (\<lambda>fs.
        bnd (gets (\<lambda>s. arg_dest_filepath (args s))) (\<lambda>dest.
        if \<not> HasEnoughSpace fs dest tsize then throw NotEnoughSpaceException else skip)))
      else skip)) (\<lambda>r s'. r = Inl (Raise NotEnoughSpaceException)) s"
  using assms(1,2)
proof (induction opts)
  case (Cons opt opts)
  show ?case
  proof (cases "opt_name opt = TSIZE")
    case True
    then obtain n where "stoull (opt_value opt) = Inr n"
      using Cons.prems(1) by (cases "stoull (opt_value opt)") (auto simp: valid_option_def valid_value_def)
    with True assms(3) show ?thesis
      by (simp add: HasEnoughSpace_def download_path_def sto_exn_def)
  next
    case False
    with Cons show ?thesis by simp
  qed
qed simp

text \<open>
  A download cannot use the tsize option for a new file: when an accepted OACK has it and the
  destination does not exist yet, the check for free space fails, whatever the size and
  however much space there is.
\<close>

theorem tsize_needs_existing_file:
  assumes "nodes (fsys s) (download_path s) = None" "OackPacket_ctor_raw b = Inr oack"
    and "length (oa_options oack) \<le> length (arg_options (args s))"
    and "ValidateOptionsInOack (arg_options (args s)) (oa_options oack) = Inr ()"
    and "TSIZE \<in> opt_name ` set (oa_options oack)"
  shows "\<exists>s'. rrq_response b s = Some (Inl (Raise NotEnoughSpaceException), s')"
proof -
  let ?s1 = "s\<lparr>args := (args s)\<lparr>arg_options := oa_options oack\<rparr>\<rparr>"
  have v: "\<forall>opt \<in> set (oa_options oack). valid_option opt"
    using OackPacket_ctor_raw_wf [OF assms(2)] by (simp add: wire_options_def wire_option_def)
  have n: "nodes (fsys ?s1) (download_path ?s1) = None" using assms(1) by (simp add: download_path_def)
  have "wlp (rrq_response b) (\<lambda>r s'. r = Inl (Raise NotEnoughSpaceException)) s"
    using assms(2-4) OackPacket_ctor_raw_opcode [OF assms(2)]
    by (auto simp: rrq_response_def accept_oack_def not_less [symmetric]
        intro!: wlp_mono [OF tsize_check_fails [OF v assms(5) n]])
  then show ?thesis
    using returns_rrq_response [of b s] by (auto simp: returns_iff wlp_def)
qed

definition ex_tsize_option :: tftp_option where
  "ex_tsize_option = ex_option ''tsize'' ''10''"

definition ex_oack :: bytes where
  "ex_oack = (case OackPacket_MakeRaw (OackPacket [ex_tsize_option]) of Inl _ \<Rightarrow> [] | Inr raw \<Rightarrow> raw)"

theorem tsize_needs_existing_file_witness:
  "\<exists>s'. rrq_response ex_oack ((ex_tftp_client [])\<lparr>args := ex_args\<lparr>arg_options := [ex_tsize_option]\<rparr>\<rparr>)
     = Some (Inl (Raise NotEnoughSpaceException), s')"
proof -
  let ?s = "(ex_tftp_client [])\<lparr>args := ex_args\<lparr>arg_options := [ex_tsize_option]\<rparr>\<rparr>"
  have wf: "wf_oack (OackPacket [ex_tsize_option])" by code_simp
  then have p: "OackPacket_ctor_raw ex_oack = Inr (OackPacket [ex_tsize_option])"
    using oack_codec.roundtrip [OF wf] by (auto simp: ex_oack_def)
  have c: "canonical_of ex_fs ''/srv/copy'' = [''srv'', ''copy'']" by code_simp
  have "nodes (fsys ?s) (download_path ?s) = None"
    by (simp add: download_path_def ex_args_def c) (simp add: ex_fs_def)
  moreover have "opt_name ex_tsize_option = TSIZE"
    "ValidateOptionsInOack [ex_tsize_option] [ex_tsize_option] = Inr ()" by code_simp+
  ultimately show ?thesis
    using tsize_needs_existing_file [of ?s ex_oack "OackPacket [ex_tsize_option]"] p
    by (simp add: OackPacket_def)
qed

end
