(* ===== verification/Confinement.thy ===== *)
theory Confinement
  imports Session
begin

text \<open>
  Where a session of the server can do damage: whatever the request, its mode and the network,
  the only path that changes is the one the request names, and only if it passed the directory
  check. The judgement \<open>keeps I m\<close> says that a program keeps a predicate on the state; its
  rules follow the structure of programs, so each handler is one \<open>intro\<close>.
\<close>

section \<open>Programs that keep a predicate\<close>

text \<open>
  A program keeps \<open>I\<close>; when it ends the run for good (no exception, so no handler and no
  destructor comes after it) it may leave \<open>K\<close> instead.
\<close>

definition kept :: "('s \<Rightarrow> bool) \<Rightarrow> ('s \<Rightarrow> bool) \<Rightarrow> 'a outcome \<Rightarrow> 's \<Rightarrow> bool" where
  "kept I K r s \<longleftrightarrow> I s \<or> ((\<forall>x. r \<noteq> Inr x) \<and> (\<forall>e. r \<noteq> Inl (Raise e)) \<and> K s)"

definition keeps_or :: "('s \<Rightarrow> bool) \<Rightarrow> ('s \<Rightarrow> bool) \<Rightarrow> ('s, 'a) prog \<Rightarrow> bool" where
  "keeps_or I K m \<longleftrightarrow> (\<forall>s. I s \<longrightarrow> wlp m (kept I K) s)"

abbreviation keeps :: "('s \<Rightarrow> bool) \<Rightarrow> ('s, 'a) prog \<Rightarrow> bool" where
  "keeps I \<equiv> keeps_or I (\<lambda>_. False)"

lemma kept_simps [simp]:
  "I s \<Longrightarrow> kept I K r s" "kept I K (Inr x) s = I s" "kept I K (Inl (Raise e)) s = I s"
  "kept I (\<lambda>_. False) r s = I s"
  by (simp_all add: kept_def)

lemma keeps_orI: "(\<And>s. I s \<Longrightarrow> wlp m (kept I K) s) \<Longrightarrow> keeps_or I K m"
  by (simp add: keeps_or_def)

lemma keeps_orD: "keeps_or I K m \<Longrightarrow> I s \<Longrightarrow> wlp m (kept I K) s"
  by (simp add: keeps_or_def)

lemma keepsI:
  assumes "\<And>s. I s \<Longrightarrow> wlp m (\<lambda>r s'. I s') s"
  shows "keeps_or I K m"
  by (rule keeps_orI, rule wlp_mono [OF assms]) simp_all

lemma keepsD:
  assumes "keeps I m" "I s"
  shows "wlp m (\<lambda>r s'. I s') s"
  by (rule wlp_mono [OF keeps_orD [OF assms]]) simp

lemma keeps_basic [simp]:
  "keeps_or I K (ret x)" "keeps_or I K (stop_with e)" "keeps_or I K (throw x')" "keeps_or I K skip"
  "keeps_or I K (gets f)" "keeps_or I K (lift_exn r)"
  by (auto intro!: keepsI split: sum.splits)

text \<open>After a part that keeps \<open>I\<close>, what a continuation does on each way to go on.\<close>

lemma keeps_then:
  assumes "keeps_or I K m" "I s" "\<And>r s'. I s' \<Longrightarrow> Q r s'"
    "\<And>e s'. K s' \<Longrightarrow> (\<And>x. e \<noteq> Raise x) \<Longrightarrow> Q (Inl e) s'"
  shows "wlp m Q s"
proof (rule wlp_mono [OF keeps_orD [OF assms(1,2)]], goal_cases)
  case (1 r s')
  then show ?case using assms(3,4) by (cases r) (auto simp: kept_def)
qed

lemma kept_stop: "K s \<Longrightarrow> (\<And>x. e \<noteq> Raise x) \<Longrightarrow> kept I K (Inl e) s"
  by (simp add: kept_def)

lemma keeps_bndI:
  assumes "keeps_or I K m" "\<And>x. keeps_or I K (f x)" shows "keeps_or I K (bnd m f)"
  by (rule keeps_orI, unfold wlp_bnd, rule keeps_then [OF assms(1)])
    (auto intro: keeps_orD [OF assms(2)] kept_stop split: sum.splits)

lemma keeps_seqI:
  assumes "keeps_or I K m" "keeps_or I K n" shows "keeps_or I K (seq m n)"
  unfolding seq_def by (intro keeps_bndI assms)

lemma keeps_try_catchI:
  assumes "keeps_or I K m" "\<And>e. keeps_or I K (h e)" shows "keeps_or I K (try_catch m h)"
  by (rule keeps_orI, unfold wlp_try_catch, rule keeps_then [OF assms(1)])
    (auto intro: keeps_orD [OF assms(2)] kept_stop split: sum.splits stop.splits)

lemma keeps_scopedI:
  assumes "keeps_or I K m" "keeps_or I K d" shows "keeps_or I K (scoped m d)"
  by (rule keeps_orI, unfold wlp_scoped, rule keeps_then [OF assms(1)])
    (auto intro!: keeps_then [OF assms(2)] intro: kept_stop split: sum.splits stop.splits)

lemma keeps_ifI: "(b \<Longrightarrow> keeps_or I K m) \<Longrightarrow> (\<not> b \<Longrightarrow> keeps_or I K n) \<Longrightarrow> keeps_or I K (if b then m else n)"
  by simp

lemma keeps_prodI: "(\<And>a b. keeps_or I K (f a b)) \<Longrightarrow> keeps_or I K (case p of (a, b) \<Rightarrow> f a b)"
  by (cases p) simp

lemma keeps_optionI:
  "keeps_or I K m \<Longrightarrow> (\<And>x. keeps_or I K (f x)) \<Longrightarrow> keeps_or I K (case ox of None \<Rightarrow> m | Some x \<Rightarrow> f x)"
  by (cases ox) simp_all

lemma keeps_for_each: "(\<And>x. keeps_or I K (f x)) \<Longrightarrow> keeps_or I K (for_each xs f)"
  by (induction xs) (simp_all add: keeps_seqI)

lemmas keeps_intros = keeps_prodI keeps_optionI keeps_bndI keeps_seqI keeps_try_catchI keeps_scopedI
  keeps_ifI keeps_for_each

text \<open>A loop keeps what its body keeps, given what the body assumes of the loop's variables.\<close>

lemma keeps_while:
  assumes "V a" "\<And>a s. V a \<Longrightarrow> I s \<Longrightarrow> wlp (b a) (\<lambda>r s'. kept I K r s' \<and> (\<forall>a'. r = Inr a' \<longrightarrow> V a')) s"
  shows "keeps_or I K (while_m c b (a :: 'a))"
proof (rule keeps_orI)
  fix s assume "I s"
  show "wlp (while_m c b a) (kept I K) s"
  proof (rule wlp_while [where I = "\<lambda>a s. V a \<and> I s"])
    show "V a \<and> I s" using assms(1) \<open>I s\<close> ..
  next
    fix a' s' assume "V a' \<and> I s'" "c a'"
    then show "wlp (b a') (\<lambda>r s''. case r of Inl e \<Rightarrow> kept I K (Inl e :: 'a outcome) s'' | Inr a'' \<Rightarrow> V a'' \<and> I s'') s'"
      by (intro wlp_mono [OF assms(2)]) (auto split: sum.splits)
  qed simp
qed

lemma keeps_whileI: "(\<And>a. keeps_or I K (b a)) \<Longrightarrow> keeps_or I K (while_m c b a)"
  by (rule keeps_while [where V = "\<lambda>_. True"]) (auto dest: keeps_orD)

lemma keeps_catch_wait: "keeps_or I K to \<Longrightarrow> keeps_or I K si \<Longrightarrow> keeps_or I K (catch_wait to si e)"
  by (simp add: catch_wait_def)

lemma keeps_throw_error_packet [simp]: "keeps_or I K (throw_error_packet w p)"
  unfolding throw_error_packet_def by (intro keeps_intros) simp_all

lemma keeps_Reader_ReadFile [simp]: "keeps_or I K (Reader_ReadFile n r)"
  by (rule keepsI) (auto intro: wlp_mono [OF wlp_Reader_ReadFile])

section \<open>Predicates on the files\<close>

text \<open>
  A predicate that only looks at the files, the writer and the moment of SIGINT is kept by
  everything that talks to the network.
\<close>

locale file_predicate =
  fixes I K :: "client_handler \<Rightarrow> bool"
  assumes same: "I s \<Longrightarrow> fsys s' = fsys s \<Longrightarrow> the_writer s' = the_writer s \<Longrightarrow>
    sigint_at s' = sigint_at s \<Longrightarrow> I s'"
begin

lemma keeps_same:
  assumes "\<And>s. wlp m (\<lambda>r s'. fsys s' = fsys s \<and> the_writer s' = the_writer s \<and> sigint_at s' = sigint_at s) s"
  shows "keeps_or I K m"
  by (rule keepsI) (auto intro: wlp_mono [OF assms] same)

lemma keeps_modify:
  "(\<And>s. fsys (g s) = fsys s \<and> the_writer (g s) = the_writer s \<and> sigint_at (g s) = sigint_at s) \<Longrightarrow>
   keeps_or I K (modify g)"
  by (rule keeps_same) simp

lemma keeps_udp [simp]:
  "keeps_or I K (UdpClient_Send d a)" "keeps_or I K (ChangeTimeout t)" "keeps_or I K IncreaseTimeout"
  "keeps_or I K TimeoutReset" "keeps_or I K sigint_load"
  by (rule keeps_same; simp)+

lemma keeps_receive [simp]: "keeps_or I K (RecievePacketFrom peer)"
  by (rule keeps_same)
    (auto intro!: wlp_mono [OF wlp_RecievePacketFrom] simp: recv_result_def recv_frame_fields)

lemma keeps_client [simp]:
  "keeps_or I K RecievePacketFromClient" "keeps_or I K (send_to_client d)" "keeps_or I K (send_oack negs)"
  unfolding RecievePacketFromClient_def send_to_client_def send_oack_def
  by (intro keeps_intros; simp)+

lemma keeps_NegotiateOptions [simp]: "keeps_or I K (NegotiateOptions opts)"
proof (induction opts)
  case (Cons opt opts)
  then show ?case
    by (cases "opt_name opt"; simp only: NegotiateOptions.simps opt_name.case;
        intro keeps_intros keeps_modify; simp)
qed simp

end

text \<open>What writing sessions keep, given what the writer and an interruption keep.\<close>

locale writing_predicate = file_predicate +
  assumes write_block [simp]: "keeps_or I K (write_block d)"
    and interrupted [simp]: "keeps_or I K CheckForSigintWRQ"
begin

lemma keeps_first_round [simp]: "keeps_or I K (first_round ho negs a)"
  unfolding first_round_def by (intro keeps_intros keeps_catch_wait) simp_all

lemma keeps_next_round [simp]: "keeps_or I K (next_round a)"
  unfolding next_round_def by (intro keeps_intros keeps_catch_wait) simp_all

lemma keeps_receive_file [simp]: "keeps_or I K (receive_file ho negs)"
  unfolding receive_file_def receive_round_def
  by (intro keeps_intros keeps_whileI) simp_all

end

text \<open>What reading sessions keep; the reader is carried by the loops, its path stays the same.\<close>

lemma wlp_Reader_ReadFile_path:
  "wlp (Reader_ReadFile n r) (\<lambda>x s'. s' = s \<and> (\<forall>d r'. x = Inr (d, r') \<longrightarrow> r_filepath r' = r_filepath r)) s"
  by (auto simp: Reader_ReadFile_def Reader_OpenFile_def Let_def
      split: sum.splits option.splits prod.splits if_splits)

locale reading_predicate = file_predicate +
  fixes f :: string
  assumes interrupted [simp]: "r_filepath reader = f \<Longrightarrow> keeps_or I K (CheckForSigintRRQ reader)"
begin

lemma keeps_oack_phase [simp]: "r_filepath reader = f \<Longrightarrow> keeps_or I K (oack_phase reader negs)"
  unfolding oack_phase_def oack_round_def
  by (intro keeps_intros keeps_whileI keeps_catch_wait) simp_all

lemma keeps_ack_loop [simp]:
  "r_filepath reader = f \<Longrightarrow> keeps_or I K (while_m ack_guard (ack_round reader) a)"
  unfolding ack_round_def by (intro keeps_intros keeps_whileI keeps_catch_wait) simp_all

lemma send_round_path:
  assumes I: "I s" and r: "r_filepath reader = f"
  shows "wlp (send_round (bn, fin, reader)) (\<lambda>x s'. kept I K x s' \<and>
     (\<forall>a'. x = Inr a' \<longrightarrow> r_filepath (snd (snd a')) = f)) s"
proof -
  have tail: "wlp (seq (send_to_client d) (bnd (while_m ack_guard (ack_round reader') a)
      (\<lambda>(ackReceived, retries, block_number').
          if retries \<ge> MAX_RETRIES \<and> \<not> last' then throw timeout_error
          else seq TimeoutReset (ret (block_number', last', reader')))))
      (\<lambda>x s'. kept I K x s' \<and> (\<forall>a'. x = Inr a' \<longrightarrow> r_filepath (snd (snd a')) = f)) s"
    if r': "r_filepath reader' = f" for d a last' reader'
  proof (rule wlp_conj [OF keeps_orD [where I = I and K = K, OF _ I]], goal_cases)
    case 1
    show ?case using r' by (intro keeps_intros) simp_all
  next
    case 2
    show ?case unfolding seq_def using r' by (intro wlp_bnd_any) (auto split: prod.splits)
  qed
  show ?thesis
    unfolding send_round_def prod.case wlp_bnd [of "gets _"] wlp_gets sum.case wlp_bnd [of "Reader_ReadFile _ _"] Let_def
  proof (rule wlp_mono [OF wlp_Reader_ReadFile_path], goal_cases)
    case (1 x s')
    show ?case
    proof (cases x)
      case (Inl e)
      with 1 I show ?thesis by simp
    next
      case (Inr y)
      obtain d r' where y: "y = (d, r')" by (cases y)
      then have "r_filepath r' = f" "s' = s" using 1 r Inr by simp_all
      then show ?thesis unfolding Inr y sum.case prod.case by (simp only: tail)
    qed
  qed
qed

lemma keeps_send_file [simp]:
  "r_filepath reader = f \<Longrightarrow> keeps_or I K (send_file reader)"
  unfolding send_file_def
proof (intro keeps_seqI keeps_while [where V = "\<lambda>a. r_filepath (snd (snd a)) = f"], goal_cases)
  case (2 a s)
  obtain bn fin r where a: "a = (bn, fin, r)" by (cases a)
  show ?case using 2 unfolding a by (intro send_round_path) simp_all
qed simp_all

lemma keeps_tsize_loop [simp]: "keeps_or I K (tsize_loop path mode)"
  unfolding tsize_loop_def tsize_round_def by (intro keeps_intros keeps_whileI) simp_all

text \<open>The part of \<open>FollowOnRRQ\<close> after the checks.\<close>

lemma keeps_serve:
  "keeps_or I K (bnd (NegotiateOptions opts) (\<lambda>negs.
      seq (for_each negs (\<lambda>opt. if opt_name opt = TSIZE then tsize_loop f m else skip))
        (seq (if opts \<noteq> [] then oack_phase (Reader_ctor f m indet) negs else skip)
          (send_file (Reader_ctor f m indet)))))"
  by (intro keeps_intros) (simp_all add: Reader_ctor_def)

end

section \<open>One path\<close>

text \<open>
  At most the path of \<open>f\<close> differs from the file system \<open>fs\<close>; if \<open>w\<close>, the writer of the session
  writes to \<open>f\<close>.
\<close>

definition confined :: "bool \<Rightarrow> string \<Rightarrow> filesystem \<Rightarrow> 'b world_scheme \<Rightarrow> bool" where
  "confined w f fs s \<longleftrightarrow> (w \<longrightarrow> w_filepath (the_writer s) = f)
     \<and> canonical_of (fsys s) = canonical_of fs
     \<and> (\<forall>q. q \<noteq> canonical_of fs f \<longrightarrow> nodes (fsys s) q = nodes fs q)"

text \<open>The writer, in either format.\<close>

lemma keeps_writer_parts [simp]:
  "keeps (confined True f fs) (writer_put d)" "keeps (confined True f fs) (set_later d)"
  "keeps (confined True f fs) Writer_OpenFile"
proof -
  show "keeps (confined True f fs) (writer_put d)"
    by (rule keepsI) (auto simp: wlp_writer_put confined_def nodes_append_file_other)
  show "keeps (confined True f fs) (set_later d)"
    by (rule keepsI) (auto simp: set_later_def confined_def)
  show "keeps (confined True f fs) Writer_OpenFile"
    by (rule keepsI) (auto simp: confined_def open_write_static split: option.splits)
qed

lemma keeps_writer [simp]:
  "keeps (confined True f fs) (write_block d)" "keeps (confined True f fs) Writer_dtor"
proof -
  have "keeps (confined True f fs) (Writer_WriteFile d)"
    unfolding Writer_WriteFile_def Let_def by (intro keeps_intros) simp_all
  then show "keeps (confined True f fs) (write_block d)"
    unfolding write_block_def by (intro keeps_intros) (auto split: exn.splits)
  have "keeps (confined True f fs) (modify (\<lambda>s. s\<lparr>the_writer := (the_writer s)\<lparr>w_open := False\<rparr>\<rparr>))"
    by (rule keepsI) (auto simp: confined_def)
  then show "keeps (confined True f fs) Writer_dtor"
    unfolding Writer_dtor_def by (intro keeps_intros) simp_all
qed

lemma confined_delete:
  "confined w f fs s \<Longrightarrow> DeleteFile (fsys s) f = Inr fs' \<Longrightarrow> confined w f fs (s\<lparr>fsys := fs'\<rparr>)"
  by (auto simp: confined_def DeleteFile_nodes DeleteFile_static)

lemma keeps_delete [simp]: "keeps (confined w f fs) (delete_file f)"
  by (rule keepsI) (auto simp: confined_delete split: sum.splits)

lemma keeps_drop_file:
  "keeps (confined True f fs) (bnd (gets (\<lambda>s. w_filepath (the_writer s))) (\<lambda>path.
     seq Writer_dtor (seq (delete_file path) (stop_with e))))"
proof (rule keepsI, goal_cases)
  case (1 s)
  have "keeps (confined True f fs) (seq Writer_dtor (seq (delete_file f) (stop_with e)))"
    by (intro keeps_intros) simp_all
  from keepsD [OF this 1] 1 show ?case by (simp add: confined_def [of True f fs s])
qed

lemma confined_predicate: "file_predicate (confined w f fs)"
  by unfold_locales (simp add: confined_def)

interpretation confined_files: file_predicate "confined w f fs" "\<lambda>_. False" for w f fs
  by (rule confined_predicate)

interpretation deleting: reading_predicate "confined False f fs" "\<lambda>_. False" f for f fs
proof unfold_locales
  fix reader :: reader assume "r_filepath reader = f"
  then show "keeps (confined False f fs) (CheckForSigintRRQ reader)"
    unfolding CheckForSigintRRQ_def by (intro keeps_intros) simp_all
qed

interpretation writing: writing_predicate "confined True f fs" "\<lambda>_. False" for f fs
proof unfold_locales
  show "keeps (confined True f fs) CheckForSigintWRQ"
    unfolding CheckForSigintWRQ_def
    by (intro keeps_ifI keeps_seqI keeps_bndI [where m = sigint_load] keeps_drop_file) simp_all
qed simp

text \<open>A read request that is not interrupted changes nothing.\<close>

definition untouched :: "filesystem \<Rightarrow> 'b world_scheme \<Rightarrow> bool" where
  "untouched fs s \<longleftrightarrow> fsys s = fs \<and> sigint_at s = None"

interpretation reading: reading_predicate "untouched fs" "\<lambda>_. False" f for f fs
proof unfold_locales
  fix reader :: reader
  show "keeps (untouched fs) (CheckForSigintRRQ reader)"
    by (rule keepsI) (simp add: CheckForSigintRRQ_def sigint_set_def untouched_def)
qed (simp add: untouched_def)

section \<open>The handlers\<close>

text \<open>
  What a session can change: nothing, or the one path the request names, which is below the root
  directory.
\<close>

definition contained :: "client_handler \<Rightarrow> bytes \<Rightarrow> client_handler \<Rightarrow> bool" where
  "contained s raw s' \<longleftrightarrow> canonical_of (fsys s') = canonical_of (fsys s) \<and> (nodes (fsys s') = nodes (fsys s) \<or>
     (\<exists>p. ReadWritePacket_ctor_raw raw = Inr p
        \<and> isFilePathUnderDirectory (fsys s) (request_path s p) (root_dirpath s) = Some True
        \<and> (\<forall>q. q \<noteq> canonical_of (fsys s) (request_path s p) \<longrightarrow> nodes (fsys s') q = nodes (fsys s) q)))"

lemma contained_refl [simp]: "contained s raw s"
  by (simp add: contained_def)

lemma confined_contained:
  assumes "ReadWritePacket_ctor_raw raw = Inr p"
    "isFilePathUnderDirectory (fsys s) (request_path s p) (root_dirpath s) = Some True"
    "confined w (request_path s p) (fsys s) s'"
  shows "contained s raw s'"
  using assms by (auto simp: contained_def confined_def)

lemma FollowOnRRQ_contained: "wlp (FollowOnRRQ raw) (\<lambda>r s'. contained s raw s') s"
proof (cases "ReadWritePacket_ctor_raw raw")
  case (Inl e)
  then show ?thesis by (simp add: FollowOnRRQ_def)
next
  case (Inr p)
  let ?f = "request_path s p"
  note body = keepsD [OF deleting.keeps_serve, of ?f "fsys s" s]
  have I: "confined False ?f (fsys s) s" by (simp add: confined_def)
  show ?thesis
    unfolding FollowOnRRQ_def wlp_bnd [of "lift_exn _"] wlp_lift_exn Inr sum.case wlp_bnd [of "gets _"] wlp_gets Let_def
      request_path_def [symmetric]
    by (auto simp del: wlp_bnd elim!: wlp_mono intro!: wlp_mono [OF body [OF I]] intro: confined_contained [OF Inr]
        split: option.splits)
qed

text \<open>A file that exists is never written to.\<close>

definition preserved :: "filesystem \<Rightarrow> filesystem \<Rightarrow> bool" where
  "preserved fs fs' \<longleftrightarrow> (\<forall>q n. nodes fs q = Some n \<longrightarrow> nodes fs' q = Some n)"

lemma preserved_refl [simp]: "preserved fs fs"
  by (simp add: preserved_def)

lemma preserved_trans: "preserved fs1 fs2 \<Longrightarrow> preserved fs2 fs3 \<Longrightarrow> preserved fs1 fs3"
  by (simp add: preserved_def)

definition stored :: "client_handler \<Rightarrow> bytes \<Rightarrow> client_handler \<Rightarrow> bool" where
  "stored s raw s' \<longleftrightarrow> contained s raw s' \<and> preserved (fsys s) (fsys s')"

lemma FollowOnWRQ_stored: "wlp (FollowOnWRQ raw) (\<lambda>r s'. stored s raw s') s"
proof (cases "ReadWritePacket_ctor_raw raw")
  case (Inl e)
  then show ?thesis by (simp add: FollowOnWRQ_def stored_def)
next
  case (Inr p)
  let ?f = "request_path s p"
  define s0 where "s0 = s\<lparr>the_writer := \<lparr>w_filepath = ?f, w_mode = data_format (rw_mode p),
      w_open = False, w_fail = False, w_tbw_later_buffer = []\<rparr>\<rparr>"
  define body where "body = bnd (NegotiateOptions (rw_options p)) (\<lambda>negs.
      seq (for_each negs (\<lambda>opt. if opt_name opt = TSIZE then bnd (gets hd_tsize) (\<lambda>tsize.
             if \<not> HasEnoughSpace (fsys s) (root_dirpath s) (tsize mod 2 ^ 64)
             then throw NotEnoughSpaceException else skip) else skip))
        (receive_file (length (rw_options p) > 0) negs))"
  have I: "confined True ?f (fsys s) s0" by (simp add: confined_def s0_def)
  have "keeps (confined True ?f (fsys s)) (scoped body Writer_dtor)"
    unfolding body_def by (intro keeps_intros) simp_all
  note inside = keepsD [OF this I]
  have outside: "wlp (scoped (stop_with e) Writer_dtor) (\<lambda>r s'. stored s raw s') s0" for e
    by (cases e) (simp_all add: s0_def Writer_dtor_def stored_def contained_def)
  have new: "stored s raw s'" if "confined True ?f (fsys s) s'" "\<not> FileExists (fsys s) ?f"
      "isFilePathUnderDirectory (fsys s) ?f (root_dirpath s) = Some True" for s'
  proof -
    have "nodes (fsys s) (canonical_of (fsys s) ?f) = None" using that(2) by (simp add: FileExists_def)
    then have "preserved (fsys s) (fsys s')"
      using that(1) unfolding preserved_def confined_def by (metis option.distinct(1))
    with confined_contained [OF Inr that(3,1)] show ?thesis by (simp add: stored_def)
  qed
  have "wlp (scoped
       (if FileExists (fsys s) ?f then
          throw (TFTPFileAlreadyExistsError (''File already exists: '' @ rw_filepath p))
        else
          (case isFilePathUnderDirectory (fsys s) ?f (root_dirpath s) of
             None \<Rightarrow> stop_with (Undefined ''relative[1] of an empty string'')
           | Some inside \<Rightarrow> if \<not> inside then throw TFTPAccessViolationError else body)) Writer_dtor)
     (\<lambda>r s'. stored s raw s') s0"
    using outside wlp_mono [OF inside new]
    by (auto simp: throw_def split: option.splits simp del: wlp_scoped)
  then show ?thesis
    unfolding FollowOnWRQ_def wlp_bnd wlp_lift_exn Inr sum.case wlp_gets Let_def wlp_seq
      request_path_def [symmetric] body_def [symmetric]
    by (simp add: s0_def Writer_ctor_def)
qed

lemma keeps_contained_report: "keeps (contained s raw) (report_and_rethrow e)"
  by (rule keepsI) (auto simp: report_and_rethrow_def send_to_client_def contained_def split: option.splits)

lemma FollowOnIntroPacket_contained: "wlp (FollowOnIntroPacket raw) (\<lambda>r s'. contained s raw s') s"
proof (cases "GetOpcodeFromRaw raw")
  case (Inl e)
  then show ?thesis by (simp add: FollowOnIntroPacket_def send_to_client_def contained_def)
next
  case (Inr opc)
  have "wlp (if opc = RRQ then FollowOnRRQ raw else if opc = WRQ then FollowOnWRQ raw
        else throw (TFTPIllegalOperationError ''Expected RRQ or WRQ'')) (\<lambda>r s'. contained s raw s') s"
    using FollowOnRRQ_contained wlp_mono [OF FollowOnWRQ_stored] by (simp add: stored_def)
  then have "wlp (try_catch (if opc = RRQ then FollowOnRRQ raw else if opc = WRQ then FollowOnWRQ raw
        else throw (TFTPIllegalOperationError ''Expected RRQ or WRQ'')) report_and_rethrow)
      (\<lambda>r s'. contained s raw s') s"
    unfolding wlp_try_catch
    by (rule wlp_mono) (auto intro: keepsD [OF keeps_contained_report] split: sum.splits stop.splits)
  then show ?thesis by (simp add: FollowOnIntroPacket_def Inr)
qed

text \<open>Without SIGINT, a read request changes nothing and no session changes an existing file.\<close>

lemma FollowOnRRQ_untouched:
  assumes "sigint_at s = None"
  shows "wlp (FollowOnRRQ raw) (\<lambda>r s'. fsys s' = fsys s) s"
proof (cases "ReadWritePacket_ctor_raw raw")
  case (Inl e)
  then show ?thesis by (simp add: FollowOnRRQ_def)
next
  case (Inr p)
  have I: "untouched (fsys s) s" using assms by (simp add: untouched_def)
  note body = keepsD [OF reading.keeps_serve [where f = "request_path s p"], of "fsys s" s]
  show ?thesis
    unfolding FollowOnRRQ_def wlp_bnd [of "lift_exn _"] wlp_lift_exn Inr sum.case wlp_bnd [of "gets _"] wlp_gets Let_def
      request_path_def [symmetric]
    by (auto simp del: wlp_bnd intro!: wlp_mono [OF body [OF I]] simp: untouched_def split: option.splits)
qed

lemma FollowOnIntroPacket_preserved:
  assumes "sigint_at s = None"
  shows "wlp (FollowOnIntroPacket raw) (\<lambda>r s'. preserved (fsys s) (fsys s')) s"
proof (cases "GetOpcodeFromRaw raw")
  case (Inl e)
  then show ?thesis by (simp add: FollowOnIntroPacket_def send_to_client_def)
next
  case (Inr opc)
  have "wlp (if opc = RRQ then FollowOnRRQ raw else if opc = WRQ then FollowOnWRQ raw
        else throw (TFTPIllegalOperationError ''Expected RRQ or WRQ'')) (\<lambda>r s'. preserved (fsys s) (fsys s')) s"
    using wlp_mono [OF FollowOnRRQ_untouched [OF assms]] wlp_mono [OF FollowOnWRQ_stored]
    by (simp add: stored_def)
  then have "wlp (try_catch (if opc = RRQ then FollowOnRRQ raw else if opc = WRQ then FollowOnWRQ raw
        else throw (TFTPIllegalOperationError ''Expected RRQ or WRQ'')) report_and_rethrow)
      (\<lambda>r s'. preserved (fsys s) (fsys s')) s"
    unfolding wlp_try_catch
    by (rule wlp_mono)
      (auto simp: report_and_rethrow_def send_to_client_def split: sum.splits stop.splits option.splits)
  then show ?thesis by (simp add: FollowOnIntroPacket_def Inr)
qed

end
