(* ===== verification/ServerLoop.thy ===== *)
theory ServerLoop
  imports Confinement
begin

text \<open>
  src/tftp-server/TftpServer.h, TftpServer.cpp and src/common/udp/UdpServer: the loop that
  receives requests on the listening socket and starts a thread for each, and the function the
  threads run. \<open>client_threads\<close> is the vector of the same name, each thread given by the arguments
  it was started with; \<open>inet_ntoa\<close> and \<open>inet_pton\<close>, between which the address of the sender
  passes, are inverse to each other and left out. The files are shared by all sessions; the step
  relation at the end runs the sessions one after the other, in any order.
\<close>

section \<open>UdpServer\<close>

record udp_server = world +
  srv_port :: int
  srv_maxPacketSize :: "16 word"
  srv_so_rcvtimeo :: "int option"

record tftp_server = udp_server +
  srv_root_dirpath :: string
  client_threads :: "(sockaddr \<times> bytes) list"

text \<open>
  The socket is bound to the port modulo \<open>2 ^ 16\<close>; whether \<open>socket\<close> and \<open>bind\<close> succeed are parameters.
\<close>

definition UdpServer_ctor :: "bool \<Rightarrow> (16 word \<Rightarrow> bool) \<Rightarrow> int \<Rightarrow> exn + 16 word" where
  "UdpServer_ctor socket_ok bind_ok port_number =
     (if \<not> socket_ok then Inl (UdpException ''Error: Failed to create socket'')
      else if \<not> bind_ok (word_of_int port_number) then Inl (UdpException ''Error: Failed to bind socket'')
      else Inr (word_of_int port_number))"

definition TftpServer_ctor :: "world \<Rightarrow> int \<Rightarrow> string \<Rightarrow> tftp_server" where
  "TftpServer_ctor w port root =
     \<lparr>inbox = inbox w, outbox = outbox w, sigint_at = sigint_at w, loads = loads w, fsys = fsys w,
      the_writer = the_writer w, std_in = std_in w, uninit = uninit w,
      srv_port = port, srv_maxPacketSize = 65500, srv_so_rcvtimeo = None,
      srv_root_dirpath = root, client_threads = []\<rparr>"

text \<open>
  \<open>Receive\<close> returns a bool and sets its two arguments; here it returns them, if it returns true.
\<close>

definition server_recvfrom :: "(tftp_server, (sockaddr \<times> bytes) option) prog" where
  "server_recvfrom = (\<lambda>s. case inbox s of
     [] \<Rightarrow> Some (Inl Blocked, s)
   | e # rest \<Rightarrow> Some (Inr (case e of
         Datagram sender d \<Rightarrow> Some (sender, take (unat (srv_maxPacketSize s)) d)
       | _ \<Rightarrow> None), s\<lparr>inbox := rest\<rparr>))"

definition UdpServer_Receive :: "(tftp_server, (sockaddr \<times> bytes) option) prog" where
  "UdpServer_Receive = bnd sigint_load (\<lambda>sigint. if sigint then ret None else server_recvfrom)"

text \<open>The two other operations, which \<open>TftpServer\<close> does not use: it waits without a timeout.\<close>

definition UdpServer_ChangeTimeout :: "bool \<Rightarrow> int \<Rightarrow> (tftp_server, unit) prog" where
  "UdpServer_ChangeTimeout setsockopt_ok timeout =
     (if setsockopt_ok then modify (\<lambda>s. s\<lparr>srv_so_rcvtimeo := Some timeout\<rparr>)
      else throw (UdpException ''Error: Failed to set timeout''))"

definition UdpServer_ChangeMaxPacketSize :: "16 word \<Rightarrow> (tftp_server, unit) prog" where
  "UdpServer_ChangeMaxPacketSize n = modify (\<lambda>s. s\<lparr>srv_maxPacketSize := n\<rparr>)"

section \<open>The loop\<close>

text \<open>The inner loop: what was received, and whether \<open>break\<close> left the loop.\<close>

definition listen_guard :: "(sockaddr \<times> bytes) option \<times> bool \<Rightarrow> bool" where
  "listen_guard = (\<lambda>(received, left). received = None \<and> \<not> left)"

definition listen_round ::
  "(sockaddr \<times> bytes) option \<times> bool \<Rightarrow> (tftp_server, (sockaddr \<times> bytes) option \<times> bool) prog" where
  "listen_round = (\<lambda>_.
     bnd UdpServer_Receive (\<lambda>received.
     if received \<noteq> None then ret (received, False)
     else bnd sigint_load (\<lambda>sigint. ret (None, sigint))))"

text \<open>One request. The loop of \<open>run\<close> ends with \<open>break\<close> or when it sees SIGINT.\<close>

definition run_guard :: "bool \<Rightarrow> bool" where
  "run_guard finished = (\<not> finished)"

definition run_round :: "bool \<Rightarrow> (tftp_server, bool) prog" where
  "run_round = (\<lambda>_.
     bnd sigint_load (\<lambda>sigint.
     if sigint then ret True
     else
       bnd (while_m listen_guard listen_round (None, False)) (\<lambda>(received, _).
       bnd sigint_load (\<lambda>sigint'.
       if sigint' then ret True
       else
         (case received of
            None \<Rightarrow> stop_with (Undefined ''sender_address is not initialised'')
          | Some thread \<Rightarrow>
              seq (modify (\<lambda>s. s\<lparr>client_threads := client_threads s @ [thread]\<rparr>))
                  (ret False))))))"

definition TftpServer_listen :: "(tftp_server, unit) prog" where
  "TftpServer_listen = seq (while_m run_guard run_round False) skip"

text \<open>
  After the loop. \<open>running i\<close> says that the thread \<open>i\<close> has not ended yet: \<open>pthread_kill\<close> sends it
  \<open>SIGUSR1\<close>, whose default action ends the process; with a handler the thread would go on, and \<open>join\<close>
  wait for it. With no thread running the signals have no effect and \<open>join\<close> returns at once.
\<close>

definition signal_threads :: "(nat \<Rightarrow> bool) \<Rightarrow> (tftp_server, unit) prog" where
  "signal_threads running =
     bnd sigint_load (\<lambda>sigint.
     bnd (gets client_threads) (\<lambda>threads.
     if sigint \<and> list_ex running [0..<length threads] then
       (case sa_handler (install_sigint initial_actions SIGUSR1) of
          SIG_DFL \<Rightarrow> stop_with (Killed ''SIGUSR1'')
        | SigintHandler \<Rightarrow> skip)
     else skip))"

lemma initial_actions_default [simp]: "sa_handler (initial_actions sig) = SIG_DFL"
  by (simp add: initial_actions_def)

definition TftpServer_run :: "(nat \<Rightarrow> bool) \<Rightarrow> (tftp_server, unit) prog" where
  "TftpServer_run running = seq TftpServer_listen (signal_threads running)"

text \<open>
  What a thread runs; \<open>w\<close> is the world of its session, and \<open>socket_ok\<close> says whether the handler gets
  a socket.
\<close>

definition StartCommsWithClient ::
  "bool \<Rightarrow> world \<Rightarrow> sockaddr \<Rightarrow> string \<Rightarrow> bytes \<Rightarrow> (unit outcome \<times> client_handler) option" where
  "StartCommsWithClient socket_ok w sender root intro_packet =
     try_catch (seq (lift_exn (UdpClient_ctor socket_ok)) (FollowOnIntroPacket intro_packet)) (\<lambda>e. skip)
       (ClientHandler_ctor w sender root)"

section \<open>Listening\<close>

definition arrivals :: "nat \<Rightarrow> net_event list \<Rightarrow> (sockaddr \<times> bytes) list" where
  "arrivals limit evs = concat (map (\<lambda>e. case e of Datagram a d \<Rightarrow> [(a, take limit d)] | _ \<Rightarrow> []) evs)"

lemma arrivals_simps [simp]:
  "arrivals limit [] = []"
  "arrivals limit (xs @ ys) = arrivals limit xs @ arrivals limit ys"
  "arrivals limit (Datagram a d # evs) = (a, take limit d) # arrivals limit evs"
  "arrivals limit (RecvTimeout # evs) = arrivals limit evs"
  "arrivals limit (RecvFailure # evs) = arrivals limit evs"
  by (simp_all add: arrivals_def)

definition took_over :: "tftp_server \<Rightarrow> net_event list \<Rightarrow> tftp_server \<Rightarrow> bool" where
  "took_over s used s' \<longleftrightarrow> inbox s = used @ inbox s' \<and> client_threads s' = client_threads s
     \<and> srv_maxPacketSize s' = srv_maxPacketSize s \<and> sigint_at s' = sigint_at s \<and> loads s \<le> loads s'"

lemma took_over_trans: "took_over s u s1 \<Longrightarrow> took_over s1 v s' \<Longrightarrow> took_over s (u @ v) s'"
  by (auto simp: took_over_def)

lemma took_over_loads [simp]: "took_over s [] (s\<lparr>loads := Suc (loads s)\<rparr>)"
  by (simp add: took_over_def)

lemma took_over_sigint: "took_over s u s' \<Longrightarrow> sigint_set s \<Longrightarrow> sigint_set s'"
  by (auto simp: took_over_def sigint_set_def split: option.splits)

text \<open>The events that brought nothing, and then perhaps one that did.\<close>

definition arrived :: "tftp_server \<Rightarrow> ((sockaddr \<times> bytes) option \<times> bool) outcome \<Rightarrow> tftp_server \<Rightarrow> bool" where
  "arrived s r s' \<longleftrightarrow> (\<exists>used. took_over s used s' \<and> (case r of
      Inl e \<Rightarrow> e = Blocked \<and> inbox s' = [] \<and> arrivals (unat (srv_maxPacketSize s)) used = []
    | Inr (None, left) \<Rightarrow> (left \<longrightarrow> sigint_set s') \<and> arrivals (unat (srv_maxPacketSize s)) used = []
    | Inr (Some x, left) \<Rightarrow> arrivals (unat (srv_maxPacketSize s)) used = [x]))"

lemma wlp_server_recvfrom [simp, wlp_rules]:
  "wlp server_recvfrom Q s = (case inbox s of
     [] \<Rightarrow> Q (Inl Blocked) s
   | e # rest \<Rightarrow> Q (Inr (case e of
         Datagram sender d \<Rightarrow> Some (sender, take (unat (srv_maxPacketSize s)) d)
       | _ \<Rightarrow> None)) (s\<lparr>inbox := rest\<rparr>))"
  by (simp add: server_recvfrom_def wlp_def split: list.splits)

lemma arrived_step:
  assumes "arrived s (Inr (None, left)) s1" "arrived s1 r s'"
  shows "arrived s r s'"
proof -
  obtain u v where "took_over s u s1" "arrivals (unat (srv_maxPacketSize s)) u = []"
    "took_over s1 v s'" "srv_maxPacketSize s1 = srv_maxPacketSize s"
    "case r of Inl e \<Rightarrow> e = Blocked \<and> inbox s' = [] \<and> arrivals (unat (srv_maxPacketSize s1)) v = []
    | Inr (None, left) \<Rightarrow> (left \<longrightarrow> sigint_set s') \<and> arrivals (unat (srv_maxPacketSize s1)) v = []
    | Inr (Some x, left) \<Rightarrow> arrivals (unat (srv_maxPacketSize s1)) v = [x]"
    using assms by (auto simp: arrived_def took_over_def)
  then show ?thesis
    unfolding arrived_def
    by (intro exI [of _ "u @ v"]) (auto dest: took_over_trans split: sum.splits option.splits)
qed

lemma arrived_one:
  assumes "took_over s [e] s'" "b \<longrightarrow> sigint_set s'"
  shows "arrived s (Inr (case e of
      Datagram sender d \<Rightarrow> Some (sender, take (unat (srv_maxPacketSize s)) d) | _ \<Rightarrow> None, b)) s'"
  using assms by (cases e) (auto simp: arrived_def intro!: exI [of _ "[e]"])

lemma arrived_nothing:
  "loads s \<le> n \<Longrightarrow> b \<longrightarrow> sigint_set (s\<lparr>loads := n\<rparr>) \<Longrightarrow> arrived s (Inr (None, b)) (s\<lparr>loads := n\<rparr>)"
  unfolding arrived_def by (intro exI [of _ "[]"]) (simp add: took_over_def)

lemma sigint_set_loads: "sigint_set s \<Longrightarrow> loads s \<le> n \<Longrightarrow> sigint_set (s\<lparr>loads := n\<rparr>)"
  by (auto simp: sigint_set_def split: option.splits)

lemma sigint_set_inbox [simp]: "sigint_set (s\<lparr>inbox := evs\<rparr>) = sigint_set s"
  by (simp add: sigint_set_def split: option.splits)

lemma wlp_UdpServer_Receive:
  "wlp UdpServer_Receive Q s =
     (let s1 = s\<lparr>loads := Suc (loads s)\<rparr> in
      if sigint_set s then Q (Inr None) s1 else wlp server_recvfrom Q s1)"
  unfolding UdpServer_Receive_def by (simp add: Let_def del: wlp_server_recvfrom)

lemma listen_round_spec:
  "wlp (listen_round a) (\<lambda>r s'. arrived s r s' \<and> (case r of
     Inl e \<Rightarrow> True | Inr (x, left) \<Rightarrow> left \<or> length (inbox s') < length (inbox s))) s"
proof (cases "sigint_set s")
  case True
  then show ?thesis
    using arrived_nothing [of s "Suc (Suc (loads s))" True]
      sigint_set_loads [of s "Suc (loads s)"] sigint_set_loads [of s "Suc (Suc (loads s))"]
    by (simp add: listen_round_def wlp_UdpServer_Receive)
next
  case False
  then show ?thesis
  proof (cases "inbox s")
    case Nil
    then have "arrived s (Inl Blocked) (s\<lparr>loads := Suc (loads s)\<rparr>)"
      unfolding arrived_def by (intro exI [of _ "[]"]) (simp add: took_over_def)
    then show ?thesis
      using Nil False by (simp add: listen_round_def wlp_UdpServer_Receive)
  next
    case (Cons e rest)
    let ?s = "s\<lparr>inbox := rest, loads := Suc (Suc (loads s))\<rparr>"
    let ?b = "sigint_set (s\<lparr>loads := Suc (loads s)\<rparr>)"
    have "?b \<longrightarrow> sigint_set ?s"
      by (auto simp: sigint_set_def split: option.splits)
    moreover have "took_over s [e] (s\<lparr>loads := Suc (loads s), inbox := rest\<rparr>)" "took_over s [e] ?s"
      using Cons by (simp_all add: took_over_def)
    ultimately show ?thesis
      using False Cons arrived_one [of s e "s\<lparr>loads := Suc (loads s), inbox := rest\<rparr>" False]
        arrived_one [of s e ?s ?b]
      by (cases e) (simp_all add: listen_round_def wlp_UdpServer_Receive)
  qed
qed


text \<open>The size that was set last limits what is received.\<close>

lemma UdpServer_ChangeMaxPacketSize_limit:
  assumes "sigint_at s = None" "inbox s = Datagram a d # rest"
  shows "wlp (seq (UdpServer_ChangeMaxPacketSize n) UdpServer_Receive)
    (\<lambda>r s'. r = Inr (Some (a, take (unat n) d)) \<and> inbox s' = rest) s"
  using assms by (simp add: UdpServer_ChangeMaxPacketSize_def wlp_UdpServer_Receive sigint_set_def Let_def)

text \<open>The inner loop ends after finitely many events, and with \<open>break\<close> if nothing came.\<close>

lemma took_over_refl [simp]: "took_over s [] s"
  by (simp add: took_over_def)

lemma arrived_refl: "arrived s (Inr (None, False)) s"
  unfolding arrived_def by (intro exI [of _ "[]"]) simp

lemma listen_spec:
  "wlp (while_m listen_guard listen_round (None, False)) (\<lambda>r s'. arrived s r s' \<and> (case r of
     Inl e \<Rightarrow> True | Inr (x, left) \<Rightarrow> x = None \<longrightarrow> left)) s"
proof (rule wlp_while [where I = "\<lambda>a s'. arrived s (Inr a) s'"], goal_cases)
  case 1
  show ?case by (rule arrived_refl)
next
  case (2 a s1)
  then have a: "arrived s (Inr (None, False)) s1" by (cases a) (simp add: listen_guard_def)
  show ?case
    by (rule wlp_mono [OF listen_round_spec]) (auto intro: arrived_step [OF a] split: sum.splits)
next
  case (3 a s1)
  then show ?case by (cases a) (auto simp: listen_guard_def)
qed

lemma returns_UdpServer_Receive [simp]: "returns UdpServer_Receive s"
  by (simp add: UdpServer_Receive_def server_recvfrom_def returns_def sigint_load_def bnd_def ret_def
      split: list.splits)

lemma returns_listen_round: "returns (listen_round a) s"
  unfolding listen_round_def by (intro returns_intros) simp_all

lemma returns_listen [simp]: "returns (while_m listen_guard listen_round a) s"
proof (rule returns_while [where I = "\<lambda>_ _. True"
      and f = "\<lambda>a s. if snd a then 0 else Suc (length (inbox s))"], goal_cases)
  case (2 a s)
  then have "\<not> snd a" by (cases a) (simp add: listen_guard_def)
  then show ?case
    by (auto simp: returns_listen_round split: sum.splits intro!: wlp_mono [OF listen_round_spec])
qed simp

text \<open>
  The outer loop: one thread for each datagram, in the order of arrival; with SIGINT the last one
  received may have none.
\<close>

definition all_served :: "tftp_server \<Rightarrow> 'a outcome \<Rightarrow> tftp_server \<Rightarrow> bool" where
  "all_served s r s' \<longleftrightarrow> (\<exists>used extra. inbox s = used @ extra @ inbox s'
      \<and> client_threads s' = client_threads s @ arrivals (unat (srv_maxPacketSize s)) used
      \<and> sigint_at s' = sigint_at s
      \<and> (case r of
           Inl e \<Rightarrow> e = Blocked \<and> inbox s' = [] \<and> arrivals (unat (srv_maxPacketSize s)) extra = []
         | Inr _ \<Rightarrow> sigint_set s' \<and> length (arrivals (unat (srv_maxPacketSize s)) extra) \<le> 1))"

definition serving :: "tftp_server \<Rightarrow> tftp_server \<Rightarrow> bool" where
  "serving s s' \<longleftrightarrow> (\<exists>used. inbox s = used @ inbox s'
      \<and> client_threads s' = client_threads s @ arrivals (unat (srv_maxPacketSize s)) used
      \<and> srv_maxPacketSize s' = srv_maxPacketSize s \<and> sigint_at s' = sigint_at s)"

lemma serving_refl [simp]: "serving s s"
  unfolding serving_def by (intro exI [of _ "[]"]) simp

lemma serving_stop:
  assumes "serving s s1" "took_over s1 v s'" "length (arrivals (unat (srv_maxPacketSize s)) v) \<le> 1" "sigint_set s'"
  shows "all_served s (Inr x) s'"
proof -
  obtain used where "inbox s = used @ inbox s1"
    "client_threads s1 = client_threads s @ arrivals (unat (srv_maxPacketSize s)) used"
    "srv_maxPacketSize s1 = srv_maxPacketSize s" "sigint_at s1 = sigint_at s"
    using assms(1) by (auto simp: serving_def)
  with assms(2-) show ?thesis
    unfolding all_served_def took_over_def by (intro exI [of _ used] exI [of _ v]) simp
qed

lemma serving_blocked:
  assumes "serving s s1" "took_over s1 v s'" "arrivals (unat (srv_maxPacketSize s)) v = []" "inbox s' = []"
  shows "all_served s (Inl Blocked) s'"
proof -
  obtain used where "inbox s = used @ inbox s1"
    "client_threads s1 = client_threads s @ arrivals (unat (srv_maxPacketSize s)) used"
    "srv_maxPacketSize s1 = srv_maxPacketSize s" "sigint_at s1 = sigint_at s"
    using assms(1) by (auto simp: serving_def)
  with assms(2-) show ?thesis
    unfolding all_served_def took_over_def by (intro exI [of _ used] exI [of _ v]) simp
qed

lemma serving_started:
  assumes "serving s s1" "took_over s1 v s'" "arrivals (unat (srv_maxPacketSize s)) v = [x]"
  shows "serving s (s'\<lparr>client_threads := client_threads s' @ [x]\<rparr>)"
proof -
  obtain used where "inbox s = used @ inbox s1"
    "client_threads s1 = client_threads s @ arrivals (unat (srv_maxPacketSize s)) used"
    "srv_maxPacketSize s1 = srv_maxPacketSize s" "sigint_at s1 = sigint_at s"
    using assms(1) by (auto simp: serving_def)
  with assms(2-) show ?thesis
    unfolding serving_def took_over_def by (intro exI [of _ "used @ v"]) simp
qed

lemma took_over_load: "took_over s1 v s' \<Longrightarrow> took_over s1 v (s'\<lparr>loads := Suc (loads s')\<rparr>)"
  by (simp add: took_over_def)

lemma took_over_of_load: "took_over (s1\<lparr>loads := Suc (loads s1)\<rparr>) v s' \<Longrightarrow> took_over s1 v s'"
  by (simp add: took_over_def)

lemma run_round_spec:
  assumes I: "serving s s1"
  shows "wlp (run_round a) (\<lambda>r s'. case r of
      Inl e \<Rightarrow> all_served s (Inl e) s'
    | Inr stop \<Rightarrow> if stop then all_served s (Inr ()) s'
        else serving s s' \<and> length (inbox s') < length (inbox s1)) s1"
    (is "wlp _ ?Q s1")
proof -
  let ?s1 = "s1\<lparr>loads := Suc (loads s1)\<rparr>"
  have lim: "srv_maxPacketSize s1 = srv_maxPacketSize s" using I by (auto simp: serving_def)
  have after: "wlp (bnd sigint_load (\<lambda>sigint'. if sigint' then ret True else
        (case received of None \<Rightarrow> stop_with (Undefined ''sender_address is not initialised'')
          | Some thread \<Rightarrow> seq (modify (\<lambda>s. s\<lparr>client_threads := client_threads s @ [thread]\<rparr>)) (ret False)))) ?Q s'"
    if came: "arrived ?s1 (Inr (received, left)) s'" "received = None \<longrightarrow> left" for received left s'
  proof -
    obtain v where v: "took_over s1 v s'"
        "case received of None \<Rightarrow> sigint_set s' \<and> arrivals (unat (srv_maxPacketSize s)) v = []
         | Some x \<Rightarrow> arrivals (unat (srv_maxPacketSize s)) v = [x]"
      using came by (cases received) (auto simp: arrived_def lim dest: took_over_of_load)
    have len: "length (arrivals (unat (srv_maxPacketSize s)) v) \<le> 1"
      using v(2) by (auto split: option.splits)
    note took = took_over_load [OF v(1)]
    show ?thesis
    proof (cases "sigint_set s'")
      case True
      then show ?thesis using serving_stop [OF I took len sigint_set_mono] by simp
    next
      case False
      then obtain x where x: "received = Some x" "arrivals (unat (srv_maxPacketSize s)) v = [x]"
        using v(2) by (auto split: option.splits)
      then have "v \<noteq> []" by auto
      then have "length (inbox s') < length (inbox s1)" using v(1) by (auto simp: took_over_def)
      with False x serving_started [OF I took x(2)] show ?thesis by simp
    qed
  qed
  have blocked: "all_served s (Inl e) s'" if "arrived ?s1 (Inl e) s'" for e s'
    using that serving_blocked [OF I] by (auto simp: arrived_def lim dest: took_over_of_load)
  show ?thesis
  proof (cases "sigint_set s1")
    case True
    then show ?thesis
      using serving_stop [OF I took_over_loads _ sigint_set_mono] by (simp add: run_round_def)
  next
    case False
    show ?thesis
      unfolding run_round_def wlp_bnd [of sigint_load] wlp_sigint_load sum.case if_not_P [OF False]
        wlp_bnd [of "while_m _ _ _"]
    proof (rule wlp_mono [OF listen_spec], goal_cases)
      case (1 r s')
      then show ?case
      proof (cases r)
        case (Inl e)
        with 1 blocked show ?thesis by simp
      next
        case (Inr x)
        obtain received left where x: "x = (received, left)" by (cases x)
        show ?thesis
          unfolding Inr x sum.case prod.case by (rule after [where left = left]) (use 1 Inr x in simp_all)
      qed
    qed
  qed
qed

lemma TftpServer_listen_spec: "wlp TftpServer_listen (all_served s) s"
  unfolding TftpServer_listen_def wlp_seq
proof (rule wlp_while [where I = "\<lambda>a s'. if a then all_served s (Inr ()) s' else serving s s'"], goal_cases)
  case 1
  show ?case by simp
next
  case (2 a s1)
  then have "serving s s1" by (simp add: run_guard_def)
  then show ?case
    by (rule wlp_mono [OF run_round_spec]) (auto split: sum.splits if_splits)
next
  case (3 a s1)
  then show ?case by (simp add: run_guard_def)
qed

lemma returns_run_round: "returns (run_round a) s"
  unfolding run_round_def by (intro returns_intros) simp_all

lemma returns_TftpServer_listen: "returns TftpServer_listen s"
  unfolding TftpServer_listen_def
proof (rule returns_seqI)
  show "returns (while_m run_guard run_round False) s"
  proof (rule returns_while [where I = "\<lambda>a s'. a \<or> serving s' s'" and f = "\<lambda>a s'. if a then 0 else Suc (length (inbox s'))"],
      goal_cases)
    case (2 a s1)
    then have "serving s1 s1" by (simp add: run_guard_def)
    with 2 show ?case
      by (auto simp: returns_run_round run_guard_def split: sum.splits if_splits
          intro!: wlp_mono [OF run_round_spec [of s1 s1]])
  qed simp
qed simp

section \<open>Sessions\<close>

text \<open>
  No exception leaves a thread: \<open>StartCommsWithClient\<close> catches what the handler rethrows after its
  report.
\<close>

lemma StartCommsWithClient_spec:
  assumes "StartCommsWithClient socket_ok w sender root raw = Some (r, s')"
  obtains "\<not> socket_ok" "r = Inr ()" "s' = ClientHandler_ctor w sender root"
    | r' where "FollowOnIntroPacket raw (ClientHandler_ctor w sender root) = Some (r', s')"
      "\<And>e. r \<noteq> Inl (Raise e)"
  using assms
  by (auto simp: StartCommsWithClient_def UdpClient_ctor_def try_catch_def prog_defs
      split: option.splits sum.splits stop.splits if_splits)

lemma StartCommsWithClient_no_socket:
  "StartCommsWithClient False w sender root raw = Some (Inr (), ClientHandler_ctor w sender root)"
  by (simp add: StartCommsWithClient_def UdpClient_ctor_def try_catch_def prog_defs)

lemma StartCommsWithClient_contained:
  assumes "StartCommsWithClient socket_ok w sender root raw = Some (r, s')"
  shows "contained (ClientHandler_ctor w sender root) raw s'"
  using assms by (elim StartCommsWithClient_spec) (simp_all add: wlpD [OF FollowOnIntroPacket_contained])

lemma StartCommsWithClient_preserved:
  assumes "StartCommsWithClient socket_ok w sender root raw = Some (r, s')" "sigint_at w = None"
  shows "preserved (fsys w) (fsys s')"
  using wlpD [OF FollowOnIntroPacket_preserved, of "ClientHandler_ctor w sender root" raw] assms
  by (elim StartCommsWithClient_spec) (simp_all add: ClientHandler_ctor_def)

text \<open>Every thread ends, except perhaps for a read request that asks for the size.\<close>

definition measures :: "bytes \<Rightarrow> bool" where
  "measures raw \<longleftrightarrow> (case (GetOpcodeFromRaw raw, ReadWritePacket_ctor_raw raw) of
     (Inr opc, Inr p) \<Rightarrow> opc = RRQ \<and> TSIZE \<in> set (map opt_name (rw_options p)) | _ \<Rightarrow> False)"

lemma returns_FollowOnIntroPacket:
  assumes "\<not> measures raw"
  shows "returns (FollowOnIntroPacket raw) s"
proof (cases "GetOpcodeFromRaw raw")
  case (Inl e)
  then show ?thesis by (simp add: FollowOnIntroPacket_def returns_send_to_client)
next
  case (Inr opc)
  have "returns (handler_of opc raw) s"
    using assms Inr
    by (auto simp: handler_of_def measures_def intro!: returns_FollowOnRRQ) (metis image_eqI)
  then show ?thesis
    using FollowOnIntroPacket_result [OF Inr] by (auto simp: returns_iff)
qed

lemma returns_StartCommsWithClient:
  assumes "\<not> measures raw"
  shows "\<exists>r s'. StartCommsWithClient socket_ok w sender root raw = Some (r, s')"
proof -
  have "returns (try_catch (seq (lift_exn (UdpClient_ctor socket_ok)) (FollowOnIntroPacket raw)) (\<lambda>e. skip))
      (ClientHandler_ctor w sender root)"
    by (intro returns_intros returns_FollowOnIntroPacket [OF assms]) simp_all
  then show ?thesis by (simp add: returns_iff StartCommsWithClient_def)
qed

text \<open>
  The system: the threads that have been started and not yet run, and the files. A session runs in
  a world of its own (its socket, its part of the network, its view of SIGINT), with the files as
  they are; \<open>interrupts\<close> says whether SIGINT may come.
\<close>

inductive server_step ::
  "bool \<Rightarrow> string \<Rightarrow> (sockaddr \<times> bytes) list \<times> filesystem \<Rightarrow> (sockaddr \<times> bytes) list \<times> filesystem \<Rightarrow> bool"
  for interrupts :: bool and root :: string where
  request_arrives: "server_step interrupts root (threads, fs) (threads @ [(sender, d)], fs)"
| session_runs:
    "fsys w = fs \<Longrightarrow> \<not> interrupts \<longrightarrow> sigint_at w = None \<Longrightarrow>
     StartCommsWithClient socket_ok w sender root d = Some (r, s') \<Longrightarrow>
     server_step interrupts root (threads @ (sender, d) # threads', fs) (threads @ threads', fsys s')"

abbreviation server_runs ::
  "bool \<Rightarrow> string \<Rightarrow> (sockaddr \<times> bytes) list \<times> filesystem \<Rightarrow> (sockaddr \<times> bytes) list \<times> filesystem \<Rightarrow> bool" where
  "server_runs interrupts root \<equiv> (server_step interrupts root)\<^sup>*\<^sup>*"

definition below :: "filesystem \<Rightarrow> string \<Rightarrow> path \<Rightarrow> bool" where
  "below fs dir q \<longleftrightarrow> take (length (canonical_of fs dir)) q = canonical_of fs dir"

lemma below_iff: "below fs dir q \<longleftrightarrow> (\<exists>r. q = canonical_of fs dir @ r)"
  by (auto simp: below_def) (metis append_take_drop_id)

definition only_below :: "string \<Rightarrow> filesystem \<Rightarrow> filesystem \<Rightarrow> bool" where
  "only_below dir fs fs' \<longleftrightarrow> canonical_of fs' = canonical_of fs
     \<and> (\<forall>q. \<not> below fs dir q \<longrightarrow> nodes fs' q = nodes fs q)"

lemma only_below_trans: "only_below dir fs1 fs2 \<Longrightarrow> only_below dir fs2 fs3 \<Longrightarrow> only_below dir fs1 fs3"
  by (simp add: only_below_def below_def)

lemma server_step_only_below: "server_step b root x y \<Longrightarrow> only_below root (snd x) (snd y)"
proof (induction rule: server_step.induct)
  case (session_runs w fs socket_ok sender d r s' threads threads')
  have "contained (ClientHandler_ctor w sender root) d s'"
    using session_runs(3) by (rule StartCommsWithClient_contained)
  then show ?case
    using session_runs(1)
    by (auto simp: contained_def only_below_def below_iff ClientHandler_ctor_def
        dest: isFilePathUnderDirectory_sound)
qed (simp add: only_below_def)

lemma server_step_preserved: "server_step False root x y \<Longrightarrow> preserved (snd x) (snd y)"
  by (induction rule: server_step.induct) (auto dest: StartCommsWithClient_preserved)

lemma server_runs_only_below:
  "server_runs b root (threads, fs) (threads', fs') \<Longrightarrow> only_below root fs fs'"
proof (induction "(threads', fs')" arbitrary: threads' fs' rule: rtranclp_induct)
  case base
  then show ?case by (simp add: only_below_def)
next
  case (step y)
  then show ?case using server_step_only_below [OF step(2)] by (cases y) (auto intro: only_below_trans)
qed

lemma server_runs_preserved:
  "server_runs False root (threads, fs) (threads', fs') \<Longrightarrow> preserved fs fs'"
proof (induction "(threads', fs')" arbitrary: threads' fs' rule: rtranclp_induct)
  case (step y)
  then show ?case using server_step_preserved [OF step(2)] by (cases y) (auto intro: preserved_trans)
qed simp

end
