(* ===== verification/CommandLine.thy ===== *)
theory CommandLine
  imports Upload Download ServerLoop
begin

text \<open>
  src/tftp-client/main.cpp and src/tftp-server/main.cpp: the command lines and the exit codes.
  \<open>argv\<close> is the list of the arguments after the name of the program, so \<open>argc\<close> is its length
  plus one; the value of a local variable that the loops change is an argument of the recursion.
  \<open>PrintUsageAndExit\<close> is \<open>Inl (Exit 1)\<close>. An exception that leaves \<open>main\<close> calls
  \<open>std::terminate\<close>.
\<close>

text \<open>
  \<open>atoi\<close>: 0 if there is no number; the standard leaves a value that is no \<open>int\<close> undefined.
\<close>

definition atoi :: "string \<Rightarrow> int outcome" where
  "atoi s = (case strto_integer s of
     None \<Rightarrow> Inr 0
   | Some (neg, n) \<Rightarrow>
       (let v = signed_value neg n in
        if - (2 ^ 31) \<le> v \<and> v < 2 ^ 31 then Inr v else Inl (Undefined ''atoi'')))"

lemma atoi_to_string: "0 \<le> i \<Longrightarrow> i < 2 ^ 31 \<Longrightarrow> atoi (to_string i) = Inr i"
  by (simp add: atoi_def strto_integer_to_string signed_value_def)

definition usage :: "'a outcome" where
  "usage = Inl (Exit 1)"

section \<open>The client\<close>

record client_line =
  ln_hostname :: string
  ln_port :: int
  ln_filepath :: string
  ln_dest_filepath :: string

definition empty_line :: client_line where
  "empty_line = \<lparr>ln_hostname = [], ln_port = -1, ln_filepath = [], ln_dest_filepath = []\<rparr>"

text \<open>The loop over the arguments; an argument that is no option is skipped.\<close>

fun parse_client_line :: "string list \<Rightarrow> client_line \<Rightarrow> client_line outcome" where
  "parse_client_line [] ln = Inr ln"
| "parse_client_line (arg # rest) ln =
     (if arg = ''-h'' then
        (case rest of [] \<Rightarrow> usage
         | v # rest1 \<Rightarrow> parse_client_line rest1 (ln\<lparr>ln_hostname := v\<rparr>))
      else if arg = ''-p'' then
        (case rest of [] \<Rightarrow> usage
         | v # rest1 \<Rightarrow>
             (case atoi v of Inl e \<Rightarrow> Inl e
              | Inr n \<Rightarrow> parse_client_line rest1 (ln\<lparr>ln_port := n\<rparr>)))
      else if arg = ''-f'' then
        (case rest of [] \<Rightarrow> usage
         | v # rest1 \<Rightarrow> parse_client_line rest1 (ln\<lparr>ln_filepath := v\<rparr>))
      else if arg = ''-t'' then
        (case rest of [] \<Rightarrow> usage
         | v # rest1 \<Rightarrow> parse_client_line rest1 (ln\<lparr>ln_dest_filepath := v\<rparr>))
      else parse_client_line rest ln)"

definition FILEPATH_MAX_LENGTH :: nat where
  "FILEPATH_MAX_LENGTH = 500"

definition client_args_of_line :: "client_line \<Rightarrow> tftp_client_args outcome" where
  "client_args_of_line ln =
     (if ln_hostname ln = [] \<or> ln_dest_filepath ln = [] then usage
      else if ln_filepath ln = [] \<and> length (ln_filepath ln) > FILEPATH_MAX_LENGTH then Inl (Exit 1)
      else
        (case Option_ctor ''timeout'' ''255'' of
           Inl e \<Rightarrow> Inl Terminate
         | Inr timeout \<Rightarrow>
             Inr \<lparr>arg_hostname = ln_hostname ln,
                  arg_port = (if ln_port ln = -1 then 69 else ln_port ln),
                  arg_filepath = ln_filepath ln, arg_dest_filepath = ln_dest_filepath ln,
                  arg_mode = (if ln_filepath ln = [] then WRITE else READ),
                  arg_file_mode = OCTET, arg_options = [timeout]\<rparr>))"

definition client_command_line :: "string list \<Rightarrow> tftp_client_args outcome" where
  "client_command_line argv = (case parse_client_line argv empty_line of
     Inl e \<Rightarrow> Inl e | Inr ln \<Rightarrow> client_args_of_line ln)"

text \<open>The rest of \<open>main\<close>; the constructor is outside of the \<open>try\<close> block.\<close>

definition client_main :: "bool \<Rightarrow> (string \<Rightarrow> 32 word option) \<Rightarrow> (tftp_client, int) prog" where
  "client_main socket_ok resolve =
     seq (try_catch (TftpClient_ctor socket_ok resolve) (\<lambda>e. stop_with Terminate))
         (try_catch (seq Client_run (ret 0)) (\<lambda>e. ret 1))"

section \<open>The server\<close>

fun parse_server_line :: "string list \<Rightarrow> int \<times> string \<Rightarrow> (int \<times> string) outcome" where
  "parse_server_line [] a = Inr a"
| "parse_server_line (arg # rest) (port, root) =
     (if arg = ''-p'' then
        (case rest of [] \<Rightarrow> usage
         | v # rest1 \<Rightarrow>
             (case atoi v of Inl e \<Rightarrow> Inl e | Inr n \<Rightarrow> parse_server_line rest1 (n, root)))
      else parse_server_line rest (port, arg))"

definition ParseCommandLine :: "string list \<Rightarrow> (int \<times> string) outcome" where
  "ParseCommandLine argv =
     (let argc = Suc (length argv) in
      if argc < 3 \<or> argc > 4 then usage
      else
        (case parse_server_line argv (69, []) of
           Inl e \<Rightarrow> Inl e
         | Inr (port, root) \<Rightarrow> if root = [] then usage else Inr (port, root)))"

definition server_main :: "(nat \<Rightarrow> bool) \<Rightarrow> (tftp_server, int) prog" where
  "server_main running = try_catch (seq (TftpServer_run running) (ret 0)) (\<lambda>e. ret 1)"

text \<open>
  The process from its command line to its exit code; \<open>TftpServer\<close> is constructed outside of the
  \<open>try\<close> block.
\<close>

definition server_process :: "(nat \<Rightarrow> bool) \<Rightarrow> bool \<Rightarrow> (16 word \<Rightarrow> bool) \<Rightarrow> world \<Rightarrow> string list \<Rightarrow> int outcome option" where
  "server_process running socket_ok bind_ok w argv =
     (case ParseCommandLine argv of
        Inl e \<Rightarrow> Some (Inl e)
      | Inr (port, root) \<Rightarrow>
          (case UdpServer_ctor socket_ok bind_ok port of
             Inl e \<Rightarrow> Some (Inl Terminate)
           | Inr _ \<Rightarrow> map_option fst (server_main running (TftpServer_ctor w port root))))"

section \<open>Facts\<close>

text \<open>How the server ends when the loop has ended with \<open>r\<close> in \<open>s'\<close>.\<close>

definition server_result :: "(nat \<Rightarrow> bool) \<Rightarrow> unit outcome \<Rightarrow> tftp_server \<Rightarrow> int outcome" where
  "server_result running r s' = (case r of
     Inl e \<Rightarrow> Inl e
   | Inr _ \<Rightarrow> if \<exists>i < length (client_threads s'). running i then Inl (Killed ''SIGUSR1'') else Inr 0)"

lemma server_main_result:
  obtains r s' s'' where "TftpServer_listen s = Some (r, s')" "all_served s r s'"
    "server_main running s = Some (server_result running r s', s'')"
proof -
  obtain r s' where run: "TftpServer_listen s = Some (r, s')"
    using returns_TftpServer_listen [of s] unfolding returns_iff by blast
  have served: "all_served s r s'" using wlpD [OF TftpServer_listen_spec run] .
  have "\<exists>s''. server_main running s = Some (server_result running r s', s'')"
  proof (cases r)
    case (Inl e)
    then have "e = Blocked" using served by (auto simp: all_served_def)
    with Inl run show ?thesis
      by (simp add: server_main_def TftpServer_run_def server_result_def try_catch_def seq_def bnd_def)
  next
    case (Inr u)
    then have "sigint_set s'" using served by (auto simp: all_served_def)
    then show ?thesis
      using Inr run
      by (auto simp: server_main_def TftpServer_run_def signal_threads_def sigint_load_def server_result_def
          try_catch_def seq_def bnd_def ret_def gets_def stop_with_def skip_def list_ex_iff)
  qed
  with run served that show thesis by blast
qed

lemma parse_client_line_app:
  "parse_client_line argv ln = Inr ln' \<Longrightarrow> parse_client_line (argv @ argv') ln = parse_client_line argv' ln'"
  by (induction argv ln rule: parse_client_line.induct)
    (auto simp: usage_def split: if_splits list.splits sum.splits)

definition the_timeout :: tftp_option where
  "the_timeout = \<lparr>opt_name = TIMEOUT, opt_nameStr = ''timeout'', opt_value = ''255''\<rparr>"

lemma Option_ctor_timeout: "Option_ctor ''timeout'' ''255'' = Inr the_timeout"
  unfolding the_timeout_def by code_simp

lemma the_timeout_valid: "valid_option the_timeout"
  by code_simp

lemma client_args_of_line:
  "client_args_of_line ln = Inr a \<Longrightarrow> arg_hostname a \<noteq> [] \<and> arg_dest_filepath a \<noteq> []
     \<and> arg_file_mode a = OCTET \<and> arg_options a = [the_timeout]
     \<and> arg_mode a = (if arg_filepath a = [] then WRITE else READ)"
  by (auto simp: client_args_of_line_def usage_def Option_ctor_timeout split: if_splits)

lemma client_command_line_args:
  "client_command_line argv = Inr a \<Longrightarrow> arg_hostname a \<noteq> [] \<and> arg_dest_filepath a \<noteq> []
     \<and> arg_file_mode a = OCTET \<and> arg_options a = [the_timeout]
     \<and> arg_mode a = (if arg_filepath a = [] then WRITE else READ)"
  by (auto simp: client_command_line_def dest: client_args_of_line split: sum.splits)

text \<open>The client when its constructor has returned.\<close>

definition started_client :: "world \<Rightarrow> tftp_client_args \<Rightarrow> 32 word \<Rightarrow> tftp_client" where
  "started_client w a ip = (client_members w a)\<lparr>cl_timeout := 255, so_rcvtimeo := 255,
     server_address := \<lparr>sin_addr = ip, sin_port = word_of_int (arg_port a)\<rparr>\<rparr>"

lemma stoi_255: "stoi ''255'' = Inr 255"
  by code_simp

lemma TftpClient_ctor_started:
  assumes "arg_options a = [the_timeout]" "resolve (arg_hostname a) = Some ip"
  shows "TftpClient_ctor True resolve (client_members w a) = Some (Inr (), started_client w a ip)"
  using assms
  by (auto simp: TftpClient_ctor_def UdpClient_ctor_def SetupUdpClient_def client_members_def started_client_def the_timeout_def stoi_255
      bnd_run_simps run_simps seq_def bnd_run ChangeTimeout_def sto_exn_def prog_defs)

lemma returns_Client_run: "returns Client_run s"
proof -
  have "returns (client_report e) s" for e and s :: tftp_client
    unfolding client_report_def by (intro returns_intros) simp_all
  then show ?thesis
    unfolding Client_run_def by (intro returns_intros) (simp_all split: TftpMode.splits)
qed

lemma client_ok_started: "arg_options a = [the_timeout] \<Longrightarrow> client_ok (started_client w a ip)"
  using the_timeout_valid by (simp add: client_ok_def size_ok_def started_client_def client_members_def)

lemma TftpClient_ctor_unknown:
  assumes "arg_options a = [the_timeout]" "\<not> socket_ok \<or> resolve (arg_hostname a) = None"
  shows "\<exists>e s'. TftpClient_ctor socket_ok resolve (client_members w a) = Some (Inl (Raise e), s')"
  using assms
  by (auto simp: TftpClient_ctor_def UdpClient_ctor_def SetupUdpClient_def client_members_def the_timeout_def stoi_255
      bnd_run_simps run_simps seq_def bnd_run ChangeTimeout_def sto_exn_def prog_defs)

lemma client_main_result:
  assumes "client_command_line argv = Inr a"
  shows "case (if socket_ok then resolve (arg_hostname a) else None) of
      None \<Rightarrow> \<exists>s'. client_main socket_ok resolve (client_members w a) = Some (Inl Terminate, s')
    | Some ip \<Rightarrow> client_ok (started_client w a ip) \<and> (\<exists>r s'. Client_run (started_client w a ip) = Some (r, s')
        \<and> client_main socket_ok resolve (client_members w a) = Some (case r of
            Inr _ \<Rightarrow> Inr 0 | Inl (Raise e) \<Rightarrow> Inr 1 | Inl e \<Rightarrow> Inl e, s'))"
proof -
  have opts: "arg_options a = [the_timeout]" using client_command_line_args [OF assms] by simp
  show ?thesis
  proof (cases "if socket_ok then resolve (arg_hostname a) else None")
    case None
    then show ?thesis
      using TftpClient_ctor_unknown [of a socket_ok resolve w, OF opts]
      by (auto simp: client_main_def seq_def bnd_def try_catch_def stop_with_def split: if_splits)
  next
    case (Some ip)
    then have ok: "socket_ok" "resolve (arg_hostname a) = Some ip" by (auto split: if_splits)
    obtain r s' where run: "Client_run (started_client w a ip) = Some (r, s')"
      using returns_Client_run [of "started_client w a ip"] unfolding returns_iff by blast
    then show ?thesis
      using TftpClient_ctor_started [of a resolve ip w, OF opts ok(2)] client_ok_started [OF opts] ok
      by (auto simp: client_main_def seq_def bnd_def try_catch_def prog_defs split: sum.splits stop.splits)
  qed
qed

end
