(* ===== verification/SystemProperties.thy ===== *)
theory SystemProperties
  imports Examples ServerLoop CommandLine
begin

text \<open>
  The properties of the programs as wholes: the listening loop and the sessions it starts, and the
  command lines and exit codes of the two programs.
\<close>

section \<open>Listening\<close>

text \<open>
  C34. The listening loop always ends in the model, and starts one thread for each datagram it
  received, in the order of arrival, with the address of the sender and the datagram (cut to the
  size of the receive buffer). Without SIGINT it waits for ever when nothing more comes; with SIGINT it
  returns, and at most one datagram has been received for which there is no thread.
\<close>

theorem server_starts_threads: "\<exists>r s'. TftpServer_listen s = Some (r, s') \<and> all_served s r s'"
  using returns_TftpServer_listen [of s] wlpD [OF TftpServer_listen_spec [of s]] by (auto simp: returns_iff)



section \<open>Sessions\<close>

text \<open>
  Whatever requests arrive, and in whatever order the sessions run, with or without SIGINT: no
  path outside of the root directory is ever created, changed or deleted.
\<close>

theorem server_confined:
  assumes "server_runs interrupts root ([], fs) (threads, fs')" "\<not> below fs root q"
  shows "nodes fs' q = nodes fs q"
  using server_runs_only_below [OF assms(1)] assms(2) by (simp add: only_below_def)

text \<open>
  Without SIGINT, whatever requests arrive and in whatever order the sessions run: a file that
  exists keeps its content for ever.
\<close>

theorem server_never_overwrites:
  assumes "server_runs False root ([], fs) (threads, fs')" "nodes fs q = Some n"
  shows "nodes fs' q = Some n"
  using server_runs_preserved [OF assms(1)] assms(2) by (simp add: preserved_def)

text \<open>A run with a session in it.\<close>

lemma ex_session_runs:
  assumes "StartCommsWithClient socket_ok (ex_world evs) ex_client ''/srv'' d = Some (r, s')"
  shows "server_runs b ''/srv'' ([], ex_fs) ([], fsys s')"
proof -
  have "server_step b ''/srv'' ([], ex_fs) ([(ex_client, d)], ex_fs)"
    using request_arrives [of b "''/srv''" "[]" ex_fs ex_client d] by simp
  moreover have "server_step b ''/srv'' ([(ex_client, d)], ex_fs) ([], fsys s')"
    using session_runs [of "ex_world evs" ex_fs b, OF _ _ assms, of "[]" "[]"] by (simp add: ex_world_def)
  ultimately show ?thesis by simp
qed

definition ex_store :: read_write_packet where
  "ex_store = ex_request WRQ ''new'' []"

lemma ex_session_stores:
  obtains s' :: client_handler where
    "server_runs b ''/srv'' ([], ex_fs) ([], fsys s')"
proof -
  have "wf_request ex_store" "rw_opcode ex_store \<noteq> RRQ" "rw_options ex_store = []" by code_simp+
  then have "\<not> measures (ex_raw ex_store)"
    by (simp add: measures_def ex_parse split: sum.splits)
  then show ?thesis using that returns_StartCommsWithClient ex_session_runs by blast
qed

theorem server_confined_witness:
  "\<exists>fs'. server_runs True ''/srv'' ([], ex_fs) ([], fs')
     \<and> nodes fs' [''etc'', ''passwd''] = Some (FileN [42])"
proof -
  obtain s' :: client_handler where run: "server_runs True ''/srv'' ([], ex_fs) ([], fsys s')"
    by (rule ex_session_stores [where b = True])
  have "\<not> below ex_fs ''/srv'' [''etc'', ''passwd'']" by code_simp
  from server_confined [OF run this] have "nodes (fsys s') [''etc'', ''passwd''] = Some (FileN [42])"
    by (simp add: ex_fs_def)
  with run show ?thesis by blast
qed

theorem server_never_overwrites_witness:
  "\<exists>fs'. server_runs False ''/srv'' ([], ex_fs) ([], fs')
     \<and> nodes fs' [''srv'', ''hello''] = Some (FileN ex_content)"
proof -
  obtain s' :: client_handler where run: "server_runs False ''/srv'' ([], ex_fs) ([], fsys s')"
    by (rule ex_session_stores [where b = False])
  have "nodes ex_fs [''srv'', ''hello''] = Some (FileN ex_content)" by (simp add: ex_fs_def)
  with server_never_overwrites [OF run] run show ?thesis by blast
qed

section \<open>Command lines\<close>

text \<open>
  C40. The server from its command line to its exit code. With a port and a root directory, in
  either order, the process aborts if the socket cannot be created or bound to the port, taken
  modulo 65536 (the constructor is outside of the \<open>try\<close> block); otherwise it listens and starts a
  thread for each datagram until it sees SIGINT. Then it exits with 0 if no thread is running,
  and if one is, it is killed by its own SIGUSR1 instead of waiting for the thread. The form without a port, which the usage message and the README describe, is rejected.
\<close>

theorem server_exit_code:
  assumes "atoi port = Inr n" "root \<noteq> ''-p''" "root \<noteq> []" "argv = [''-p'', port, root] \<or> argv = [root, ''-p'', port]"
  shows "server_process running socket_ok bind_ok w [root] = Some (Inl (Exit 1))
    \<and> (if socket_ok \<and> bind_ok (word_of_int n)
       then \<exists>r s'. TftpServer_listen (TftpServer_ctor w n root) = Some (r, s')
         \<and> all_served (TftpServer_ctor w n root) r s'
         \<and> server_process running socket_ok bind_ok w argv = Some (server_result running r s')
       else server_process running socket_ok bind_ok w argv = Some (Inl Terminate))"
proof -
  have "ParseCommandLine argv = Inr (n, root)" "ParseCommandLine [root] = Inl (Exit 1)"
    using assms by (auto simp: ParseCommandLine_def usage_def Let_def)
  moreover obtain r s' s'' where "TftpServer_listen (TftpServer_ctor w n root) = Some (r, s')"
    "all_served (TftpServer_ctor w n root) r s'"
    "server_main running (TftpServer_ctor w n root) = Some (server_result running r s', s'')"
    by (rule server_main_result)
  ultimately show ?thesis by (auto simp: server_process_def UdpServer_ctor_def)
qed

theorem server_exit_code_witness:
  "server_process (\<lambda>i. True) True (\<lambda>p. p \<noteq> 6969) (ex_world []) [''/srv'', ''-p'', ''6969''] = Some (Inl Terminate)
   \<and> (\<exists>r. server_process (\<lambda>i. True) True (\<lambda>p. p = 6969) (ex_world []) [''/srv'', ''-p'', ''6969''] = Some r)"
proof -
  have "atoi ''6969'' = Inr 6969" by code_simp
  note result = server_exit_code [OF this, of "''/srv''" "[''/srv'', ''-p'', ''6969'']" "\<lambda>i. True" True]
  from result [of "\<lambda>p. p \<noteq> 6969" "ex_world []"] result [of "\<lambda>p. p = 6969" "ex_world []"]
  show ?thesis by auto
qed

text \<open>
  The command line of the client, printed from the values of its options and read back: any
  host and destination, with or without a port (69 if there is none), a download if there is a
  path and an upload if not.
\<close>

definition client_argv :: "string \<Rightarrow> int option \<Rightarrow> string \<Rightarrow> string \<Rightarrow> string list" where
  "client_argv host port filepath dest =
     [''-h'', host] @ (case port of None \<Rightarrow> [] | Some n \<Rightarrow> [''-p'', to_string n])
     @ (if filepath = [] then [] else [''-f'', filepath]) @ [''-t'', dest]"

theorem client_command_line_roundtrip:
  assumes "host \<noteq> []" "dest \<noteq> []" "0 \<le> (case port of None \<Rightarrow> 69 | Some n \<Rightarrow> n)"
    "(case port of None \<Rightarrow> 69 | Some n \<Rightarrow> n) < 2 ^ 31"
  shows "client_command_line (client_argv host port filepath dest) = Inr
    \<lparr>arg_hostname = host, arg_port = (case port of None \<Rightarrow> 69 | Some n \<Rightarrow> n),
     arg_filepath = filepath, arg_dest_filepath = dest,
     arg_mode = (if filepath = [] then WRITE else READ), arg_file_mode = OCTET,
     arg_options = [the_timeout]\<rparr>"
  using assms
  by (cases port) (auto simp: client_argv_def client_command_line_def client_args_of_line_def empty_line_def
      Option_ctor_timeout FILEPATH_MAX_LENGTH_def atoi_to_string)

theorem client_command_line_roundtrip_witness:
  "client_command_line [''-h'', ''host'', ''-p'', ''70'', ''-f'', ''hello'', ''-t'', ''copy''] = Inr
    \<lparr>arg_hostname = ''host'', arg_port = 70, arg_filepath = ''hello'', arg_dest_filepath = ''copy'',
     arg_mode = READ, arg_file_mode = OCTET, arg_options = [the_timeout]\<rparr>"
proof -
  have "to_string 70 = ''70''" by code_simp
  then show ?thesis
    using client_command_line_roundtrip [of "''host''" "''copy''" "Some 70" "''hello''"]
    by (simp add: client_argv_def)
qed

text \<open>
  C39. From an accepted command line the client aborts if there is no socket or the host is not
  known (the constructor is outside of the \<open>try\<close> block); otherwise the run starts in a state as the properties of the
  transfers ask for, ends, and the exit code is 0 exactly when the transfer succeeded and 1 when an
  exception left it.
\<close>

theorem client_exit_code:
  assumes "client_command_line argv = Inr a"
  shows "case (if socket_ok then resolve (arg_hostname a) else None) of
      None \<Rightarrow> \<exists>s'. client_main socket_ok resolve (client_members w a) = Some (Inl Terminate, s')
    | Some ip \<Rightarrow> client_ok (started_client w a ip) \<and> (\<exists>r s'. Client_run (started_client w a ip) = Some (r, s')
        \<and> client_main socket_ok resolve (client_members w a) = Some (case r of
            Inr _ \<Rightarrow> Inr 0 | Inl (Raise e) \<Rightarrow> Inr 1 | Inl e \<Rightarrow> Inl e, s'))"
  using client_main_result [OF assms] .

definition ex_line :: "string list" where
  "ex_line = [''-h'', ''host'', ''-f'', ''hello'', ''-t'', ''/srv/copy'']"

theorem client_exit_code_witness:
  "\<exists>a s' r s''. client_command_line ex_line = Inr a
     \<and> client_main True (\<lambda>_. None) (client_members (ex_world []) a) = Some (Inl Terminate, s')
     \<and> client_main True (\<lambda>_. Some 1) (client_members (ex_world [RecvFailure]) a) = Some (r, s'')"
proof -
  obtain a where a: "client_command_line ex_line = Inr a"
    by (simp add: ex_line_def client_command_line_def client_args_of_line_def empty_line_def
        Option_ctor_timeout FILEPATH_MAX_LENGTH_def)
  then show ?thesis
    using client_exit_code [OF a, of True "\<lambda>_. None" "ex_world []"]
      client_exit_code [OF a, of True "\<lambda>_. Some 1" "ex_world [RecvFailure]"]
    by auto
qed

end
