(* ===== verification/Threads.thy ===== *)
theory Threads
  imports ServerLoop
begin

text \<open>
  The sessions of the server as threads that interleave on the files they share. A thread is
  given by how far its handler is (\<open>phase\<close>); a step of it is one call of src/common/IO that reads
  or changes the file system, in the order in which \<open>FollowOnRRQ\<close> and \<open>FollowOnWRQ\<close> of
  src/tftp-server/ClientHandler.cpp make them, and a step of the server is a step of any thread
  or the arrival of a request. What decides when a thread goes on (the network, its timeouts) is
  left open, so every schedule is a run. Theory \<open>ThreadRefinement\<close> shows that the detailed
  handlers only make these steps.
\<close>

section \<open>Threads\<close>

text \<open>
  \<open>Asked\<close>: the request has been parsed. \<open>Found\<close>, \<open>Absent\<close>: \<open>FileExists\<close> has answered.
  \<open>Serving\<close>, \<open>Storing\<close>: the directory check was passed and the transfer goes on; \<open>Storing\<close> has not
  opened the file yet. \<open>Filling\<close>: the file is open, and these bytes have been written to it.
  \<open>Full\<close>: a write failed. \<open>Over\<close>: the thread has ended. \<open>Aborted\<close>: it has ended the process.
\<close>

datatype phase =
    Asked Opcode string
  | Found string
  | Absent string
  | Serving string
  | Storing string
  | Filling string bytes
  | Full string
  | Over
  | Aborted

definition asked :: "string \<Rightarrow> bytes \<Rightarrow> phase" where
  "asked root intro_packet =
     (case (GetOpcodeFromRaw intro_packet, ReadWritePacket_ctor_raw intro_packet) of
        (Inr opc, Inr p) \<Rightarrow>
          if opc = RRQ \<or> opc = WRQ then Asked opc (root @ ''/'' @ rw_filepath p) else Over
      | _ \<Rightarrow> Over)"

text \<open>
  A flushed write to an open file at the position \<open>pos\<close> of its stream: the number of bytes that
  were written, and the files. Each stream has a position of its own, and the file may have become
  shorter in between; the gap reads as zeros. Only what lies behind the end of the file takes space.
\<close>

definition write_at :: "filesystem \<Rightarrow> string \<Rightarrow> nat \<Rightarrow> bytes \<Rightarrow> nat \<times> filesystem" where
  "write_at fs filepath pos d =
     (let p = canonical_of fs filepath in
      case nodes fs p of
        Some (FileN c) \<Rightarrow>
          (let inside = min (length d) (length c - pos);
               w = take (inside + avail fs) d;
               c' = take pos (c @ replicate (pos - length c) 0) @ w @ drop (pos + length w) c
           in (length w, fs\<lparr>nodes := (nodes fs)(p := Some (FileN c')),
                            avail := avail fs - (length w - inside)\<rparr>))
      | _ \<Rightarrow> (length d, fs))"

text \<open>
  The file a thread stores, the one it has found absent and is going to store, and the one it
  deletes when it is interrupted.
\<close>

fun path_stored :: "phase \<Rightarrow> string option" where
  "path_stored (Storing f) = Some f"
| "path_stored (Filling f c) = Some f"
| "path_stored (Full f) = Some f"
| "path_stored _ = None"

fun path_claimed :: "phase \<Rightarrow> string option" where
  "path_claimed (Absent f) = Some f"
| "path_claimed ph = path_stored ph"

fun path_held :: "phase \<Rightarrow> string option" where
  "path_held (Serving f) = Some f"
| "path_held ph = path_stored ph"

text \<open>
  \<open>interrupted\<close> is \<open>CheckForSigintRRQ\<close> and \<open>CheckForSigintWRQ\<close>. \<open>ended\<close> is the return of the
  handler, or an exception: a failed check, a refused packet, a timeout, a file that cannot be opened.
\<close>

inductive session_step ::
  "bool \<Rightarrow> string \<Rightarrow> phase \<times> filesystem \<Rightarrow> phase \<times> filesystem \<Rightarrow> bool"
  for interrupts :: bool and root :: string where
  found: "FileExists fs f \<Longrightarrow> session_step interrupts root (Asked RRQ f, fs) (Found f, fs)"
| absent: "\<not> FileExists fs f \<Longrightarrow> session_step interrupts root (Asked WRQ f, fs) (Absent f, fs)"
| serving: "isFilePathUnderDirectory fs f root = Some True \<Longrightarrow>
    session_step interrupts root (Found f, fs) (Serving f, fs)"
| storing: "isFilePathUnderDirectory fs f root = Some True \<Longrightarrow>
    session_step interrupts root (Absent f, fs) (Storing f, fs)"
| opened: "open_write fs f = Some fs' \<Longrightarrow>
    session_step interrupts root (Storing f, fs) (Filling f [], fs')"
| written: "write_at fs f (length c) d = (length d, fs') \<Longrightarrow>
    session_step interrupts root (Filling f c, fs) (Filling f (c @ d), fs')"
| written_short: "write_at fs f (length c) d = (n, fs') \<Longrightarrow> n < length d \<Longrightarrow>
    session_step interrupts root (Filling f c, fs) (Full f, fs')"
| interrupted: "interrupts \<Longrightarrow> path_held ph = Some f \<Longrightarrow> DeleteFile fs f = Inr fs' \<Longrightarrow>
    session_step interrupts root (ph, fs) (Aborted, fs')"
| ended: "ph \<noteq> Over \<Longrightarrow> ph \<noteq> Aborted \<Longrightarrow> session_step interrupts root (ph, fs) (Over, fs)"

abbreviation session_runs ::
  "bool \<Rightarrow> string \<Rightarrow> phase \<times> filesystem \<Rightarrow> phase \<times> filesystem \<Rightarrow> bool" where
  "session_runs interrupts root \<equiv> (session_step interrupts root)\<^sup>*\<^sup>*"

inductive_cases session_stepE: "session_step interrupts root (ph, fs) (ph', fs')"

lemma session_two_steps:
  "session_step b root x y \<Longrightarrow> session_step b root y z \<Longrightarrow> session_runs b root x z"
  by (rule rtranclp_trans [OF r_into_rtranclp r_into_rtranclp])

text \<open>The two checks of each handler.\<close>

lemma checked_run:
  assumes "\<not> FileExists fs f" "isFilePathUnderDirectory fs f root = Some True"
  shows "session_runs b root (Asked WRQ f, fs) (Storing f, fs)"
  by (rule session_two_steps [OF absent [OF assms(1)] storing [OF assms(2)]])

lemma found_run:
  assumes "FileExists fs f" "isFilePathUnderDirectory fs f root = Some True"
  shows "session_runs b root (Asked RRQ f, fs) (Serving f, fs)"
  by (rule session_two_steps [OF found [OF assms(1)] serving [OF assms(2)]])

text \<open>The server: its threads in the order they were started, and the files.\<close>

inductive threads_step ::
  "bool \<Rightarrow> string \<Rightarrow> phase list \<times> filesystem \<Rightarrow> phase list \<times> filesystem \<Rightarrow> bool"
  for interrupts :: bool and root :: string where
  starts: "Aborted \<notin> set ts \<Longrightarrow> threads_step interrupts root (ts, fs) (ts @ [asked root raw], fs)"
| goes_on: "Aborted \<notin> set ts \<Longrightarrow> i < length ts \<Longrightarrow>
    session_step interrupts root (ts ! i, fs) (ph, fs') \<Longrightarrow>
    threads_step interrupts root (ts, fs) (ts[i := ph], fs')"

abbreviation threads_run ::
  "bool \<Rightarrow> string \<Rightarrow> phase list \<times> filesystem \<Rightarrow> phase list \<times> filesystem \<Rightarrow> bool" where
  "threads_run interrupts root \<equiv> (threads_step interrupts root)\<^sup>*\<^sup>*"

inductive_cases threads_stepE: "threads_step interrupts root (ts, fs) (ts', fs')"

section \<open>Writing at a position\<close>

text \<open>At the end of the file it is the append of the handlers' model.\<close>

lemma write_at_end:
  assumes "nodes fs (canonical_of fs f) = Some (FileN c)"
  shows "write_at fs f (length c) d = (length (take (avail fs) d), snd (append_file fs f d))"
  using assms by (simp add: write_at_def append_file_def Let_def)

lemma write_at_end_fits:
  assumes "nodes fs (canonical_of fs f) = Some (FileN c)" "length d \<le> avail fs"
  shows "write_at fs f (length c) d = (length d, fs\<lparr>nodes := (nodes fs)(canonical_of fs f \<mapsto> FileN (c @ d)),
    avail := avail fs - length d\<rparr>)"
  using assms by (simp add: write_at_end append_file_def Let_def)

lemma write_at_frame:
  assumes "write_at fs f pos d = (n, fs')"
  shows "canonical_of fs' = canonical_of fs" "q \<noteq> canonical_of fs f \<Longrightarrow> nodes fs' q = nodes fs q"
  using assms by (auto simp: write_at_def Let_def split: option.splits node.splits)

lemma write_at_changes: "write_at fs f pos d = (n, fs') \<Longrightarrow> nodes fs' q \<noteq> nodes fs q \<Longrightarrow> canonical_of fs f = q"
  using write_at_frame(2) by metis

section \<open>What a step changes\<close>

text \<open>Only the file the thread holds; without SIGINT, only one that it stores.\<close>

lemma path_stored_held: "path_stored ph = Some f \<Longrightarrow> path_held ph = Some f"
  by (cases ph) simp_all

lemma session_step_static:
  assumes "session_step b root (ph, fs) (ph', fs')"
  shows "canonical_of fs' = canonical_of fs"
  using assms by (auto elim!: session_stepE simp: open_write_static DeleteFile_static write_at_frame)

lemma session_step_changes:
  assumes "session_step b root (ph, fs) (ph', fs')" "nodes fs' q \<noteq> nodes fs q"
  shows "\<exists>f. path_held ph = Some f \<and> canonical_of fs f = q \<and> (b \<or> path_stored ph = Some f)"
  using assms
  by (auto elim!: session_stepE simp: open_write_static DeleteFile_nodes split: if_splits dest: write_at_changes)

lemma isFilePathUnderDirectory_static:
  "canonical_of fs' = canonical_of fs \<Longrightarrow>
   isFilePathUnderDirectory fs' f d = isFilePathUnderDirectory fs f d"
  by (simp add: isFilePathUnderDirectory_def)

text \<open>A thread holds a file only after it has passed the directory check.\<close>

definition admitted :: "string \<Rightarrow> filesystem \<Rightarrow> phase \<Rightarrow> bool" where
  "admitted root fs ph \<longleftrightarrow>
     (\<forall>f. path_held ph = Some f \<longrightarrow> isFilePathUnderDirectory fs f root = Some True)"

lemma admitted_asked [simp]: "admitted root fs (asked root' raw)"
  by (simp add: admitted_def asked_def split: sum.splits)

lemma session_step_admitted:
  assumes "session_step b root (ph, fs) (ph', fs')" "admitted root fs ph"
  shows "admitted root fs' ph'"
  using assms isFilePathUnderDirectory_static [OF session_step_static [OF assms(1)]]
  by (auto elim!: session_stepE simp: admitted_def)

lemma session_step_only_below:
  assumes "session_step b root (ph, fs) (ph', fs')" "admitted root fs ph"
  shows "only_below root fs fs'"
proof -
  have "nodes fs' q = nodes fs q" if "\<not> below fs root q" for q
    using that assms(2) session_step_changes [OF assms(1), of q]
    by (auto simp: admitted_def below_iff dest: isFilePathUnderDirectory_sound)
  then show ?thesis by (simp add: only_below_def session_step_static [OF assms(1)])
qed

section \<open>All threads\<close>

lemma threads_run_induct [consumes 1, case_names start step]:
  assumes "threads_run b root (ts0, fs0) (ts, fs)" "P ts0 fs0"
    "\<And>ts fs ts' fs'. P ts fs \<Longrightarrow> threads_step b root (ts, fs) (ts', fs') \<Longrightarrow> P ts' fs'"
  shows "P ts fs"
  using assms(1,2) by (induction "(ts, fs)" arbitrary: ts fs rule: rtranclp_induct) (auto intro: assms(3))

text \<open>What every thread satisfies, if a step of one keeps it and the others do not mind.\<close>

lemma threads_step_all:
  assumes "threads_step b root (ts, fs) (ts', fs')" "\<forall>ph \<in> set ts. P fs ph"
    "\<And>raw. P fs (asked root raw)"
    "\<And>ph ph'. session_step b root (ph, fs) (ph', fs') \<Longrightarrow> ph \<in> set ts \<Longrightarrow> P fs ph \<Longrightarrow> P fs' ph'"
    "\<And>ph. canonical_of fs' = canonical_of fs \<Longrightarrow> P fs ph \<Longrightarrow> P fs' ph"
  shows "\<forall>ph \<in> set ts'. P fs' ph"
  using assms(1)
proof (cases rule: threads_stepE [consumes 1, case_names starts goes_on])
  case (starts raw)
  then show ?thesis using assms(2,3) by simp
next
  case (goes_on i ph)
  then have "P fs' ph" using assms(2) by (intro assms(4) [OF goes_on(4)]) simp_all
  moreover have "\<forall>x \<in> set ts. P fs' x"
    using assms(2) by (auto intro: assms(5) session_step_static [OF goes_on(4)])
  ultimately show ?thesis
    using goes_on(1) by (auto dest!: set_update_subset_insert [THEN subsetD])
qed

text \<open>What a step does to the files.\<close>

lemma threads_step_files:
  assumes "threads_step b root (ts, fs) (ts', fs')"
  obtains "fs' = fs" | ph ph' where "ph \<in> set ts" "session_step b root (ph, fs) (ph', fs')"
  using assms by (cases rule: threads_stepE) (auto dest: nth_mem)

lemma threads_run_confined:
  assumes "threads_run b root ([], fs) (ts, fs')"
  shows "only_below root fs fs' \<and> (\<forall>ph \<in> set ts. admitted root fs' ph)"
  using assms
proof (induction rule: threads_run_induct)
  case start
  then show ?case by (simp add: only_below_def)
next
  case (step ts fs1 ts' fs2)
  have "only_below root fs1 fs2"
    using step(2)
  proof (cases rule: threads_step_files)
    case (2 ph ph')
    then show ?thesis using step(1) session_step_only_below by blast
  qed (simp add: only_below_def)
  moreover have "\<forall>ph \<in> set ts'. admitted root fs2 ph"
  proof (rule threads_step_all [OF step(2), where P = "admitted root"])
    fix ph assume "canonical_of fs2 = canonical_of fs1" "admitted root fs1 ph"
    then show "admitted root fs2 ph"
      by (simp add: admitted_def isFilePathUnderDirectory_def)
  next
    fix ph ph' assume "session_step b root (ph, fs1) (ph', fs2)" "admitted root fs1 ph"
    then show "admitted root fs2 ph'" by (rule session_step_admitted)
  qed (simp_all add: step(1))
  ultimately show ?case using only_below_trans [of root fs fs1 fs2] step(1) by simp
qed

text \<open>Without SIGINT, a file that no thread is storing stays as it is for ever.\<close>

definition claimed :: "filesystem \<Rightarrow> phase \<Rightarrow> path option" where
  "claimed fs ph = map_option (canonical_of fs) (path_claimed ph)"

lemma claimed_asked [simp]: "claimed fs (asked root raw) = None"
  by (simp add: claimed_def asked_def split: sum.splits)

lemma stored_claimed: "path_stored ph = Some f \<Longrightarrow> claimed fs ph = Some (canonical_of fs f)"
  by (cases ph) (simp_all add: claimed_def)

lemma session_step_claimed:
  assumes "session_step b root (ph, fs) (ph', fs')" "claimed fs ph \<noteq> Some q" "nodes fs q \<noteq> None"
  shows "claimed fs' ph' \<noteq> Some q"
  using assms session_step_static [OF assms(1)]
  by (auto elim!: session_stepE simp: claimed_def FileExists_def)

lemma threads_step_node:
  assumes "threads_step False root (ts, fs) (ts', fs')" "\<forall>ph \<in> set ts. claimed fs ph \<noteq> Some q"
  shows "nodes fs' q = nodes fs q"
  using assms(1)
proof (cases rule: threads_step_files)
  case (2 ph ph')
  then show ?thesis
    using assms(2) session_step_changes [OF 2(2), of q] stored_claimed by blast
qed simp

lemma threads_run_keep:
  assumes "threads_run False root (ts, fs) (ts', fs')" "nodes fs q = Some n"
    "\<forall>ph \<in> set ts. claimed fs ph \<noteq> Some q"
  shows "nodes fs' q = Some n \<and> (\<forall>ph \<in> set ts'. claimed fs' ph \<noteq> Some q)"
  using assms(1)
proof (induction rule: threads_run_induct)
  case start
  show ?case using assms(2,3) by simp
next
  case (step ts fs1 ts' fs2)
  have "\<forall>ph \<in> set ts'. claimed fs2 ph \<noteq> Some q"
  proof (rule threads_step_all [OF step(2), where P = "\<lambda>fs ph. claimed fs ph \<noteq> Some q"])
    fix ph ph' assume "session_step False root (ph, fs1) (ph', fs2)" "claimed fs1 ph \<noteq> Some q"
    then show "claimed fs2 ph' \<noteq> Some q" by (rule session_step_claimed) (simp add: step(1))
  next
    fix ph assume "canonical_of fs2 = canonical_of fs1" "claimed fs1 ph \<noteq> Some q"
    then show "claimed fs2 ph \<noteq> Some q" by (simp add: claimed_def)
  qed (simp_all add: step(1))
  then show ?case using threads_step_node [OF step(2), of q] step(1) by simp
qed

section \<open>Uploads that do not meet\<close>

text \<open>
  No two threads are between the check that a file is absent and the end of its upload. While this
  is so, an open file holds exactly what its thread has written, under any schedule.
\<close>

definition exclusive :: "filesystem \<Rightarrow> phase list \<Rightarrow> bool" where
  "exclusive fs ts \<longleftrightarrow> (\<forall>i < length ts. \<forall>j < length ts.
     claimed fs (ts ! i) \<noteq> None \<and> claimed fs (ts ! i) = claimed fs (ts ! j) \<longrightarrow> i = j)"

abbreviation orderly_run ::
  "string \<Rightarrow> phase list \<times> filesystem \<Rightarrow> phase list \<times> filesystem \<Rightarrow> bool" where
  "orderly_run root \<equiv> (\<lambda>x y. threads_step False root x y \<and> exclusive (snd x) (fst x))\<^sup>*\<^sup>*"

definition intact :: "filesystem \<Rightarrow> phase \<Rightarrow> bool" where
  "intact fs ph \<longleftrightarrow> (\<forall>f c. ph = Filling f c \<longrightarrow> nodes fs (canonical_of fs f) = Some (FileN c))"

lemma write_at_appends:
  assumes "nodes fs (canonical_of fs f) = Some (FileN c)" "write_at fs f (length c) d = (length d, fs')"
  shows "nodes fs' (canonical_of fs f) = Some (FileN (c @ d))"
  using assms by (auto simp: write_at_def Let_def min_def split: if_splits)

lemma session_step_intact:
  assumes "session_step b root (ph, fs) (ph', fs')" "intact fs ph"
  shows "intact fs' ph'"
  using assms(1)
proof (cases rule: session_stepE [consumes 1, case_names found absent serving storing opened written])
  case (written f c d)
  then show ?thesis
    using assms(2) session_step_static [OF assms(1)] by (simp add: intact_def write_at_appends)
qed (auto simp: intact_def open_write_static)

lemma threads_step_intact:
  assumes "threads_step False root (ts, fs) (ts', fs')" "exclusive fs ts" "\<forall>ph \<in> set ts. intact fs ph"
  shows "\<forall>ph \<in> set ts'. intact fs' ph"
  using assms(1)
proof (cases rule: threads_stepE [consumes 1, case_names starts goes_on])
  case (starts raw)
  then show ?thesis using assms(3) by (auto simp: intact_def asked_def split: sum.splits)
next
  case (goes_on i ph)
  have "intact fs' (ts ! j)" if j: "j < length ts" "j \<noteq> i" for j
    unfolding intact_def
  proof (intro allI impI)
    fix f c assume f: "ts ! j = Filling f c"
    then have "claimed fs (ts ! j) = Some (canonical_of fs f)" by (simp add: claimed_def)
    then have "claimed fs (ts ! i) \<noteq> Some (canonical_of fs f)"
      using assms(2) j goes_on(3) unfolding exclusive_def by (metis option.distinct(1))
    then have "nodes fs' (canonical_of fs f) = nodes fs (canonical_of fs f)"
      using session_step_changes [OF goes_on(4)] stored_claimed by metis
    moreover have "intact fs (ts ! j)" using assms(3) j by simp
    ultimately show "nodes fs' (canonical_of fs' f) = Some (FileN c)"
      using f session_step_static [OF goes_on(4)] by (simp add: intact_def)
  qed
  moreover have "intact fs' ph"
    using assms(3) goes_on(3) by (intro session_step_intact [OF goes_on(4)]) simp
  ultimately have "intact fs' (ts' ! j)" if "j < length ts'" for j
    using that goes_on(1) by (cases "j = i") simp_all
  then show ?thesis by (simp add: all_set_conv_all_nth)
qed

lemma orderly_run_intact:
  assumes "orderly_run root ([], fs0) (ts, fs)"
  shows "\<forall>ph \<in> set ts. intact fs ph"
  using assms
proof (induction "(ts, fs)" arbitrary: ts fs rule: rtranclp_induct)
  case (step y)
  then show ?case using threads_step_intact by (cases y) auto
qed simp

section \<open>Uploads that meet\<close>

text \<open>A thread that goes on while the others wait.\<close>

lemma threads_step_thread:
  assumes "session_step b root (ph, fs) (ph', fs')" "Aborted \<notin> set (us @ vs)"
  shows "threads_step b root (us @ ph # vs, fs) (us @ ph' # vs, fs')"
proof -
  have "ph \<noteq> Aborted" using assms(1) by (auto elim: session_stepE)
  then show ?thesis
    using goes_on [of "us @ ph # vs" "length us" b root fs ph' fs'] assms by auto
qed

lemma threads_run_thread:
  assumes "session_runs b root (ph, fs) (ph', fs')" "Aborted \<notin> set (us @ vs)"
  shows "threads_run b root (us @ ph # vs, fs) (us @ ph' # vs, fs')"
  using assms(1)
proof (induction "(ph', fs')" arbitrary: ph' fs' rule: rtranclp_induct)
  case (step y)
  obtain ph1 fs1 where y: "y = (ph1, fs1)" by (cases y)
  have "threads_step b root (us @ ph1 # vs, fs1) (us @ ph' # vs, fs')"
    using step(2) assms(2) unfolding y by (rule threads_step_thread)
  with step(3) [OF y] show ?case by (rule rtranclp.rtrancl_into_rtrancl)
qed simp

text \<open>The space a file can have: what is free, and what opening it frees.\<close>

definition room :: "filesystem \<Rightarrow> string \<Rightarrow> nat" where
  "room fs f = avail fs + (case nodes fs (canonical_of fs f) of Some (FileN c) \<Rightarrow> length c | _ \<Rightarrow> 0)"

definition openable :: "filesystem \<Rightarrow> string \<Rightarrow> bool" where
  "openable fs f \<longleftrightarrow> may_open fs (canonical_of fs f) \<and> nodes fs (canonical_of fs f) \<noteq> Some DirN"

lemma open_write_room:
  "openable fs f \<Longrightarrow> \<exists>fs'. open_write fs f = Some fs' \<and> avail fs' = room fs f"
  by (auto simp: open_write_def openable_def room_def Let_def split: option.splits node.splits)

text \<open>An upload from its first block to its end, whatever the file holds by then.\<close>

lemma storing_run:
  assumes "openable fs f" "length d \<le> room fs f"
  obtains fs' where "session_runs b root (Storing f, fs) (Over, fs')"
    "canonical_of fs' = canonical_of fs" "nodes fs' (canonical_of fs f) = Some (FileN d)"
    "openable fs' f" "room fs' f = room fs f"
proof -
  let ?p = "canonical_of fs f"
  obtain fs1 where o: "open_write fs f = Some fs1" "avail fs1 = room fs f"
    using open_write_room [OF assms(1)] by blast
  note st = open_write_static [OF o(1)]
  let ?fs = "fs1\<lparr>nodes := (nodes fs1)(?p \<mapsto> FileN d), avail := avail fs1 - length d\<rparr>"
  have "write_at fs1 f (length []) d = (length d, ?fs)"
    using write_at_end_fits [of fs1 f "[]" d] assms(2) o(2) st by simp
  from written [OF this] have w: "session_step b root (Filling f [], fs1) (Filling f d, ?fs)" by simp
  have "session_step b root (Filling f d, ?fs) (Over, ?fs)" by (rule ended) simp_all
  with opened [OF o(1)] w have "session_runs b root (Storing f, fs) (Over, ?fs)"
    by (meson converse_rtranclp_into_rtranclp rtranclp.rtrancl_refl)
  moreover have "canonical_of ?fs = canonical_of fs" "nodes ?fs ?p = Some (FileN d)"
    "openable ?fs f" "room ?fs f = room fs f"
    using st assms o(2) by (simp_all add: openable_def room_def)
  ultimately show ?thesis by (rule that)
qed

text \<open>
  Two requests to write the same new file, both checked before the first block of either arrives.
\<close>

lemma both_checked_run:
  assumes "asked root raw1 = Asked WRQ f" "asked root raw2 = Asked WRQ f" "\<not> FileExists fs f"
    "isFilePathUnderDirectory fs f root = Some True"
  shows "threads_run b root ([], fs) ([Storing f, Storing f], fs)"
proof -
  note checked = checked_run [OF assms(3,4), of b]
  have "threads_run b root ([], fs) ([Asked WRQ f, Asked WRQ f], fs)"
    using starts [of "[]" b root fs raw1] starts [of "[Asked WRQ f]" b root fs raw2] assms(1,2)
    by (simp add: converse_rtranclp_into_rtranclp)
  also have "threads_run b root ([Asked WRQ f, Asked WRQ f], fs) ([Storing f, Asked WRQ f], fs)"
    using threads_run_thread [OF checked, of "[]" "[Asked WRQ f]"] by simp
  also have "threads_run b root ([Storing f, Asked WRQ f], fs) ([Storing f, Storing f], fs)"
    using threads_run_thread [OF checked, of "[Storing f]" "[]"] by simp
  finally show ?thesis .
qed

text \<open>The first of them goes on alone.\<close>

lemma first_stored_run:
  assumes "asked root raw1 = Asked WRQ f" "asked root raw2 = Asked WRQ f" "\<not> FileExists fs f"
    "isFilePathUnderDirectory fs f root = Some True" "session_runs b root (Storing f, fs) (ph, fs')"
  shows "threads_run b root ([], fs) ([ph, Storing f], fs')"
  using rtranclp_trans [OF both_checked_run [OF assms(1-4)]]
    threads_run_thread [OF assms(5), of "[]" "[Storing f]"] by simp

end
