(* ===== verification/ThreadRefinement.thy ===== *)
theory ThreadRefinement
  imports Threads "HOL-Library.Multiset"
begin

text \<open>
  The handlers of src/tftp-server/ClientHandler.cpp only make the steps of theory \<open>Threads\<close>: a run of
  a session, for any request and any network, is a run of its thread. Each operation of the handlers
  on the files is one step, and the phase it starts from is known from the writer of the session.
\<close>

section \<open>The phase of a session\<close>

text \<open>The thread that started in \<open>x\<close> can be in a phase that satisfies \<open>P\<close>, with the files of \<open>s\<close>.\<close>

definition at_phase ::
  "bool \<Rightarrow> string \<Rightarrow> phase \<times> filesystem \<Rightarrow> (phase \<Rightarrow> bool) \<Rightarrow> 'b world_scheme \<Rightarrow> bool" where
  "at_phase b root x P s \<longleftrightarrow> (b \<or> sigint_at s = None)
     \<and> (\<exists>ph. P ph \<and> session_runs b root x (ph, fsys s))"

abbreviation reached :: "bool \<Rightarrow> string \<Rightarrow> phase \<times> filesystem \<Rightarrow> 'b world_scheme \<Rightarrow> bool" where
  "reached b root x \<equiv> at_phase b root x (\<lambda>_. True)"

lemma at_phaseI:
  "session_runs b root x (ph, fsys s) \<Longrightarrow> P ph \<Longrightarrow> b \<or> sigint_at s = None \<Longrightarrow> at_phase b root x P s"
  by (auto simp: at_phase_def)

lemma at_phase_run:
  assumes "at_phase b root x P s" "sigint_at s' = sigint_at s"
    "\<And>ph. P ph \<Longrightarrow> \<exists>ph'. P' ph' \<and> session_runs b root (ph, fsys s) (ph', fsys s')"
  shows "at_phase b root x P' s'"
  using assms unfolding at_phase_def by (metis rtranclp_trans)

lemma at_phase_same:
  "at_phase b root x P s \<Longrightarrow> fsys s' = fsys s \<Longrightarrow> sigint_at s' = sigint_at s \<Longrightarrow> (\<And>ph. P ph \<Longrightarrow> P' ph) \<Longrightarrow>
   at_phase b root x P' s'"
  by (auto simp: at_phase_def)

lemma at_phase_reached: "at_phase b root x P s \<Longrightarrow> reached b root x s"
  by (auto simp: at_phase_def)

text \<open>The phase of a writing session, given by its writer.\<close>

definition writer_phase :: "filesystem \<Rightarrow> writer \<Rightarrow> phase \<Rightarrow> bool" where
  "writer_phase fs w ph \<longleftrightarrow>
     (if \<not> w_open w then ph = Storing (w_filepath w)
      else \<exists>c. nodes fs (canonical_of fs (w_filepath w)) = Some (FileN c)
             \<and> ph = (if w_fail w then Full (w_filepath w) else Filling (w_filepath w) c))"

lemma writer_phase_held: "writer_phase fs w ph \<Longrightarrow> path_held ph = Some (w_filepath w)"
  by (auto simp: writer_phase_def split: if_splits)

lemma writer_phase_later [simp]: "writer_phase fs (w\<lparr>w_tbw_later_buffer := d\<rparr>) = writer_phase fs w"
  by (simp add: writer_phase_def fun_eq_iff)

definition storing_at :: "bool \<Rightarrow> string \<Rightarrow> phase \<times> filesystem \<Rightarrow> string \<Rightarrow> 'b world_scheme \<Rightarrow> bool" where
  "storing_at b root x f s \<longleftrightarrow> w_filepath (the_writer s) = f
     \<and> at_phase b root x (writer_phase (fsys s) (the_writer s)) s"

definition open_at :: "bool \<Rightarrow> string \<Rightarrow> phase \<times> filesystem \<Rightarrow> string \<Rightarrow> 'b world_scheme \<Rightarrow> bool" where
  "open_at b root x f s \<longleftrightarrow> storing_at b root x f s \<and> w_open (the_writer s)"

definition held_at :: "bool \<Rightarrow> string \<Rightarrow> phase \<times> filesystem \<Rightarrow> string \<Rightarrow> 'b world_scheme \<Rightarrow> bool" where
  "held_at b root x f = at_phase b root x (\<lambda>ph. path_held ph = Some f)"

lemma storing_held: "storing_at b root x f s \<Longrightarrow> held_at b root x f s"
  unfolding storing_at_def held_at_def by (auto intro: at_phase_same dest: writer_phase_held)

lemma held_reached: "held_at b root x f s \<Longrightarrow> reached b root x s"
  unfolding held_at_def by (rule at_phase_reached)

section \<open>The operations on the files\<close>

lemma keeps_open_put [simp]: "keeps (open_at b root x f) (writer_put d)"
proof (rule keepsI)
  fix s assume s: "open_at b root x f s"
  let ?w = "the_writer s" and ?fs = "fsys s"
  show "wlp (writer_put d) (\<lambda>r s'. open_at b root x f s') s"
  proof (cases "w_fail ?w")
    case True
    with s show ?thesis by (simp add: wlp_writer_put)
  next
    case False
    obtain ok fs' where ap: "append_file ?fs f d = (ok, fs')" by (cases "append_file ?fs f d")
    let ?s' = "s\<lparr>fsys := fs', the_writer := ?w\<lparr>w_fail := \<not> ok\<rparr>\<rparr>"
    have "at_phase b root x (writer_phase fs' (the_writer ?s')) ?s'"
    proof (rule at_phase_run)
      show "at_phase b root x (writer_phase ?fs ?w) s" using s by (simp add: open_at_def storing_at_def)
    next
      fix ph assume "writer_phase ?fs ?w ph"
      then obtain c where c: "ph = Filling f c" "nodes ?fs (canonical_of ?fs f) = Some (FileN c)"
        using s False by (auto simp: writer_phase_def open_at_def storing_at_def)
      then have wr: "write_at ?fs f (length c) d = (length (take (avail ?fs) d), fs')" and ok: "ok \<longleftrightarrow> length d \<le> avail ?fs"
        using ap by (simp_all add: write_at_end) (simp add: append_file_def Let_def)
      show "\<exists>ph'. writer_phase fs' (the_writer ?s') ph' \<and> session_runs b root (ph, ?fs) (ph', fsys ?s')"
      proof (cases ok)
        case True
        with wr ok have "write_at ?fs f (length c) d = (length d, fs')" by simp
        from written [OF this] write_at_appends [OF c(2) this] write_at_frame(1) [OF this] True s c(1)
        show ?thesis by (auto simp: writer_phase_def open_at_def storing_at_def)
      next
        case False
        have "\<exists>c'. nodes fs' (canonical_of fs' f) = Some (FileN c')"
          using ap c(2) by (auto simp: append_file_def Let_def)
        with False wr ok s c(1) show ?thesis
          by (auto simp: writer_phase_def open_at_def storing_at_def intro!: written_short)
      qed
    qed simp
    with s ap False show ?thesis by (simp add: wlp_writer_put open_at_def storing_at_def)
  qed
qed

lemma keeps_open_parts [simp]:
  "keeps (open_at b root x f) (set_later d)"
  by (rule keepsI)
    (simp add: open_at_def storing_at_def set_later_def at_phase_def)

lemma wlp_open:
  assumes "storing_at b root x f s" "\<not> w_open (the_writer s)"
  shows "wlp Writer_OpenFile (\<lambda>r s'. storing_at b root x f s' \<and> (r = Inr () \<longrightarrow> open_at b root x f s')) s"
proof (cases "open_write (fsys s) f")
  case None
  with assms show ?thesis by (simp add: storing_at_def)
next
  case (Some fs')
  let ?s' = "s\<lparr>fsys := fs', the_writer := (the_writer s)\<lparr>w_open := True, w_fail := False\<rparr>\<rparr>"
  have "at_phase b root x (writer_phase fs' (the_writer ?s')) ?s'"
  proof (rule at_phase_run)
    show "at_phase b root x (writer_phase (fsys s) (the_writer s)) s" using assms(1) by (simp add: storing_at_def)
  next
    fix ph assume "writer_phase (fsys s) (the_writer s) ph"
    then have "ph = Storing f" using assms by (simp add: writer_phase_def storing_at_def)
    then show "\<exists>ph'. writer_phase fs' (the_writer ?s') ph' \<and> session_runs b root (ph, fsys s) (ph', fsys ?s')"
      using opened [OF Some] open_write_static [OF Some] assms(1)
      by (auto simp: writer_phase_def storing_at_def)
  qed simp
  with Some assms show ?thesis by (simp add: open_at_def storing_at_def)
qed

lemma wlp_write_open:
  assumes "open_at b root x f s"
  shows "wlp (Writer_WriteFile d) (\<lambda>r s'. open_at b root x f s') s"
proof -
  have "w_open (the_writer s)" using assms by (simp add: open_at_def)
  then show ?thesis
    unfolding Writer_WriteFile_def Let_def wlp_bnd [of "gets the_writer"] wlp_gets sum.case wlp_seq [of "if _ then _ else _"]
    by (simp only: not_True_eq_False if_False wlp_skip sum.case wlp_gets wlp_bnd [of "gets the_writer", symmetric])
      (intro keepsD [where I = "open_at b root x f", OF _ assms] keeps_intros; simp)
qed

lemma keeps_storing_write [simp]: "keeps_or (storing_at b root x f) K (write_block d)"
proof -
  have "keeps_or (storing_at b root x f) K (Writer_WriteFile d)"
  proof (rule keepsI)
    fix s assume s: "storing_at b root x f s"
    note rest = wlp_mono [OF wlp_write_open, of b root x f _ "\<lambda>r s'. storing_at b root x f s'" d]
    show "wlp (Writer_WriteFile d) (\<lambda>r s'. storing_at b root x f s') s"
    proof (cases "w_open (the_writer s)")
      case True
      with s show ?thesis by (intro rest) (simp_all add: open_at_def)
    next
      case False
      then show ?thesis
        using wlp_open [OF s False] s
        by (auto simp: Writer_WriteFile_closed open_at_def split: option.splits intro!: rest)
    qed
  qed
  then show ?thesis
    unfolding write_block_def by (intro keeps_intros) (auto split: exn.splits)
qed

lemma open_file: "open_at b root x f s \<Longrightarrow> \<exists>c. nodes (fsys s) (canonical_of (fsys s) f) = Some (FileN c)"
  by (auto simp: open_at_def storing_at_def at_phase_def writer_phase_def)

text \<open>After the destructor the thread still holds the file, which exists if it was open.\<close>

definition closed_at :: "bool \<Rightarrow> string \<Rightarrow> phase \<times> filesystem \<Rightarrow> string \<Rightarrow> 'b world_scheme \<Rightarrow> bool" where
  "closed_at b root x f s \<longleftrightarrow> held_at b root x f s \<and> (storing_at b root x f s
     \<or> (\<exists>c. nodes (fsys s) (canonical_of (fsys s) f) = Some (FileN c)))"

lemma wlp_dtor_held:
  assumes "storing_at b root x f s"
  shows "wlp Writer_dtor (\<lambda>r s'. closed_at b root x f s') s"
proof (cases "w_open (the_writer s)")
  case False
  with assms storing_held [OF assms] show ?thesis by (simp add: Writer_dtor_def closed_at_def)
next
  case True
  let ?d = "w_tbw_later_buffer (the_writer s)"
  have o: "open_at b root x f s" using True assms by (simp add: open_at_def)
  have "keeps (open_at b root x f) (if length ?d > 0 then writer_put ?d else skip)" by (intro keeps_ifI) simp_all
  note put = keepsD [OF this o]
  have closed: "closed_at b root x f (s'\<lparr>the_writer := w\<rparr>)" "closed_at b root x f s'"
    if "open_at b root x f s'" for s' :: "'a world_scheme" and w
  proof -
    have "held_at b root x f s'" using that by (simp add: open_at_def storing_held)
    with open_file [OF that] show "closed_at b root x f s'" "closed_at b root x f (s'\<lparr>the_writer := w\<rparr>)"
      by (simp_all add: closed_at_def held_at_def at_phase_def)
  qed
  show ?thesis
    unfolding Writer_dtor_def wlp_bnd [of "gets _"] wlp_gets sum.case if_P [OF True] wlp_seq wlp_modify
    by (rule wlp_mono [OF put]) (auto simp: closed split: sum.splits)
qed

text \<open>The file is deleted, and the process is over; only what is no file may stay.\<close>

lemma wlp_delete_held:
  assumes "held_at True root x f s"
    "\<And>e. DeleteFile (fsys s) f = Inl e \<Longrightarrow> I s"
  shows "wlp (seq (delete_file f) (stop_with Terminate)) (kept I (reached True root x)) s"
proof (cases "DeleteFile (fsys s) f")
  case (Inl e)
  with assms show ?thesis by simp
next
  case (Inr fs')
  have "reached True root x (s\<lparr>fsys := fs'\<rparr>)"
    using assms(1) interrupted [OF TrueI _ Inr]
    unfolding held_at_def by (elim at_phase_run) (auto intro!: r_into_rtranclp)
  with Inr show ?thesis by (simp add: kept_def)
qed

lemma wlp_Writer_dtor_result: "wlp Writer_dtor (\<lambda>r s'. r = Inr ()) s"
  by (simp add: Writer_dtor_def wlp_writer_put)

lemma wlp_drop_held:
  assumes "storing_at True root x f s"
  shows "wlp (seq Writer_dtor (seq (delete_file f) (stop_with Terminate)))
    (kept (storing_at True root x f) (reached True root x)) s"
  unfolding wlp_seq [of Writer_dtor]
proof (rule wlp_mono [OF wlp_conj [OF wlp_dtor_held [OF assms] wlp_Writer_dtor_result]], goal_cases)
  case (1 r s')
  then show ?case
    by (cases r) (auto simp: closed_at_def DeleteFile_def Let_def simp del: wlp_seq intro!: wlp_delete_held)
qed

section \<open>The handlers\<close>

text \<open>Whether SIGINT is seen, the thread may be interrupted.\<close>

lemma at_phase_sigint: "at_phase b root x P s \<Longrightarrow> sigint_set s \<Longrightarrow> b"
  by (auto simp: at_phase_def sigint_set_def)

lemma storing_at_same:
  "storing_at b root x f s \<Longrightarrow> fsys s' = fsys s \<Longrightarrow> the_writer s' = the_writer s \<Longrightarrow>
   sigint_at s' = sigint_at s \<Longrightarrow> storing_at b root x f s'"
  by (simp add: storing_at_def at_phase_def)

lemma storing_files: "file_predicate (storing_at b root x f)"
  by unfold_locales (rule storing_at_same)

lemma keeps_sigint_WRQ: "keeps_or (storing_at b root x f) (reached b root x) CheckForSigintWRQ"
proof (rule keeps_orI)
  fix s :: client_handler assume s: "storing_at b root x f s"
  show "wlp CheckForSigintWRQ (kept (storing_at b root x f) (reached b root x)) s"
  proof (cases "sigint_set s")
    case False
    with s show ?thesis by (auto simp: CheckForSigintWRQ_def intro: storing_at_same)
  next
    case True
    have b: b using s True by (auto simp: storing_at_def dest: at_phase_sigint)
    have drop: "wlp (seq Writer_dtor (seq (delete_file (w_filepath (the_writer s'))) (stop_with Terminate)))
      (kept (storing_at b root x f) (reached b root x)) s'" if "storing_at b root x f s'" for s'
      using wlp_drop_held [of root x f s'] that b by (simp add: storing_at_def del: wlp_seq)
    have seen: "\<not> sigint_set s = False" using True by simp
    show ?thesis
      unfolding CheckForSigintWRQ_def wlp_bnd [of sigint_load] wlp_sigint_load sum.case if_not_P [OF seen]
        wlp_seq [of "send_to_client _"] wlp_send_to_client wlp_bnd [of "gets _"] wlp_gets
      by (intro drop storing_at_same [OF s]) simp_all
  qed
qed

interpretation storing_files: writing_predicate "storing_at b root x f" "reached b root x" for b root x f
  by unfold_locales (simp_all add: keeps_sigint_WRQ storing_at_same)

text \<open>A reading session serves its file until it deletes it.\<close>

definition serving_at ::
  "bool \<Rightarrow> string \<Rightarrow> phase \<times> filesystem \<Rightarrow> string \<Rightarrow> 'b world_scheme \<Rightarrow> bool" where
  "serving_at b root x f = at_phase b root x (\<lambda>ph. ph = Serving f)"

lemma serving_at_same:
  "serving_at b root x f s \<Longrightarrow> fsys s' = fsys s \<Longrightarrow> sigint_at s' = sigint_at s \<Longrightarrow> serving_at b root x f s'"
  by (simp add: serving_at_def at_phase_def)

lemma serving_held: "serving_at b root x f s \<Longrightarrow> held_at b root x f s"
  unfolding serving_at_def held_at_def by (erule at_phase_same) simp_all

lemma keeps_sigint_RRQ:
  assumes "r_filepath reader = f"
  shows "keeps_or (serving_at b root x f) (reached b root x) (CheckForSigintRRQ reader)"
proof (rule keeps_orI)
  fix s :: client_handler assume s: "serving_at b root x f s"
  show "wlp (CheckForSigintRRQ reader) (kept (serving_at b root x f) (reached b root x)) s"
  proof (cases "sigint_set s")
    case False
    with s show ?thesis by (auto simp: CheckForSigintRRQ_def intro: serving_at_same)
  next
    case True
    have b: b using s True by (auto simp: serving_at_def dest: at_phase_sigint)
    have drop: "wlp (seq (delete_file f) (stop_with Terminate)) (kept (serving_at b root x f) (reached b root x)) s'"
      if "serving_at b root x f s'" for s'
      using wlp_delete_held [OF serving_held] that b by simp
    have seen: "\<not> sigint_set s = False" using True by simp
    show ?thesis
      unfolding CheckForSigintRRQ_def wlp_bnd [of sigint_load] wlp_sigint_load sum.case if_not_P [OF seen]
        wlp_seq [of "send_to_client _"] wlp_send_to_client wlp_bnd [of "gets _"] wlp_gets assms
      by (intro drop serving_at_same [OF s]) simp_all
  qed
qed

interpretation serving_files: reading_predicate "serving_at b root x f" "reached b root x" f for b root x f
  by unfold_locales (simp_all add: keeps_sigint_RRQ serving_at_same)

text \<open>Where a session starts: its request, and the files as they are.\<close>

abbreviation thread_of :: "client_handler \<Rightarrow> bytes \<Rightarrow> phase \<times> filesystem" where
  "thread_of s raw \<equiv> (asked (root_dirpath s) raw, fsys s)"

lemma asked_request:
  assumes "GetOpcodeFromRaw raw = Inr opc" "ReadWritePacket_ctor_raw raw = Inr p" "opc = RRQ \<or> opc = WRQ"
  shows "asked (root_dirpath s) raw = Asked opc (request_path s p)"
  using assms by (auto simp: asked_def request_path_def)

lemma reached_start:
  "b \<or> sigint_at s = None \<Longrightarrow> fsys s' = fsys s \<Longrightarrow> sigint_at s' = sigint_at s \<Longrightarrow>
   reached b root (ph, fsys s) s'"
  by (rule at_phaseI [where ph = ph]) simp_all

lemma kept_reached:
  "kept I (reached b root x) r s \<Longrightarrow> (I s \<Longrightarrow> reached b root x s) \<Longrightarrow> reached b root x s"
  by (auto simp: kept_def)

lemma FollowOnRRQ_reached:
  assumes "GetOpcodeFromRaw raw = Inr RRQ" "b \<or> sigint_at s = None"
  shows "wlp (FollowOnRRQ raw) (\<lambda>r s'. reached b (root_dirpath s) (thread_of s raw) s') s"
proof (cases "ReadWritePacket_ctor_raw raw")
  case (Inl e)
  then show ?thesis using assms(2) by (simp add: FollowOnRRQ_def reached_start)
next
  case (Inr p)
  let ?f = "request_path s p" and ?x = "thread_of s raw"
  have asked: "asked (root_dirpath s) raw = Asked RRQ ?f" using asked_request [OF assms(1) Inr] by simp
  have serving: "serving_at b (root_dirpath s) ?x ?f s"
    if "FileExists (fsys s) ?f" "isFilePathUnderDirectory (fsys s) ?f (root_dirpath s) = Some True"
    unfolding serving_at_def asked
    using found_run [OF that] assms(2) by (intro at_phaseI) simp_all
  have stay: "reached b (root_dirpath s) ?x s" by (rule reached_start) (simp_all add: assms(2))
  note body = wlp_mono [OF keeps_orD [OF serving_files.keeps_serve [of b "root_dirpath s" ?x ?f] serving]]
  show ?thesis
    unfolding FollowOnRRQ_def wlp_bnd [of "lift_exn _"] wlp_lift_exn Inr sum.case wlp_bnd [of "gets _"] wlp_gets Let_def
      request_path_def [symmetric]
    using stay
    by (auto simp del: wlp_bnd intro!: body split: option.splits
        elim!: kept_reached intro: held_reached serving_held)
qed

text \<open>The destructor of the writer at the end.\<close>

lemma keeps_scoped_dtor:
  fixes s :: client_handler
  assumes "keeps_or (storing_at b root x f) (reached b root x) m" "storing_at b root x f s"
  shows "wlp (scoped m Writer_dtor) (\<lambda>r s'. reached b root x s') s"
proof -
  have "wlp Writer_dtor (\<lambda>r s'. reached b root x s') s'" if "storing_at b root x f s'" for s' :: client_handler
    by (rule wlp_mono [OF wlp_dtor_held [OF that]]) (auto simp: closed_at_def intro: held_reached)
  note dtor = this
  show ?thesis
    unfolding wlp_scoped
    by (rule keeps_then [OF assms]) (auto intro!: wlp_mono [OF dtor] intro: held_reached storing_held split: sum.splits stop.splits)
qed

lemma keeps_store:
  "keeps_or (storing_at b root x f) (reached b root x) (bnd (NegotiateOptions opts) (\<lambda>negs.
      seq (for_each negs (\<lambda>opt. if opt_name opt = TSIZE then bnd (gets hd_tsize) (\<lambda>tsize.
             if \<not> HasEnoughSpace fs dir (tsize mod 2 ^ 64)
             then throw NotEnoughSpaceException else skip) else skip))
        (receive_file ho negs)))"
  by (intro keeps_intros) simp_all

lemma FollowOnWRQ_reached:
  assumes "GetOpcodeFromRaw raw = Inr WRQ" "b \<or> sigint_at s = None"
  shows "wlp (FollowOnWRQ raw) (\<lambda>r s'. reached b (root_dirpath s) (thread_of s raw) s') s"
proof (cases "ReadWritePacket_ctor_raw raw")
  case (Inl e)
  then show ?thesis using assms(2) by (simp add: FollowOnWRQ_def reached_start)
next
  case (Inr p)
  let ?f = "request_path s p" and ?x = "thread_of s raw" and ?root = "root_dirpath s"
  let ?s0 = "s\<lparr>the_writer := \<lparr>w_filepath = ?f, w_mode = data_format (rw_mode p),
      w_open = False, w_fail = False, w_tbw_later_buffer = []\<rparr>\<rparr>"
  have asked: "asked ?root raw = Asked WRQ ?f" using asked_request [OF assms(1) Inr] by simp
  have outside: "wlp (scoped (stop_with e) Writer_dtor) (\<lambda>r s'. reached b ?root ?x s') ?s0" for e
    using assms(2) by (cases e) (simp_all add: Writer_dtor_def reached_start)
  have inside: "storing_at b ?root ?x ?f ?s0"
    if "\<not> FileExists (fsys s) ?f" "isFilePathUnderDirectory (fsys s) ?f ?root = Some True"
  proof -
    have "at_phase b ?root ?x (writer_phase (fsys ?s0) (the_writer ?s0)) ?s0"
      unfolding asked using checked_run [OF that] assms(2)
      by (intro at_phaseI) (simp_all add: writer_phase_def)
    then show ?thesis by (simp add: storing_at_def)
  qed
  have "wlp (scoped
       (if FileExists (fsys s) ?f then
          throw (TFTPFileAlreadyExistsError (''File already exists: '' @ rw_filepath p))
        else
          (case isFilePathUnderDirectory (fsys s) ?f ?root of
             None \<Rightarrow> stop_with (Undefined ''relative[1] of an empty string'')
           | Some inside \<Rightarrow> if \<not> inside then throw TFTPAccessViolationError
               else bnd (NegotiateOptions (rw_options p)) (\<lambda>negs.
      seq (for_each negs (\<lambda>opt. if opt_name opt = TSIZE then bnd (gets hd_tsize) (\<lambda>tsize.
             if \<not> HasEnoughSpace (fsys s) ?root (tsize mod 2 ^ 64)
             then throw NotEnoughSpaceException else skip) else skip))
        (receive_file (length (rw_options p) > 0) negs)))) Writer_dtor)
     (\<lambda>r s'. reached b ?root ?x s') ?s0"
    using outside keeps_scoped_dtor [OF keeps_store inside]
    by (auto simp: throw_def split: option.splits simp del: wlp_scoped)
  then show ?thesis
    unfolding FollowOnWRQ_def wlp_bnd wlp_lift_exn Inr sum.case wlp_gets Let_def wlp_seq
      request_path_def [symmetric]
    by (simp add: Writer_ctor_def)
qed

section \<open>A session\<close>

text \<open>What comes after the handler, the ERROR packet, changes no file.\<close>

lemma keeps_reached_report: "keeps (reached b root x) (report_and_rethrow e)"
  by (rule keepsI) (auto simp: report_and_rethrow_def at_phase_def split: option.splits)

lemma FollowOnIntroPacket_reached:
  assumes "b \<or> sigint_at s = None"
  shows "wlp (FollowOnIntroPacket raw) (\<lambda>r s'. reached b (root_dirpath s) (thread_of s raw) s') s"
proof (cases "GetOpcodeFromRaw raw")
  case (Inl e)
  then show ?thesis using assms by (simp add: FollowOnIntroPacket_def reached_start)
next
  case (Inr opc)
  have "wlp (if opc = RRQ then FollowOnRRQ raw else if opc = WRQ then FollowOnWRQ raw
        else throw (TFTPIllegalOperationError ''Expected RRQ or WRQ''))
      (\<lambda>r s'. reached b (root_dirpath s) (thread_of s raw) s') s"
    using Inr assms by (auto simp: FollowOnRRQ_reached FollowOnWRQ_reached reached_start)
  then have "wlp (try_catch (if opc = RRQ then FollowOnRRQ raw else if opc = WRQ then FollowOnWRQ raw
        else throw (TFTPIllegalOperationError ''Expected RRQ or WRQ'')) report_and_rethrow)
      (\<lambda>r s'. reached b (root_dirpath s) (thread_of s raw) s') s"
    unfolding wlp_try_catch
    by (rule wlp_mono) (auto intro: keepsD [OF keeps_reached_report] split: sum.splits stop.splits)
  then show ?thesis by (simp add: FollowOnIntroPacket_def Inr)
qed

text \<open>A session by itself is a run of its thread.\<close>

lemma session_refines:
  assumes "StartCommsWithClient socket_ok w sender root raw = Some (r, s')" "b \<or> sigint_at w = None"
  shows "\<exists>ph. session_runs b root (asked root raw, fsys w) (ph, fsys s')"
  using wlpD [OF FollowOnIntroPacket_reached [of b "ClientHandler_ctor w sender root" raw]] assms
  by (elim StartCommsWithClient_spec) (auto simp: ClientHandler_ctor_def at_phase_def)

text \<open>
  So the sessions one after the other, in any order, are one of the schedules. The threads not yet
  run of \<open>server_runs\<close> are among those of the schedule.
\<close>

lemma asked_not_Aborted [simp]: "asked root raw \<noteq> Aborted" "Aborted \<noteq> asked root raw"
  by (simp_all add: asked_def split: sum.splits)

lemma session_runs_not_Aborted:
  assumes "session_runs False root (ph, fs) (ph', fs')" "ph \<noteq> Aborted"
  shows "ph' \<noteq> Aborted"
  using assms(1)
proof (induction "(ph', fs')" arbitrary: ph' fs' rule: rtranclp_induct)
  case base
  show ?case by (rule assms(2))
next
  case (step y)
  then show ?case by (cases y) (auto elim: session_stepE)
qed

lemma subset_mset_add: "A \<subseteq># B \<Longrightarrow> A \<subseteq># add_mset x B"
  by (metis add_mset_add_single mset_subset_eq_add_left subset_mset.order_trans)

definition scheduled :: "string \<Rightarrow> filesystem \<Rightarrow> (sockaddr \<times> bytes) list \<times> filesystem \<Rightarrow> bool" where
  "scheduled root fs0 x \<longleftrightarrow> (\<exists>ts. threads_run False root ([], fs0) (ts, snd x) \<and> Aborted \<notin> set ts
     \<and> mset (map (\<lambda>(_, raw). asked root raw) (fst x)) \<subseteq># mset ts)"

lemma server_step_scheduled:
  assumes "server_step False root x y" "scheduled root fs0 x"
  shows "scheduled root fs0 y"
  using assms(1)
proof (cases rule: server_step.cases)
  case (request_arrives threads fs sender d)
  obtain ts where ts: "threads_run False root ([], fs0) (ts, fs)" "Aborted \<notin> set ts"
    "mset (map (\<lambda>(_, raw). asked root raw) threads) \<subseteq># mset ts"
    using assms(2) request_arrives by (auto simp: scheduled_def)
  have "threads_run False root ([], fs0) (ts @ [asked root d], fs)"
    using ts(1) starts [OF ts(2)] by (rule rtranclp.rtrancl_into_rtrancl)
  with ts(2,3) request_arrives(2) show ?thesis
    by (auto simp: scheduled_def intro!: exI [of _ "ts @ [asked root d]"])
next
  case (session_runs w fs socket_ok sender d r s' threads threads')
  obtain ts where ts: "threads_run False root ([], fs0) (ts, fs)" "Aborted \<notin> set ts"
    "mset (map (\<lambda>(_, raw). asked root raw) (threads @ (sender, d) # threads')) \<subseteq># mset ts"
    using assms(2) session_runs by (auto simp: scheduled_def)
  from mset_subset_eqD [OF ts(3), of "asked root d"] obtain us vs where split: "ts = us @ asked root d # vs"
    by (auto dest: split_list)
  obtain ph where ph: "Threads.session_runs False root (asked root d, fs) (ph, fsys s')"
    using session_refines [OF session_runs(5), of False] session_runs(3,4) by auto
  have "threads_run False root ([], fs0) (us @ ph # vs, fsys s')"
    using ts(1) threads_run_thread [OF ph, of us vs] ts(2) unfolding split by auto
  with ts session_runs_not_Aborted [OF ph] session_runs(2) split show ?thesis
    by (auto simp: scheduled_def intro!: exI [of _ "us @ ph # vs"] subset_mset_add)
qed

lemma server_runs_scheduled:
  assumes "server_runs False root ([], fs) y"
  shows "scheduled root fs y"
  using assms
proof (induction rule: rtranclp_induct)
  case base
  show ?case by (auto simp: scheduled_def intro!: exI [of _ "[]"])
next
  case (step y z)
  then show ?case by (blast intro: server_step_scheduled)
qed

end
