(* ===== verification/ThreadProperties.thy ===== *)
theory ThreadProperties
  imports Examples ThreadRefinement
begin

text \<open>
  The properties of the server with its sessions running at the same time, under any schedule of
  their calls on the files.
\<close>

section \<open>Two uploads on the example\<close>

definition ex_store :: "string \<Rightarrow> bytes" where
  "ex_store f = ex_raw (ex_request WRQ f [])"

lemma ex_asked:
  "asked ''/srv'' (ex_store ''new'') = Asked WRQ ''/srv/new''"
  "asked ''/srv'' (ex_store ''old'') = Asked WRQ ''/srv/old''"
  by code_simp+

lemma ex_new:
  "\<not> FileExists ex_fs ''/srv/new''" "isFilePathUnderDirectory ex_fs ''/srv/new'' ''/srv'' = Some True"
  "canonical_of ex_fs ''/srv/new'' = [''srv'', ''new'']" "openable ex_fs ''/srv/new''"
  "room ex_fs ''/srv/new'' = 1000"
  by code_simp+

text \<open>Both threads store a file, the first to its end.\<close>

lemma ex_two_uploads:
  obtains fs' where "threads_run b ''/srv'' ([], ex_fs) ([Over, Storing ''/srv/new''], fs')"
    "nodes fs' [''srv'', ''new''] = Some (FileN [7])"
proof -
  obtain fs' where up: "session_runs b ''/srv'' (Storing ''/srv/new'', ex_fs) (Over, fs')"
    and node: "nodes fs' (canonical_of ex_fs ''/srv/new'') = Some (FileN [7])"
    by (rule storing_run [OF ex_new(4), of "[7]" b "''/srv''"]) (simp add: ex_new)
  show ?thesis
    using first_stored_run [OF ex_asked(1) ex_asked(1) ex_new(1,2) up] node by (intro that) (simp_all add: ex_new)
qed

section \<open>The handlers\<close>

text \<open>
  C7. A session of the detailed model, whatever the request and the network, is a run of its thread: it
  changes the files only by the calls, and in the order, of \<open>session_step\<close>. Without SIGINT in the
  session there is none in the run.
\<close>

theorem session_refines_thread:
  assumes "StartCommsWithClient socket_ok w sender root raw = Some (r, s')" "interrupts \<or> sigint_at w = None"
  shows "\<exists>ph. session_runs interrupts root (asked root raw, fsys w) (ph, fsys s')"
  using session_refines [OF assms] .

theorem session_refines_thread_witness:
  "\<exists>(s' :: client_handler) ph. session_runs False ''/srv'' (Asked WRQ ''/srv/new'', ex_fs) (ph, fsys s')"
proof -
  have "wf_request (ex_request WRQ ''new'' [])" by code_simp
  then have "\<not> measures (ex_store ''new'')"
    by (simp add: measures_def ex_store_def ex_parse ex_request_def split: sum.splits)
  then obtain r and s' :: client_handler where
    "StartCommsWithClient True (ex_world [RecvTimeout]) ex_client ''/srv'' (ex_store ''new'') = Some (r, s')"
    using returns_StartCommsWithClient by blast
  from session_refines_thread [OF this, of False] show ?thesis
    by (auto simp: ex_world_def ex_asked)
qed

section \<open>Any schedule\<close>

text \<open>
  C8. Whatever requests arrive and however their threads interleave, with or without SIGINT: no
  path outside of the root directory is ever created, changed or deleted.
\<close>

theorem threads_confined:
  assumes "threads_run interrupts root ([], fs) (ts, fs')" "\<not> below fs root q"
  shows "nodes fs' q = nodes fs q"
  using threads_run_confined [OF assms(1)] assms(2) by (simp add: only_below_def)

theorem threads_confined_witness:
  "\<exists>fs'. threads_run True ''/srv'' ([], ex_fs) ([Over, Storing ''/srv/new''], fs')
     \<and> nodes fs' [''srv'', ''new''] = Some (FileN [7])
     \<and> nodes fs' [''etc'', ''passwd''] = Some (FileN [42])"
proof -
  obtain fs' where run: "threads_run True ''/srv'' ([], ex_fs) ([Over, Storing ''/srv/new''], fs')"
    "nodes fs' [''srv'', ''new''] = Some (FileN [7])"
    by (rule ex_two_uploads)
  have "\<not> below ex_fs ''/srv'' [''etc'', ''passwd'']" by code_simp
  from threads_confined [OF run(1) this] run show ?thesis by (auto simp: ex_fs_def)
qed

text \<open>
  C9. Without SIGINT, under any schedule: a file that exists while no thread is storing it, or has
  found it absent and is going to store it, keeps its content for ever. In particular no file that
  is there when the server starts is ever overwritten.
\<close>

theorem threads_keep_files:
  assumes "threads_run False root (ts, fs) (ts', fs')" "nodes fs q = Some n"
    "\<forall>ph \<in> set ts. claimed fs ph \<noteq> Some q"
  shows "nodes fs' q = Some n"
  using threads_run_keep [OF assms] ..

theorem threads_keep_files_witness:
  "\<exists>fs'. threads_run False ''/srv'' ([], ex_fs) ([Over, Storing ''/srv/new''], fs')
     \<and> nodes fs' [''srv'', ''hello''] = Some (FileN ex_content)"
proof -
  obtain fs' where run: "threads_run False ''/srv'' ([], ex_fs) ([Over, Storing ''/srv/new''], fs')"
    by (rule ex_two_uploads)
  have "nodes ex_fs [''srv'', ''hello''] = Some (FileN ex_content)" by (simp add: ex_fs_def)
  from threads_keep_files [OF run this] run show ?thesis by auto
qed

text \<open>
  C10. As long as no two threads at a time are between the check that a file is absent and the end of
  its upload, the threads cannot be told from sessions one after the other: under any schedule,
  a file that is being stored holds exactly the bytes its own thread has written.
\<close>

theorem undisturbed_uploads:
  assumes "orderly_run root ([], fs) (ts, fs')" "Filling f c \<in> set ts"
  shows "nodes fs' (canonical_of fs' f) = Some (FileN c)"
  using orderly_run_intact [OF assms(1)] assms(2) by (auto simp: intact_def)

lemma orderly_step:
  "orderly_run root x (ts, fs) \<Longrightarrow> threads_step False root (ts, fs) y \<Longrightarrow> exclusive fs ts \<Longrightarrow>
   orderly_run root x y"
  by (erule rtranclp.rtrancl_into_rtrancl) simp

lemma orderly_first_thread:
  "orderly_run root x (ph # ts, fs) \<Longrightarrow> session_step False root (ph, fs) (ph', fs') \<Longrightarrow>
   Aborted \<notin> set ts \<Longrightarrow> exclusive fs (ph # ts) \<Longrightarrow> orderly_run root x (ph' # ts, fs')"
  by (erule orderly_step) (use threads_step_thread [where us = "[]" and vs = ts] in auto)

theorem undisturbed_uploads_witness:
  "\<exists>fs'. orderly_run ''/srv'' ([], ex_fs) ([Filling ''/srv/new'' [1, 2], Asked WRQ ''/srv/old''], fs')
     \<and> nodes fs' (canonical_of fs' ''/srv/new'') = Some (FileN [1, 2])"
proof -
  let ?f = "''/srv/new''" and ?ts = "[Asked WRQ ''/srv/old'']"
  have ex: "exclusive fs [ph, Asked WRQ g]" "exclusive fs [ph]" "exclusive fs []" for fs ph g
    by (auto simp: exclusive_def claimed_def less_Suc_eq)
  obtain fs1 where o: "open_write ex_fs ?f = Some fs1" "avail fs1 = 1000"
    using open_write_room [OF ex_new(4)] ex_new(5) by auto
  obtain fs2 where w: "write_at fs1 ?f (length ([] :: bytes)) [1, 2] = (length ([1, 2] :: bytes), fs2)"
    using write_at_end_fits [of fs1 ?f "[]" "[1, 2]"] o open_write_static [OF o(1)] by simp
  have "orderly_run ''/srv'' ([], ex_fs) ([Asked WRQ ?f], ex_fs)"
    using starts [of "[]" False "''/srv''" ex_fs "ex_store ''new''"] ex
    by (intro orderly_step [OF rtranclp.rtrancl_refl]) (simp_all add: ex_asked)
  then have "orderly_run ''/srv'' ([], ex_fs) (Asked WRQ ?f # ?ts, ex_fs)"
    using starts [of "[Asked WRQ ?f]" False "''/srv''" ex_fs "ex_store ''old''"] ex
    by (elim orderly_step) (simp_all add: ex_asked)
  from orderly_first_thread [OF this absent [OF ex_new(1)] _ ex(1)]
  have "orderly_run ''/srv'' ([], ex_fs) (Absent ?f # ?ts, ex_fs)" by simp
  from orderly_first_thread [OF this storing [OF ex_new(2)] _ ex(1)]
  have "orderly_run ''/srv'' ([], ex_fs) (Storing ?f # ?ts, ex_fs)" by simp
  from orderly_first_thread [OF this opened [OF o(1)] _ ex(1)]
  have "orderly_run ''/srv'' ([], ex_fs) (Filling ?f [] # ?ts, fs1)" by simp
  from orderly_first_thread [OF this written [OF w] _ ex(1)]
  have run: "orderly_run ''/srv'' ([], ex_fs) (Filling ?f [1, 2] # ?ts, fs2)" by simp
  from undisturbed_uploads [OF run] run show ?thesis by auto
qed



end
