(* ===== verification/EndToEnd.thy ===== *)
theory EndToEnd
  imports Completion Session
begin

text \<open>
  The client against the server. The theorems on one side say what it sent and what it stored in
  terms of what arrived; here what arrives at one side is what the other has sent, any number of
  times, in any order, or not at all, and the content of the file goes from one to the other.
\<close>

section \<open>The network\<close>

text \<open>Every datagram of the events that comes from such an address is one of those sent.\<close>

definition carried :: "(sockaddr \<Rightarrow> bool) \<Rightarrow> bytes list \<Rightarrow> net_event list \<Rightarrow> bool" where
  "carried from sent evs \<longleftrightarrow>
     list_all (\<lambda>e. case e of Datagram a d \<Rightarrow> from a \<longrightarrow> d \<in> set sent | _ \<Rightarrow> True) evs"

lemma carriedD: "carried from sent evs \<Longrightarrow> Datagram a d \<in> set evs \<Longrightarrow> from a \<Longrightarrow> d \<in> set sent"
  by (auto simp: carried_def list_all_iff split: net_event.splits)

text \<open>A numbered block that can be read from one of the datagrams.\<close>

definition data_of :: "bytes list \<Rightarrow> nat \<Rightarrow> int \<Rightarrow> int \<times> bytes \<Rightarrow> bool" where
  "data_of sent limit blk x \<longleftrightarrow> (\<exists>d \<in> set sent. \<exists>p. DataPacket_ctor_raw (take limit d) blk = Inr p
     \<and> x = (uint (dp_block_number p), dp_data p))"

lemma data_event_of:
  assumes "x \<in> set (data_event peer limit blk (Datagram a d))" "d \<in> set sent"
  shows "data_of sent limit blk x"
proof (cases "DataPacket_ctor_raw (take limit d) blk")
  case (Inl e)
  then show ?thesis using assms(1) by (cases "a = peer") (simp_all add: data_event_def)
next
  case (Inr p)
  then have "x = (uint (dp_block_number p), dp_data p)"
    using assms(1) by (cases "a = peer") (simp_all add: data_event_def)
  with assms(2) Inr show ?thesis unfolding data_of_def by blast
qed

lemma datas_of:
  assumes "carried (\<lambda>a. a = peer) sent evs" "x \<in> set (datas peer limit blk evs)"
  shows "data_of sent limit blk x"
proof -
  obtain e where e: "e \<in> set evs" "x \<in> set (data_event peer limit blk e)"
    using assms(2) by (auto simp: datas_def)
  have "\<exists>d. e = Datagram peer d"
  proof (cases e)
    case (Datagram a d)
    with e(2) show ?thesis by (cases "a = peer") (simp_all add: data_event_def)
  qed (use e(2) in \<open>simp_all add: data_event_def\<close>)
  then obtain d where "e = Datagram peer d" by blast
  with e carriedD [OF assms(1)] show ?thesis by (blast intro: data_event_of)
qed

lemma port_datas_of:
  assumes "carried (\<lambda>a. sin_port a = port) sent evs" "x \<in> set (port_datas port limit blk evs)"
  shows "data_of sent limit blk x"
proof -
  obtain e where e: "e \<in> set evs" "x \<in> set (port_event port limit blk e)"
    using assms(2) by (auto simp: port_datas_def)
  have "\<exists>a d. e = Datagram a d \<and> sin_port a = port"
  proof (cases e)
    case (Datagram a d)
    with e(2) show ?thesis by (cases "sin_port a = port") (simp_all add: port_event_def)
  qed (use e(2) in \<open>simp_all add: port_event_def\<close>)
  then obtain a d where a: "e = Datagram a d" "sin_port a = port" by blast
  then have "x \<in> set (data_event a limit blk (Datagram a d))" using e(2) by (simp add: port_event_def)
  with e a carriedD [OF assms(1)] show ?thesis by (blast intro: data_event_of)
qed

section \<open>What was sent\<close>

text \<open>The number on the wire tells which block it is, if there are not more than 65536 of them.\<close>

lemma data_raws_nth: "d \<in> set (data_raws n bs) \<longleftrightarrow> (\<exists>i < length bs. d = data_raw (n + int i) (bs ! i))"
proof (induction bs arbitrary: n)
  case (Cons b bs)
  have "(\<exists>i < length (b # bs). d = data_raw (n + int i) ((b # bs) ! i)) \<longleftrightarrow>
      d = data_raw n b \<or> (\<exists>i < length bs. d = data_raw (n + 1 + int i) (bs ! i))"
    by (auto simp: less_Suc_eq_0_disj add.assoc)
  with Cons show ?case by auto
qed simp

lemma numbered_nth: "x \<in> set (numbered n bs) \<longleftrightarrow> (\<exists>i < length bs. x = (n + int i, bs ! i))"
proof (induction bs arbitrary: n)
  case (Cons b bs)
  have "(\<exists>i < length (b # bs). x = (n + int i, (b # bs) ! i)) \<longleftrightarrow>
      x = (n, b) \<or> (\<exists>i < length bs. x = (n + 1 + int i, bs ! i))"
    by (auto simp: less_Suc_eq_0_disj add.assoc)
  with Cons show ?case by auto
qed simp

definition no_data :: "bytes \<Rightarrow> bool" where
  "no_data d \<longleftrightarrow> GetOpcodeFromRaw d \<noteq> Inr DATA"

lemma no_data_take: "no_data d \<Longrightarrow> DataPacket_ctor_raw (take limit d) blk = Inr p \<Longrightarrow> False"
proof -
  assume "no_data d" "DataPacket_ctor_raw (take limit d) blk = Inr p"
  moreover obtain r where "take limit d = opcode_bytes DATA @ r"
    using DataPacket_ctor_raw_opcode calculation(2) GetOpcodeFromRaw_Inr by blast
  moreover have "d = take limit d @ drop limit d" by simp
  ultimately show False unfolding no_data_def GetOpcodeFromRaw_Inr by (metis append_assoc)
qed

lemma block_of_sent:
  assumes of: "data_of sent limit (uint (blk :: 16 word)) (n, b)" "1 \<le> n"
    and sent: "\<forall>d \<in> set sent. no_data d \<or> d \<in> set (data_raws 1 (take k xs))" "k \<le> 65536"
    and xs: "\<forall>x \<in> set xs. length x \<le> unat blk" "4 + unat blk \<le> limit"
  shows "nat n \<le> length xs \<and> b = xs ! (nat n - 1)"
proof -
  obtain d p where d: "d \<in> set sent" "DataPacket_ctor_raw (take limit d) (uint blk) = Inr p"
    "n = uint (dp_block_number p)" "b = dp_data p"
    using of by (auto simp: data_of_def)
  then have "d \<in> set (data_raws 1 (take k xs))" using sent(1) no_data_take by blast
  then obtain i where i: "i < k" "i < length xs" "d = data_raw (1 + int i) (xs ! i)"
    by (auto simp: data_raws_nth)
  have le: "length (xs ! i) \<le> unat blk" using xs(1) i(2) by simp
  then have "take limit d = d" using xs(2) by (simp add: i(3) data_raw_def)
  moreover have "0 \<le> uint blk" "uint blk < 2 ^ 32" using uint_block_number [of blk] by simp_all
  ultimately have p: "p = \<lparr>dp_block_number = word_of_int (1 + int i), dp_data = xs ! i\<rparr>"
    using d(2) le by (simp add: i(3) data_raw_parse)
  then have n: "n = (1 + int i) mod 65536" using d(3) uint_word16_Suc [of i] by simp
  have "1 + int i \<noteq> 65536" using n of(2) by auto
  then have "n = 1 + int i" using n i(1) sent(2) by simp
  moreover have "nat (1 + int i) = Suc i" by simp
  ultimately show ?thesis using i(2) d(4) p by simp
qed

text \<open>A prefix of the blocks of \<open>c\<close> with a short last block is all of them.\<close>

lemma prefix_of_blocks:
  assumes "\<forall>i < length bs. i < length (blocks m c) \<and> bs ! i = blocks m c ! i"
    and "blocks m (concat bs) = bs" "0 < m"
  shows "bs = blocks m c"
proof -
  let ?xs = "blocks m c"
  have ne: "bs \<noteq> []" using assms(2) blocks_not_Nil by metis
  then have i: "length bs - 1 < length bs" by simp
  have short: "length (last bs) < m" using blocks_last [OF assms(3), of "concat bs"] assms(2) by simp
  have "length bs = length ?xs"
  proof (rule ccontr)
    assume "length bs \<noteq> length ?xs"
    then have "length bs - 1 < length (butlast ?xs)" using assms(1) i by auto
    then have "?xs ! (length bs - 1) \<in> set (butlast ?xs)" by (metis nth_butlast nth_mem)
    moreover have "last bs = ?xs ! (length bs - 1)" using assms(1) i ne by (simp add: last_conv_nth)
    ultimately show False using blocks_full [OF assms(3)] short by fastforce
  qed
  with assms(1) show ?thesis by (auto intro: nth_equalityI)
qed

lemma transfer_agrees:
  assumes of: "\<And>x. x \<in> set (numbered 1 bs) \<Longrightarrow> data_of sent limit (uint blk) x"
    and sent: "\<forall>d \<in> set sent. no_data d \<or> d \<in> set (data_raws 1 (take k (blocks (unat blk) c)))" "k \<le> 65536"
    and blk: "0 < unat (blk :: 16 word)" "4 + unat blk \<le> limit"
    and whole: "blocks (unat blk) (concat bs) = bs"
  shows "concat bs = c"
proof -
  have "bs = blocks (unat blk) c"
  proof (rule prefix_of_blocks [OF _ whole blk(1)], intro allI impI)
    fix i assume i: "i < length bs"
    then have "data_of sent limit (uint blk) (1 + int i, bs ! i)" by (intro of) (auto simp: numbered_nth)
    from block_of_sent [OF this _ sent _ blk(2)] show "i < length (blocks (unat blk) c) \<and> bs ! i = blocks (unat blk) c ! i"
      using blocks_length_le [OF blk(1)] by (simp add: nat_add_distrib)
  qed
  then show ?thesis by (metis concat_blocks)
qed

section \<open>Downloads\<close>

lemma served_sent:
  assumes "served s pre a0 bs r s'" "\<forall>d \<in> set pre. no_data d" "sent_to (client s) (outbox s) = []"
  obtains k where "k \<le> 65536"
    "\<forall>d \<in> set (sent_to (client s) (outbox s')). no_data d \<or> d \<in> set (data_raws 1 (take k bs))"
proof -
  have err: "no_data interrupted_raw" by (simp add: no_data_def interrupted_raw_def)
  obtain k extra where k: "sent_to (client s) (outbox s') = pre @ data_raws 1 (take k bs) @ extra"
      "k > 0 \<longrightarrow> acked (client s) s (a0 @ [1..int k - 1]) s'" and r: "case r of
          Inr _ \<Rightarrow> k = length bs \<and> extra = []
        | Inl e \<Rightarrow> extra = [] \<or> interrupted e \<and> extra = [interrupted_raw]"
    using assms(1) unfolding served_def assms(3) append_Nil by blast
  have ex: "set extra \<subseteq> {interrupted_raw}" using r by (cases r) auto
  have "k \<le> 65536"
  proof (rule ccontr)
    assume "\<not> k \<le> 65536"
    then have "acked (client s) s (a0 @ [1..int k - 1]) s'" "int k - 1 \<in> set (a0 @ [1..int k - 1])"
      using k(2) by auto
    then have "int k - 1 < 65536" using acked_range by blast
    with \<open>\<not> k \<le> 65536\<close> show False by simp
  qed
  moreover have "\<forall>d \<in> set (sent_to (client s) (outbox s')). no_data d \<or> d \<in> set (data_raws 1 (take k bs))"
    unfolding k(1) using assms(2) ex err by auto
  ultimately show thesis by (rule that)
qed

lemma rrq_outcome_sent:
  assumes "rrq_outcome s p c r s'" "sent_to (client s) (outbox s) = []"
  obtains k where "k \<le> 65536" "\<forall>d \<in> set (sent_to (client s) (outbox s')).
    no_data d \<or> d \<in> set (data_raws 1 (take k (blocks (nat (request_bs p)) c)))"
proof (cases "outbox s' = outbox s")
  case True
  with assms(2) that [of 0] show thesis by simp
next
  case False
  have "no_data (oack_raw opts)" for opts
  proof -
    have "\<exists>x. opcode_bytes OACK @ x = oack_raw opts"
      using oack_raw_eq [of opts] by (auto simp: OackPacket_MakeRaw_def split: sum.splits)
    then obtain x where "oack_raw opts = opcode_bytes OACK @ x" by metis
    then show ?thesis by (simp add: no_data_def)
  qed
  with assms False that show thesis
    by (auto simp: rrq_outcome_def elim!: served_sent split: if_splits)
qed

lemma download_end_to_end:
  assumes server: "FollowOnRRQ raw sh = Some (r, sh')" "ReadWritePacket_ctor_raw raw = Inr p" "rw_mode p = OCTET"
      "readable sh (request_path sh p) c" "blksize sh = 512" "sent_to (client sh) (outbox sh) = []"
    and client: "Client_Read sc = Some (Inr (), sc')" "client_ok sc" "arg_file_mode (args sc) = OCTET"
      "65468 \<le> maxPacketSize sc"
    and network: "carried (\<lambda>a. sin_port a = sin_port (server sc')) (sent_to (client sh) (outbox sh')) (inbox sc)"
    and agree: "uint (cl_blksize sc') = request_bs p"
  shows "nodes (fsys sc') (download_path sc) = Some (FileN c)"
proof -
  let ?blk = "cl_blksize sc'"
  have m: "nat (request_bs p) = unat ?blk" using agree by (simp flip: agree)
  have "rrq_outcome sh p c r sh'" using wlpD [OF FollowOnRRQ_octet [OF server(2-5)] server(1)] .
  then obtain k where k: "k \<le> 65536" "\<forall>d \<in> set (sent_to (client sh) (outbox sh')).
      no_data d \<or> d \<in> set (data_raws 1 (take k (blocks (unat ?blk) c)))"
    using server(6) unfolding m [symmetric] by (rule rrq_outcome_sent)
  have out: "download_outcome sc (Inr ()) sc'" using wlpD [OF Client_Read_octet [OF client(2,3)] client(1)] .
  then obtain bs where bs: "subseq (numbered 1 bs) (port_datas (sin_port (server sc')) (maxPacketSize sc) (uint ?blk) (inbox sc))"
      "blocks (unat ?blk) (concat bs) = bs" "nodes (fsys sc') (download_path sc) = Some (FileN (concat bs))"
    by (auto simp: download_outcome_def downloaded_def)
  have sz: "0 < unat ?blk" "4 + unat ?blk \<le> maxPacketSize sc"
    using out client(4) unfolding download_outcome_def size_ok_def uint_nat by linarith+
  have "concat bs = c"
  proof (rule transfer_agrees [OF _ k(2,1) sz bs(2)])
    fix x assume "x \<in> set (numbered 1 bs)"
    then have "x \<in> set (port_datas (sin_port (server sc')) (maxPacketSize sc) (uint ?blk) (inbox sc))"
      using bs(1) by (auto dest: list_emb_set)
    then show "data_of (sent_to (client sh) (outbox sh')) (maxPacketSize sc) (uint ?blk) x"
      by (rule port_datas_of [OF network])
  qed
  with bs(3) show ?thesis by simp
qed

section \<open>Uploads\<close>

lemma no_data_requests: "no_data farewell" "no_data (request_raw s WRQ f)"
proof -
  show "no_data farewell" by (simp add: no_data_def farewell_def)
  have "\<exists>x. opcode_bytes WRQ @ x = request_raw s WRQ f \<or> request_raw s WRQ f = []"
    by (auto simp: request_raw_def ReadWritePacket_MakeRaw_def split: sum.splits)
  then obtain x where "request_raw s WRQ f = opcode_bytes WRQ @ x \<or> request_raw s WRQ f = []" by metis
  then show "no_data (request_raw s WRQ f)" by (auto simp: no_data_def GetOpcodeFromRaw_def [of "[]"])
qed

lemma upload_end_to_end:
  assumes client: "Client_Write sc = Some (r, sc')" "client_ok sc" "arg_file_mode (args sc) = OCTET"
      "good_stream (std_in sc)" "sent_to (server sc') (outbox sc) = []"
    and server: "FollowOnWRQ raw sh = Some (Inr (), sh')" "ReadWritePacket_ctor_raw raw = Inr p"
      "rw_mode p = OCTET" "blksize sh = 512" "65468 \<le> maxPacketSize sh"
    and network: "carried (\<lambda>a. a = client sh) (sent_to (server sc') (outbox sc')) (inbox sh)"
    and agree: "uint (cl_blksize sc') = request_bs p" "length (upload_blocks sc' (st_rest (std_in sc))) < 65536"
  shows "nodes (fsys sh') (canonical_of (fsys sh) (request_path sh p)) = Some (FileN (st_rest (std_in sc)))"
proof -
  let ?blk = "cl_blksize sc'" and ?c = "st_rest (std_in sc)"
  have m: "nat (request_bs p) = unat ?blk" using agree(1) by (simp flip: agree(1))
  have out: "upload_outcome sc ?c r sc'" using wlpD [OF Client_Write_octet [OF client(2-4)] client(1)] .
  then obtain pre k extra where k: "sent_to (server sc') (outbox sc') =
      pre @ data_raws 1 (take k (blocks (unat ?blk) ?c)) @ extra" "pre = [] \<or> pre = [wrq_raw sc]"
      "k \<le> length (blocks (unat ?blk) ?c)" and r: "case r of
          Inr _ \<Rightarrow> k = length (upload_blocks sc' ?c) \<and> extra = [] \<and> acked (server sc') sc (ack_numbers k) sc'
        | Inl e \<Rightarrow> extra = [] \<or> interrupted e \<and> extra = [farewell]"
    unfolding upload_outcome_def client(5) append_Nil upload_blocks_def by blast
  have ex: "set extra \<subseteq> {farewell}" using r by (cases r) auto
  have sent: "\<forall>d \<in> set (sent_to (server sc') (outbox sc')). no_data d \<or> d \<in> set (data_raws 1 (take k (blocks (unat ?blk) ?c)))"
    unfolding k(1) using k(2) ex no_data_requests by auto
  have le: "k \<le> 65536" using k(3) agree(2) by (simp add: upload_blocks_def)
  have "wrq_outcome sh p (Inr ()) sh'" using wlpD [OF FollowOnWRQ_octet [OF server(2-4)] server(1)] .
  then obtain bs where bs: "got (client sh) (request_bs p) sh (numbered 1 bs) sh'"
      "blocks (unat ?blk) (concat bs) = bs"
      "nodes (fsys sh') (canonical_of (fsys sh) (request_path sh p)) = Some (FileN (concat bs))"
    by (auto simp: wrq_outcome_def refused_def received_blocks_def m)
  have sz: "0 < unat ?blk" "4 + unat ?blk \<le> maxPacketSize sh"
    using out server(5) unfolding upload_outcome_def size_ok_def uint_nat by linarith+
  have "concat bs = ?c"
  proof (rule transfer_agrees [OF _ sent le sz bs(2)])
    fix x assume x: "x \<in> set (numbered 1 bs)"
    obtain used where used: "inbox sh = used @ inbox sh'"
        "subseq (numbered 1 bs) (datas (client sh) (maxPacketSize sh) (uint ?blk) used)"
      using bs(1) unfolding got_def agree(1) by blast
    have "x \<in> set (datas (client sh) (maxPacketSize sh) (uint ?blk) used)"
      using list_emb_set [OF used(2) x] by auto
    then have "x \<in> set (datas (client sh) (maxPacketSize sh) (uint ?blk) (inbox sh))"
      unfolding used(1) by simp
    then show "data_of (sent_to (server sc') (outbox sc')) (maxPacketSize sh) (uint ?blk) x"
      by (rule datas_of [OF network])
  qed
  with bs(3) show ?thesis by simp
qed

end
