(* ===== verification/WriteCompletion.thy ===== *)
theory WriteCompletion
  imports Completion
begin

text \<open>
  A write request that succeeds: the blocks arrive in order, some of them after disturbances, there
  is room, and nothing interrupts; the handler stores the file and returns.
\<close>

section \<open>One block\<close>

definition arriving :: "DataFormat \<Rightarrow> path \<Rightarrow> nat \<Rightarrow> bytes \<Rightarrow> nat \<Rightarrow> int \<Rightarrow> bytes list \<Rightarrow> net_event list \<Rightarrow>
    client_handler \<Rightarrow> bool" where
  "arriving md pth m c0 k n bs rest s \<longleftrightarrow> incoming md (client s) pth m c0 k n bs rest s \<and> blksize s = int m
     \<and> 0 < m \<and> m \<le> 65464"

lemma arriving_steps [simp]:
  "arriving md pth m c0 k n bs rest (s\<lparr>loads := l\<rparr>) = arriving md pth m c0 k n bs rest s"
  "arriving md pth m c0 k n bs rest (s\<lparr>outbox := out\<rparr>) = arriving md pth m c0 k n bs rest s"
  "arriving md pth m c0 k n bs rest (s\<lparr>udp_timeout := t, so_rcvtimeo := u\<rparr>) = arriving md pth m c0 k n bs rest s"
  by (simp_all add: arriving_def)

lemma arriving_few: "q \<le> k \<Longrightarrow> arriving md pth m c0 k n bs rest s \<Longrightarrow> q < MAX_RETRIES"
  by (simp add: arriving_def incoming_def)

lemma arriving_later:
  assumes "arriving md pth m c0 k n bs rest s" "recv_frame (client s) s s'" "j < MAX_RETRIES"
    and "arrives (client s) (data_due (maxPacketSize s) m n bs) j rest (inbox s')"
  shows "arriving md pth m c0 j n bs rest s'"
  using assms incoming_later [OF _ assms(2-4)] handler_recv_fields [OF assms(2)] by (auto simp: arriving_def)

lemma arriving_received:
  assumes f: "arriving md pth m c0 k n (b # bs) rest s" and r: "recv_frame (client s) s s1"
    and a: "arrives (client s) (data_due (maxPacketSize s) m (n + 1) bs) 0 rest (inbox s1)"
  shows "wlp (write_block b) (\<lambda>r s'. r = Inr () \<and> arriving md pth m (c0 @ b) 0 (n + 1) bs rest s' \<and> w_open (the_writer s')) s1"
proof (rule wlp_mono [OF incoming_written [OF f [unfolded arriving_def, THEN conjunct1] a]], goal_cases)
  case (5 r' s')
  then have eq: "s' = s1\<lparr>fsys := fsys s', the_writer := the_writer s'\<rparr>" by (simp add: sink_frame_def)
  have "client s' = client s1" "blksize s' = blksize s1" by (subst eq; simp)+
  with 5 f handler_recv_fields [OF r] show ?case by (simp add: arriving_def)
qed (simp_all add: recv_frame_fields [OF r] recv_frame_udp_fields [OF r])

lemma arriving_parse:
  assumes "arriving md pth m c0 k n (b # bs) rest s" "length b \<le> m"
  shows "DataPacket_ctor_raw (data_raw n b) (int m) = Inr \<lparr>dp_block_number = word_of_int n, dp_data = b\<rparr>"
  using assms data_raw_parse [of "int m" n b] by (simp add: arriving_def)

text \<open>
  A waiting round, of the first block or a later one: the block, or another try. \<open>q\<close> counts the
  tries the handler counts.
\<close>

lemma next_round_flow:
  assumes f: "arriving md pth m c0 k (bn + 1) (b # bs) rest s" and b: "length b \<le> m" "0 \<le> bn" "bn < 65535"
    and q: "q \<le> k"
  shows "wlp (next_round (False, q, bn, False)) (\<lambda>r s'.
       r = Inr (True, q, bn + 1, length b < m) \<and> arriving md pth m (c0 @ b) 0 (bn + 2) bs rest s' \<and> w_open (the_writer s')
     \<or> (\<exists>p j. r = Inr (False, p, bn, False) \<and> p \<le> j \<and> arriving md pth m c0 j (bn + 1) (b # bs) rest s')) s"
proof -
  let ?s1 = "s\<lparr>outbox := outbox s @ [(client s, block_reply bn)]\<rparr>"
  have f1: "arriving md pth m c0 k (bn + 1) (b # bs) rest ?s1" using f by simp
  have "uint (word_of_int (bn + 1) :: 16 word) = bn + 1" unfolding uint_word16 using b by simp
  then have n: "uint (word_of_int bn + 1 :: 16 word) = bn + 1" by simp
  have m: "blksize s = int m" using f by (simp add: arriving_def)
  note due = incoming_due [OF f1 [unfolded arriving_def, THEN conjunct1] b(1)]
  show ?thesis
    unfolding next_round_def prod.case try_catch_seq wlp_send_to_client sum.case block_reply_def [symmetric]
  proof (rule wlp_wait_client, rule wlp_wait_due [OF due], goal_cases)
    case (1 s')
    have "wlp (write_block b) (\<lambda>r s'. r = Inr () \<and> arriving md pth m (c0 @ b) 0 (bn + 2) bs rest s'
        \<and> w_open (the_writer s')) s'"
      using arriving_received [OF f1 1] by (simp add: add.assoc)
    then show ?case
      using handler_recv_fields(2) [OF 1(1)]
      by (cases "length b < m") (simp_all add: arriving_parse [OF f b(1)] m n, (erule wlp_mono, auto)+)
  next
    case (2 j x s')
    have l: "arriving md pth m c0 j (bn + 1) (b # bs) rest s'" using arriving_later [OF f1 2(1,4)] 2(2) by simp
    note f = handler_recv_fields(2) [OF 2(1)]
    from 2(5) have "stale_data (maxPacketSize s) m (bn + 1) x" by simp
    then show ?case
    proof (cases rule: stale_dataE)
      case (old p)
      then show ?thesis using l 2(3) q f m by (auto intro!: exI [of _ j])
    next
      case (other opc)
      then show ?thesis using l 2(3) q by (auto intro!: exI [of _ j])
    qed
  next
    case (3 j s')
    have "arriving md pth m c0 j (bn + 1) (b # bs) rest s'" using arriving_later [OF f1 3(1,4)] 3(2) by simp
    with 3(3,4) q show ?case by (auto intro!: exI [of _ j])
  qed
qed

lemma first_round_flow:
  assumes f: "arriving md pth m [] k 1 (b # bs) rest s" and b: "length b \<le> m" and reply: "first_reply ho negs reply"
    and q: "q \<le> k"
  shows "wlp (first_round ho negs (False, q, False)) (\<lambda>r s'.
       r = Inr (True, q, length b < m) \<and> arriving md pth m b 0 2 bs rest s' \<and> w_open (the_writer s')
     \<or> (\<exists>p j. r = Inr (False, p, False) \<and> p \<le> j \<and> arriving md pth m [] j 1 (b # bs) rest s')) s"
proof -
  let ?s1 = "s\<lparr>outbox := outbox s @ [(client s, reply)]\<rparr>"
  have f1: "arriving md pth m [] k 1 (b # bs) rest ?s1" using f by simp
  have m: "blksize s = int m" using f by (simp add: arriving_def)
  note due = incoming_due [OF f1 [unfolded arriving_def, THEN conjunct1] b]
  show ?thesis
    unfolding first_round_def prod.case try_catch_seq wlp_first_reply [OF reply] sum.case
  proof (rule wlp_wait_client, rule wlp_wait_due [OF due], goal_cases)
    case (1 s')
    then show ?case
      using arriving_received [OF f1 1] handler_recv_fields(2) [OF 1(1)]
      by (cases "length b < m") (simp_all add: arriving_parse [OF f b] m, (erule wlp_mono, auto)+)
  next
    case (2 j x s')
    have l: "arriving md pth m [] j 1 (b # bs) rest s'" using arriving_later [OF f1 2(1,4)] 2(2) by simp
    note f = handler_recv_fields(2) [OF 2(1)]
    from 2(5) have "stale_data (maxPacketSize s) m 1 x" by simp
    then show ?case
    proof (cases rule: stale_dataE)
      case (old p)
      then show ?thesis using l 2(3) q f m by (auto intro!: exI [of _ j])
    next
      case (other opc)
      then show ?thesis using l 2(3) q by (auto intro!: exI [of _ j])
    qed
  next
    case (3 j s')
    have "arriving md pth m [] j 1 (b # bs) rest s'" using arriving_later [OF f1 3(1,4)] 3(2) by simp
    with 3(3,4) q show ?case by (auto intro!: exI [of _ j])
  qed
qed

text \<open>The two loops.\<close>

lemma next_loop_flow:
  assumes f: "arriving md pth m c0 0 (bn + 1) (b # bs) rest s" and b: "length b \<le> m" "0 \<le> bn" "bn < 65535"
  shows "wlp (receive_round (bn, False)) (\<lambda>r s'. r = Inr (bn + 1, length b < m)
     \<and> arriving md pth m (c0 @ b) 0 (bn + 2) bs rest s' \<and> w_open (the_writer s')) s"
proof -
  define I where "I = (\<lambda>(got, q, bn', fin) s'. q < MAX_RETRIES \<and>
    (if got then bn' = bn + 1 \<and> fin = (length b < m)
       \<and> arriving md pth m (c0 @ b) 0 (bn + 2) bs rest s' \<and> w_open (the_writer s')
     else bn' = bn \<and> \<not> fin \<and> (\<exists>k. q \<le> k \<and> arriving md pth m c0 k (bn + 1) (b # bs) rest s')))"
  have "wlp (while_m next_guard next_round (False, 0, bn, False)) (\<lambda>r s'. \<exists>q. q < MAX_RETRIES
     \<and> r = Inr (True, q, bn + 1, length b < m)
     \<and> arriving md pth m (c0 @ b) 0 (bn + 2) bs rest s' \<and> w_open (the_writer s')) s"
  proof (rule wlp_while [where I = I], goal_cases)
    case 1
    show ?case using f by (auto simp: I_def MAX_RETRIES_def)
  next
    case (2 x s')
    then obtain q k where x: "x = (False, q, bn, False)" "q \<le> k" "arriving md pth m c0 k (bn + 1) (b # bs) rest s'" "q < MAX_RETRIES"
      by (cases x) (auto simp: I_def next_guard_def)
    show ?case
      unfolding x(1) by (rule wlp_mono [OF next_round_flow [OF x(3) b x(2)]])
        (use x(4) in \<open>elim disjE exE conjE; auto simp: I_def intro: arriving_few\<close>)
  next
    case (3 x s')
    then show ?case by (cases x) (auto simp: I_def next_guard_def split: if_splits)
  qed
  then show ?thesis
    unfolding receive_round_def prod.case wlp_bnd by (rule wlp_mono) auto
qed

lemma first_loop_flow:
  assumes f: "arriving md pth m [] 0 1 (b # bs) rest s" and b: "length b \<le> m" and reply: "first_reply ho negs reply"
  shows "wlp (while_m first_guard (first_round ho negs) (False, 0, False)) (\<lambda>r s'. \<exists>q. q < MAX_RETRIES
     \<and> r = Inr (True, q, length b < m) \<and> arriving md pth m b 0 2 bs rest s' \<and> w_open (the_writer s')) s"
proof -
  define I where "I = (\<lambda>(got, q, fin) s'. q < MAX_RETRIES \<and>
    (if got then fin = (length b < m) \<and> arriving md pth m b 0 2 bs rest s' \<and> w_open (the_writer s')
     else \<not> fin \<and> (\<exists>k. q \<le> k \<and> arriving md pth m [] k 1 (b # bs) rest s')))"
  show ?thesis
  proof (rule wlp_while [where I = I], goal_cases)
    case 1
    show ?case using f by (auto simp: I_def MAX_RETRIES_def)
  next
    case (2 x s')
    then obtain q k where x: "x = (False, q, False)" "q \<le> k" "arriving md pth m [] k 1 (b # bs) rest s'" "q < MAX_RETRIES"
      by (cases x) (auto simp: I_def first_guard_def)
    show ?case
      unfolding x(1) by (rule wlp_mono [OF first_round_flow [OF x(3) b reply x(2)]])
        (use x(4) in \<open>elim disjE exE conjE; auto simp: I_def intro: arriving_few\<close>)
  next
    case (3 x s')
    then show ?case by (cases x) (auto simp: I_def first_guard_def split: if_splits)
  qed
qed

section \<open>All the blocks\<close>

lemma receive_loop_flow:
  assumes "arriving md pth m c0 0 (bn + 1) (blocks m c) rest s" "0 \<le> bn" "bn + int (length (blocks m c)) \<le> 65535"
  shows "wlp (while_m receive_guard receive_round (bn, False)) (\<lambda>r s'. (\<exists>k. r = Inr (k, True))
     \<and> (\<exists>k. arriving md pth m (c0 @ c) 0 k [] rest s') \<and> w_open (the_writer s')) s"
  using assms
proof (induction "length c" arbitrary: c c0 bn s rule: less_induct)
  case less
  have m: "0 < m" using less.prems(1) by (simp add: arriving_def)
  have g: "receive_guard (bn, False)" "\<not> receive_guard (bn + 1, True)" by (simp_all add: receive_guard_def)
  show ?case
  proof (cases "length c < m")
    case True
    have f: "arriving md pth m c0 0 (bn + 1) (c # []) rest s" using less.prems(1) True by (simp add: blocks_short)
    show ?thesis
      unfolding wlp_while_go [where c = receive_guard, OF g(1)]
      by (rule wlp_mono [OF next_loop_flow [OF f _ less.prems(2)]])
        (use True less.prems(3) in \<open>auto simp: blocks_short wlp_while_out [where c = receive_guard, OF g(2)]\<close>)
  next
    case False
    let ?b = "take m c" and ?c = "drop m c"
    have bs: "blocks m c = ?b # blocks m ?c" using False m by (simp add: blocks_long)
    have others: "wlp (while_m receive_guard receive_round (bn + 1, False)) (\<lambda>r s'. (\<exists>k. r = Inr (k, True))
       \<and> (\<exists>k. arriving md pth m (c0 @ c) 0 k [] rest s') \<and> w_open (the_writer s')) s1"
      if "arriving md pth m (c0 @ ?b) 0 (bn + 2) (blocks m ?c) rest s1" for s1
      using less.hyps [of ?c "c0 @ ?b" "bn + 1" s1] that False less.prems(2,3) m
      by (simp add: bs add.assoc)
    have f: "arriving md pth m c0 0 (bn + 1) (?b # blocks m ?c) rest s" using less.prems(1) bs by simp
    show ?thesis
      unfolding wlp_while_go [where c = receive_guard, OF g(1)]
      by (rule wlp_mono [OF next_loop_flow [OF f _ less.prems(2)]])
        (use False less.prems(3) bs others in auto)
  qed
qed

lemma receive_file_flow:
  assumes f: "arriving md pth m [] 0 1 (blocks m c) rest s" and reply: "first_reply ho negs reply"
    and few: "length (blocks m c) \<le> 65535"
  shows "wlp (receive_file ho negs) (\<lambda>r s'. r = Inr () \<and> (\<exists>k. arriving md pth m c 0 k [] rest s')
     \<and> w_open (the_writer s')) s"
proof -
  have m: "0 < m" using f by (simp add: arriving_def)
  have f1: "arriving md pth m [] 0 1 (take m c # tl (blocks m c)) rest s" using f blocks_hd [OF m, of c] by simp
  have others: "wlp (while_m receive_guard receive_round (1, min (length c) m < m)) (\<lambda>r s'. (\<exists>k. r = Inr (k, True))
       \<and> (\<exists>k. arriving md pth m c 0 k [] rest s') \<and> w_open (the_writer s')) s1"
    if a: "arriving md pth m (take m c) 0 2 (tl (blocks m c)) rest s1" "w_open (the_writer s1)" for s1
  proof (cases "length c < m")
    case True
    have "\<not> receive_guard (1, True)" by (simp add: receive_guard_def)
    then show ?thesis
      using a True by (auto simp: wlp_while_out [where c = receive_guard] blocks_short)
  next
    case False
    have "arriving md pth m (take m c) 0 (1 + 1) (blocks m (drop m c)) rest s1"
      using a False m by (simp add: blocks_long)
    from receive_loop_flow [OF this] show ?thesis
      using False few m by (simp add: blocks_long)
  qed
  show ?thesis
    unfolding receive_file_def wlp_bnd [of "while_m first_guard _ _"]
    by (rule wlp_mono [OF first_loop_flow [OF f1 _ reply]])
      (auto simp: MAX_RETRIES_def intro!: wlp_mono [OF others], blast)
qed

section \<open>The whole request\<close>

lemma skip_no_tsize:
  "\<forall>opt \<in> set opts. opt_name opt \<noteq> TSIZE \<Longrightarrow>
   for_each opts (\<lambda>opt. if opt_name opt = TSIZE then act opt else skip) s = Some (Inr (), s)"
  by (induction opts) (auto simp: seq_def bnd_run run_simps)

text \<open>An empty block is only sent after blocks that are all full.\<close>

lemma blocks_empty: "0 < n \<Longrightarrow> [] \<in> set (blocks n c) \<Longrightarrow> n dvd length c"
proof (induction n c rule: blocks.induct)
  case (1 n c)
  show ?case
  proof (cases "length c < n")
    case True
    with 1 show ?thesis by (simp add: blocks_short)
  next
    case False
    with 1 have "n dvd length (drop n c)" by (auto simp: blocks_long)
    with False show ?thesis using dvd_diffD [of n "length c" n] by simp
  qed
qed

text \<open>Text must be such that it can be decoded block by block.\<close>

definition storable :: "DataFormat \<Rightarrow> nat \<Rightarrow> bytes \<Rightarrow> bool" where
  "storable md n c \<longleftrightarrow> (md = DF_NETASCII \<longrightarrow> no_false_pair c \<and> \<not> n dvd length c)"

text \<open>The session with the writer made, and a request that passes the checks.\<close>

definition with_writer :: "client_handler \<Rightarrow> read_write_packet \<Rightarrow> client_handler" where
  "with_writer s p = s\<lparr>the_writer := \<lparr>w_filepath = request_path s p, w_mode = data_format (rw_mode p),
      w_open = False, w_fail = False, w_tbw_later_buffer = []\<rparr>\<rparr>"

lemma FollowOnWRQ_admitted:
  assumes "ReadWritePacket_ctor_raw raw = Inr p" "writable s (request_path s p)"
  shows "FollowOnWRQ raw s = scoped (bnd (NegotiateOptions (rw_options p)) (\<lambda>negs.
      seq (for_each negs (\<lambda>opt. if opt_name opt = TSIZE then bnd (gets hd_tsize) (\<lambda>tsize.
           if \<not> HasEnoughSpace (fsys s) (root_dirpath s) (tsize mod 2 ^ 64)
           then throw NotEnoughSpaceException else skip) else skip))
        (receive_file (length (rw_options p) > 0) negs))) Writer_dtor (with_writer s p)"
  unfolding FollowOnWRQ_def assms(1) bnd_run_simps Let_def request_path_def [symmetric]
  using assms(2) by (simp add: Writer_ctor_def seq_def bnd_run run_simps writable_def with_writer_def)

lemma wlp_without_tsize:
  assumes "\<forall>opt \<in> set opts. opt_name opt \<noteq> TSIZE"
  shows "wlp (seq (for_each (supported opts) (\<lambda>opt. if opt_name opt = TSIZE then act opt else skip)) m) Q s = wlp m Q s"
proof -
  have "for_each (supported opts) (\<lambda>opt. if opt_name opt = TSIZE then act opt else skip) s = Some (Inr (), s)"
    using assms by (intro skip_no_tsize) (auto simp: supported_def)
  then show ?thesis unfolding seq_def by (rule wlp_bnd_eq)
qed

text \<open>The state in which the transfer of the blocks starts.\<close>

lemma arriving_start:
  assumes parse: "ReadWritePacket_ctor_raw raw = Inr p"
    and mode: "storable (data_format (rw_mode p)) (nat (request_bs p)) c"
    and may: "may_store (fsys s) (canonical_of (fsys s) (request_path s p)) (length c)"
    and net: "sigint_at s = None" "65468 \<le> maxPacketSize s"
      "arrives (client s) (data_due (maxPacketSize s) (nat (request_bs p)) 1 (blocks (nat (request_bs p)) c)) 0 rest (inbox s)"
    and n: "negotiated (with_writer s p) s1" "blksize s1 = request_bs p"
  shows "arriving (data_format (rw_mode p)) (canonical_of (fsys s) (request_path s p)) (nat (request_bs p)) [] 0 1
    (blocks (nat (request_bs p)) c) rest s1"
proof -
  note f = negotiated_fields [OF n(1)]
  have sz: "0 < nat (request_bs p)" "nat (request_bs p) \<le> 65464" "request_bs p = int (nat (request_bs p))"
    using request_bs_range [OF parse] by auto
  have "storing s1 [] (blocks (nat (request_bs p)) c)"
    using f may blocks_empty [OF sz(1), of c] mode
    by (auto simp: storing_def writer_holds_def room_def text_written_def may_store_def storable_def with_writer_def Let_def
        split: DataFormat.split)
  then show ?thesis
    using f net sz n(2) by (simp add: arriving_def incoming_def with_writer_def MAX_RETRIES_def)
qed

text \<open>The destructor of the writer writes what is left.\<close>

lemma arriving_close:
  assumes "arriving md pth m c 0 k [] rest s" "w_open (the_writer s)" "md = DF_NETASCII \<longrightarrow> no_false_pair c"
  shows "wlp Writer_dtor (\<lambda>r s'. r = Inr () \<and> inbox s' = rest \<and> nodes (fsys s') pth = Some (FileN (local_text md c))) s"
proof -
  have st: "storing s c []" "w_mode (the_writer s) = md" "inbox s = rest"
    "canonical_of (fsys s) (w_filepath (the_writer s)) = pth"
    using assms(1) by (simp_all add: arriving_def incoming_def)
  have "w_mode (the_writer s) = DF_NETASCII \<longrightarrow> no_false_pair c" using assms(3) st(2) by simp
  then show ?thesis
  proof (rule wlp_mono [OF storing_close [OF st(1) assms(2)]], goal_cases)
    case (1 r s')
    have eq: "s' = s\<lparr>fsys := fsys s', the_writer := the_writer s'\<rparr>" using 1 by (simp add: sink_frame_def)
    have "inbox s' = rest" by (subst eq) (simp add: st(3))
    with 1 st show ?case by simp
  qed
qed

lemma FollowOnWRQ_completes:
  assumes parse: "ReadWritePacket_ctor_raw raw = Inr p"
    and mode: "storable (data_format (rw_mode p)) (nat (request_bs p)) c"
    and wr: "writable s (request_path s p)" and fresh: "blksize s = 512"
    and ts: "\<forall>opt \<in> set (rw_options p). opt_name opt \<noteq> TSIZE"
    and may: "may_store (fsys s) (canonical_of (fsys s) (request_path s p)) (length c)"
    and net: "sigint_at s = None" "65468 \<le> maxPacketSize s"
      "arrives (client s) (data_due (maxPacketSize s) (nat (request_bs p)) 1 (blocks (nat (request_bs p)) c)) 0 rest (inbox s)"
    and few: "length (blocks (nat (request_bs p)) c) \<le> 65535"
  shows "\<exists>s'. FollowOnWRQ raw s = Some (Inr (), s') \<and> inbox s' = rest
     \<and> nodes (fsys s') (canonical_of (fsys s) (request_path s p)) =
         Some (FileN (local_text (data_format (rw_mode p)) c))"
    (is "\<exists>s'. _ \<and> ?P s'")
proof -
  let ?s0 = "with_writer s p" and ?negs = "supported (rw_options p)"
  have "int_tsize (rw_options p)" using ts by (simp add: int_tsize_def)
  then obtain s1 where n: "NegotiateOptions (rw_options p) ?s0 = Some (Inr ?negs, s1)"
    "negotiated ?s0 s1" "blksize s1 = request_bs p"
    using NegotiateOptions_run [OF ReadWritePacket_valid [OF parse], of ?s0] fresh
    by (auto simp: request_bs_def with_writer_def)
  note tail = receive_file_flow [OF arriving_start [OF parse mode may net n(2,3)] first_reply_raw few]
  have neg: "wlp (bnd (NegotiateOptions (rw_options p)) k) Q ?s0 = wlp (k ?negs) Q s1" for k :: "_ \<Rightarrow> (client_handler, unit) prog" and Q
    by (rule wlp_bnd_eq) (rule n(1))
  have pairs: "data_format (rw_mode p) = DF_NETASCII \<longrightarrow> no_false_pair c" using mode by (simp add: storable_def)
  have "wlp (FollowOnWRQ raw) (\<lambda>r s'. r = Inr () \<and> ?P s') s"
    unfolding wlp_def FollowOnWRQ_admitted [OF parse wr]
    unfolding wlp_def [symmetric] wlp_scoped neg wlp_without_tsize [OF ts]
  proof (rule wlp_mono [OF tail], goal_cases)
    case (1 r s')
    then obtain k where end_ok: "r = Inr ()" "w_open (the_writer s')"
      "arriving (data_format (rw_mode p)) (canonical_of (fsys s) (request_path s p)) (nat (request_bs p)) c 0 k [] rest s'"
      by auto
    show ?case
      unfolding end_ok(1) sum.case
      by (rule wlp_mono [OF arriving_close [OF end_ok(3,2) pairs]]) simp
  qed
  then show ?thesis
    using returns_FollowOnWRQ [of raw s] by (auto simp: returns_iff dest!: wlpD)
qed

end
