(* ===== verification/Exchange.thy ===== *)
theory Exchange
  imports EndToEnd WriteCompletion
begin

text \<open>
  The two programs with each other, without options: there is a run of both in which each receives
  exactly packets the other has sent, both return, and the file is copied.
\<close>

section \<open>Requests without options\<close>

definition plain_request :: "Opcode \<Rightarrow> string \<Rightarrow> read_write_packet" where
  "plain_request opc f = \<lparr>rw_opcode = opc, rw_filepath = f, rw_mode = OCTET, rw_options = []\<rparr>"

lemma plain_request_simps [simp]:
  "rw_opcode (plain_request opc f) = opc" "rw_filepath (plain_request opc f) = f"
  "rw_mode (plain_request opc f) = OCTET" "rw_options (plain_request opc f) = []"
  "request_bs (plain_request opc f) = 512"
  by (simp_all add: plain_request_def request_bs_def)

lemma plain_request_sent:
  assumes "arg_options (args s) = []" "wf_request (plain_request opc f)"
  shows "ReadWritePacket_ctor_raw (request_raw s opc f) = Inr (plain_request opc f)"
  using request_codec.roundtrip [OF assms(2)] assms(1)
  by (auto simp: request_raw_def plain_request_def)

text \<open>A client that has not run yet, and asks for no options.\<close>

definition plain_client :: "tftp_client \<Rightarrow> bool" where
  "plain_client s \<longleftrightarrow> arg_options (args s) = [] \<and> arg_file_mode (args s) = OCTET \<and> cl_blksize s = 512
     \<and> sigint_at s = None \<and> 65468 \<le> maxPacketSize s"

lemma plain_client_ok: "plain_client s \<Longrightarrow> client_ok s \<and> size_ok s \<and> unat (cl_blksize s) = 512"
  by (simp add: plain_client_def client_ok_def size_ok_def)

text \<open>A session of the server that has not sent anything yet.\<close>

definition new_session :: "client_handler \<Rightarrow> bool" where
  "new_session s \<longleftrightarrow> blksize s = 512 \<and> sigint_at s = None \<and> 65468 \<le> maxPacketSize s \<and> outbox s = []"

text \<open>Everything in the inbox is a packet that was sent, and comes from \<open>a\<close>.\<close>

definition all_sent :: "sockaddr \<Rightarrow> bytes list \<Rightarrow> net_event list \<Rightarrow> bool" where
  "all_sent a sent evs \<longleftrightarrow> set evs \<subseteq> Datagram a ` set sent"

lemma all_sent_datas: "set (data_raws n bs) \<subseteq> set sent \<Longrightarrow> all_sent a sent (map (Datagram a) (data_raws n bs))"
  by (auto simp: all_sent_def)

lemma all_sent_acks:
  "ack_raw ` {i..j} \<subseteq> set sent \<Longrightarrow> all_sent a sent (map (ack_dgram a) [i..j])"
  by (auto simp: all_sent_def ack_dgram_def)

lemma ack_raw_block_reply: "ack_raw n = block_reply n"
  by (simp add: ack_raw_def block_reply_def)

lemma acks_of: "{l..k} \<subseteq> set ns \<Longrightarrow> ack_raw ` {int l..int k} \<subseteq> (\<lambda>n. block_reply (int n)) ` set ns"
proof
  fix x assume n: "{l..k} \<subseteq> set ns" and x: "x \<in> ack_raw ` {int l..int k}"
  then obtain i where i: "x = ack_raw i" "int l \<le> i" "i \<le> int k" by auto
  then have "nat i \<in> {l..k}" "int (nat i) = i" by auto
  with n have "nat i \<in> set ns" "int (nat i) = i" by blast+
  then show "x \<in> (\<lambda>n. block_reply (int n)) ` set ns"
    unfolding i(1) ack_raw_block_reply by (metis image_eqI)
qed

section \<open>A download\<close>

text \<open>The port the client has downloaded from, when everything it received came from one address.\<close>

lemma downloaded_port:
  assumes o: "downloaded s bs k ns extra s'" "bs \<noteq> []" and i: "inbox s = map (Datagram a) ds"
  shows "sin_port (server s') = sin_port a"
proof -
  have "(1, hd bs) \<in> set (port_datas (sin_port (server s')) (maxPacketSize s) (uint (cl_blksize s')) (inbox s))"
    using o list_emb_set [of "(=)" "numbered 1 bs"] by (cases bs) (fastforce simp: downloaded_def)+
  then obtain e where "e \<in> set (inbox s)" "port_event (sin_port (server s')) (maxPacketSize s) (uint (cl_blksize s')) e \<noteq> []"
    unfolding port_datas_def by fastforce
  then show ?thesis using i by (auto simp: port_event_def split: if_splits)
qed

lemma download_exchange_run:
  assumes c: "plain_client sc" "wf_request (plain_request RRQ (arg_filepath (args sc)))"
      "may_store (fsys sc) (download_path sc) (length c)" "outbox sc = []"
    and s: "new_session sh" "readable sh (request_path sh (plain_request RRQ (arg_filepath (args sc)))) c"
    and few: "length (blocks 512 c) < 65536"
    and a: "sin_addr a = sin_addr (server sc)"
    and net: "inbox sh = map (ack_dgram (client sh)) [1..int (length (blocks 512 c))]"
      "inbox sc = map (Datagram a) (data_raws 1 (blocks 512 c))"
  shows "\<exists>sh' sc'. FollowOnRRQ (rrq_raw sc) sh = Some (Inr (), sh') \<and> Client_Read sc = Some (Inr (), sc')
     \<and> server sc' = a \<and> nodes (fsys sc') (download_path sc) = Some (FileN c)
     \<and> sent_to (client sh) (outbox sh') = data_raws 1 (blocks 512 c)
     \<and> ack_raw ` {1..int (length (blocks 512 c))} \<subseteq> set (sent_to a (outbox sc'))"
proof -
  let ?p = "plain_request RRQ (arg_filepath (args sc))" and ?z = "int (length (blocks 512 c))"
  have pc: "arg_options (args sc) = []" "arg_file_mode (args sc) = OCTET" "client_ok sc" "size_ok sc"
    "unat (cl_blksize sc) = 512" "sigint_at sc = None" "65468 \<le> maxPacketSize sc"
    using c(1) plain_client_ok [OF c(1)] by (simp_all add: plain_client_def)
  have parse: "ReadWritePacket_ctor_raw (rrq_raw sc) = Inr ?p" by (rule plain_request_sent [OF pc(1) c(2)])
  have acks: "arrives (client sh) (acks_due (maxPacketSize sh) [] ?z) 0 [] (inbox sh)"
    unfolding net(1) using all_acks_arrive [of "client sh" "maxPacketSize sh" "[]" ?z 0 "[]"] by (simp add: all_acks_def)
  obtain sh' where h: "FollowOnRRQ (rrq_raw sc) sh = Some (Inr (), sh')"
    "sent_to (client sh) (outbox sh') = data_raws 1 (blocks 512 c)"
    using FollowOnRRQ_cooperative [OF parse, of sh c "[]"] s few acks by (auto simp: new_session_def)
  have "answered_then a (answer None (blocks 512 c)) (then_due (maxPacketSize sc) 512 None (blocks 512 c)) 0 [] (inbox sc)"
    unfolding net(2) using blocks_hd [of 512 c] data_due_all [of a "maxPacketSize sc" 512 2 "tl (blocks 512 c)" 0 "[]"]
    by (cases "blocks 512 c") (simp_all add: answer_def then_due_def)
  then have "serves a None c [] sc"
    using pc a few by (simp add: serves_def accepts_def sendable_def Let_def)
  from Client_Read_completes [OF this pc(2) c(3)] obtain sc' where
    d: "Client_Read sc = Some (Inr (), sc')" "nodes (fsys sc') (download_path sc) = Some (FileN c)" "cl_blksize sc' = cl_blksize sc"
    by blast
  have "download_outcome sc (Inr ()) sc'" using wlpD [OF Client_Read_octet [OF pc(3,2)] d(1)] .
  then have addr: "sin_addr (server sc') = sin_addr (server sc)" and "\<exists>bs k ns. downloaded sc bs k ns [] sc' \<and> ns \<noteq> []
      \<and> last ns = length bs \<and> blocks 512 (concat bs) = bs
      \<and> nodes (fsys sc') (download_path sc) = Some (FileN (concat bs))"
    by (auto simp: download_outcome_def d(3) pc(5))
  then obtain bs k ns where o: "downloaded sc bs k ns [] sc'" "ns \<noteq> []" "last ns = length bs"
    "blocks 512 (concat bs) = bs" "nodes (fsys sc') (download_path sc) = Some (FileN (concat bs))"
    by blast
  have "concat bs = c" using o(5) d(2) by simp
  with o(4) have bs: "bs = blocks 512 c" by simp
  have srv: "server sc' = a"
    using downloaded_port [OF o(1) _ net(2)] bs addr a by simp
  have "length bs \<in> set ns" using o(2,3) last_in_set by metis
  then have "{1..length bs} \<subseteq> set ns" using o(1) acks_upto_all by (simp add: downloaded_def)
  from acks_of [OF this] o(1) have "ack_raw ` {1..?z} \<subseteq> set (sent_to (server sc') (outbox sc'))"
    by (auto simp: downloaded_def bs)
  with h d srv show ?thesis by auto
qed

section \<open>An upload\<close>

lemma upload_exchange_run:
  assumes c: "plain_client sc" "wf_request (plain_request WRQ (arg_dest_filepath (args sc)))"
      "good_stream (std_in sc)" "outbox sc = []"
    and s: "new_session sh" "writable sh (request_path sh (plain_request WRQ (arg_dest_filepath (args sc))))"
      "may_store (fsys sh) (canonical_of (fsys sh) (request_path sh (plain_request WRQ (arg_dest_filepath (args sc)))))
         (length (st_rest (std_in sc)))"
    and few: "length (blocks 512 (st_rest (std_in sc))) \<le> 65535"
    and a: "sin_addr a = sin_addr (server sc)"
    and net: "inbox sh = map (Datagram (client sh)) (data_raws 1 (blocks 512 (st_rest (std_in sc))))"
      "inbox sc = map (ack_dgram a) [0..int (length (blocks 512 (st_rest (std_in sc))))]"
  shows "\<exists>sh' sc'. FollowOnWRQ (wrq_raw sc) sh = Some (Inr (), sh') \<and> Client_Write sc = Some (Inr (), sc')
     \<and> nodes (fsys sh') (canonical_of (fsys sh) (request_path sh (plain_request WRQ (arg_dest_filepath (args sc)))))
         = Some (FileN (st_rest (std_in sc)))
     \<and> server sc' = a \<and> set (data_raws 1 (blocks 512 (st_rest (std_in sc)))) \<subseteq> set (sent_to a (outbox sc'))
     \<and> ack_raw ` {0..int (length (blocks 512 (st_rest (std_in sc))))} \<subseteq> set (sent_to (client sh) (outbox sh'))"
proof -
  let ?p = "plain_request WRQ (arg_dest_filepath (args sc))" and ?c = "st_rest (std_in sc)"
  let ?z = "int (length (blocks 512 ?c))"
  have pc: "arg_options (args sc) = []" "arg_file_mode (args sc) = OCTET" "client_ok sc" "size_ok sc"
    "unat (cl_blksize sc) = 512" "sigint_at sc = None" "65468 \<le> maxPacketSize sc"
    using c(1) plain_client_ok [OF c(1)] by (simp_all add: plain_client_def)
  have parse: "ReadWritePacket_ctor_raw (wrq_raw sc) = Inr ?p" by (rule plain_request_sent [OF pc(1) c(2)])
  have "[0..?z] = 0 # [1..?z]" by (simp add: upto_rec1)
  then have "acknowledges a None [] sc"
    using pc a ack_due_all [of a "maxPacketSize sc" "[1..?z]" 0 "[]"] unfolding acknowledges_def net(2)
    by (simp add: accepts_def sendable_def wrq_answer_def ack_dgram_def)
  from Client_Write_completes [OF this c(3) pc(2)] obtain sc' where
    d: "Client_Write sc = Some (Inr (), sc')" "cl_blksize sc' = cl_blksize sc" "server sc' = a"
    by blast
  have "upload_outcome sc ?c (Inr ()) sc'" using wlpD [OF Client_Write_octet [OF pc(3,2) c(3)] d(1)] .
  then have sent: "set (data_raws 1 (blocks 512 ?c)) \<subseteq> set (sent_to a (outbox sc'))"
    by (auto simp: upload_outcome_def upload_blocks_def d(2,3) pc(5))
  have "arrives (client sh) (data_due (maxPacketSize sh) 512 1 (blocks 512 ?c)) 0 [] (inbox sh)"
    unfolding net(1) using data_due_all [of "client sh" "maxPacketSize sh" 512 1 "blocks 512 ?c" 0 "[]"] by simp
  then obtain sh' where h: "FollowOnWRQ (wrq_raw sc) sh = Some (Inr (), sh')"
    "nodes (fsys sh') (canonical_of (fsys sh) (request_path sh ?p)) = Some (FileN ?c)"
    using FollowOnWRQ_completes [OF parse, of ?c sh "[]"] s few
    by (auto simp: new_session_def storable_def data_format_def)
  have "wrq_outcome sh ?p (Inr ()) sh'"
    using wlpD [OF FollowOnWRQ_octet [OF parse] h(1)] s(1) by (simp add: new_session_def)
  then obtain bs ns where o: "sent_to (client sh) (outbox sh') = sent_to (client sh) (outbox sh)
      @ map (reply_of (0, first_raw [])) ns" "acks_upto 0 (length bs) ns" "ns \<noteq> []" "last ns = length bs"
    "blocks 512 (concat bs) = bs" "nodes (fsys sh') (canonical_of (fsys sh) (request_path sh ?p)) = Some (FileN (concat bs))"
    by (auto simp: wrq_outcome_def refused_def received_blocks_def)
  have "concat bs = ?c" using o(6) h(2) by simp
  with o(5) have bs: "bs = blocks 512 ?c" by simp
  have "length bs \<in> set ns" using o(3,4) last_in_set by metis
  then have "{0..length bs} \<subseteq> set ns" using acks_upto_all [OF o(2)] by simp
  moreover have "reply_of (0, first_raw []) = (\<lambda>n. block_reply (int n))" by (simp add: first_raw_def)
  ultimately have "ack_raw ` {0..?z} \<subseteq> set (sent_to (client sh) (outbox sh'))"
    using acks_of [of 0 "length bs" ns] o(1) by (auto simp: bs)
  with h d sent show ?thesis by blast
qed

end
