(* ===== verification/TransferProperties.thy ===== *)
theory TransferProperties
  imports ServerProperties ClientProperties SystemProperties Exchange
begin

text \<open>
  Whole transfers: they succeed when the peer's packets arrive, in spite of some losses and
  repetitions, and there is room; and the file that one side stores is the one the other side sent.
  The runs the properties are applied at copy the file \<open>/srv/hello\<close> in one block, after a timeout
  and a repeated packet, and store a text of two blocks.
\<close>

section \<open>Inputs\<close>

lemma ex_one_block: "blocks 512 ex_content = [ex_content]"
  by (simp add: blocks_short ex_content_def)

lemma ex_content_length [simp]: "length ex_content = 11"
  by (simp add: ex_content_def)

text \<open>The request of the download and of the upload, and the states of both sides.\<close>

definition ex_get :: read_write_packet where
  "ex_get = ex_request RRQ ''hello'' []"

definition ex_get_server :: client_handler where
  "ex_get_server = ex_session (all_acks ex_client [] 1)"

definition ex_get_client :: tftp_client where
  "ex_get_client = ex_tftp_client [RecvTimeout, Datagram ex_server (data_raw 1 ex_content)]"

definition ex_put_client :: tftp_client where
  "ex_put_client = ex_upload [ack_dgram ex_server 0, RecvTimeout, ack_dgram ex_server 0, ack_dgram ex_server 1]"

definition ex_put_server :: client_handler where
  "ex_put_server = ex_session [Datagram ex_client (data_raw 1 ex_content)]"

lemma ex_upload_stream [simp]: "std_in (ex_upload evs) = stream_of ex_content"
  by (simp add: ex_upload_def)

lemma ex_get_facts [simp]:
  "ReadWritePacket_ctor_raw (ex_raw ex_get) = Inr ex_get" "rw_mode ex_get = OCTET" "rw_options ex_get = []"
  "request_bs ex_get = 512"
proof -
  have "wf_request ex_get" by code_simp
  then show "ReadWritePacket_ctor_raw (ex_raw ex_get) = Inr ex_get" by (rule ex_parse)
qed (code_simp+)

lemma ex_store_facts [simp]:
  "ReadWritePacket_ctor_raw (ex_raw ex_store) = Inr ex_store" "rw_mode ex_store = OCTET"
  "rw_options ex_store = []" "request_bs ex_store = 512"
proof -
  have "wf_request ex_store" by code_simp
  then show "ReadWritePacket_ctor_raw (ex_raw ex_store) = Inr ex_store" by (rule ex_parse)
qed (code_simp+)

lemma ex_get_readable: "readable ex_get_server (request_path ex_get_server ex_get) ex_content"
proof -
  have "isFilePathUnderDirectory ex_fs ''/srv/hello'' ''/srv'' = Some True" by code_simp
  moreover have "canonical_of ex_fs ''/srv/hello'' = [''srv'', ''hello'']" by code_simp
  ultimately show ?thesis
    by (simp add: readable_def ex_get_server_def ex_get_def) (simp add: ex_fs_def)
qed

lemma ex_put_writable: "writable ex_put_server (request_path ex_put_server ex_store)"
  "canonical_of ex_fs ''/srv/new'' = [''srv'', ''new'']"
proof -
  show c: "canonical_of ex_fs ''/srv/new'' = [''srv'', ''new'']" by code_simp
  have "isFilePathUnderDirectory ex_fs ''/srv/new'' ''/srv'' = Some True" by code_simp
  with c show "writable ex_put_server (request_path ex_put_server ex_store)"
    by (simp add: writable_def ex_put_server_def ex_store_def FileExists_def) (simp add: ex_fs_def)
qed

lemma ex_store_path [simp]: "request_path (ex_session evs) ex_store = ''/srv/new''"
  by (simp add: ex_store_def)

section \<open>Transfers that succeed\<close>

text \<open>
  C11. A download succeeds when the server answers with an OACK the client accepts, or with the
  first block, after at most four requests without an answer, and the blocks of a file arrive in
  order, even though before each of them up to four receives time out or bring a datagram of a
  stranger, an earlier block once more or another packet that is no ERROR: the client returns
  normally and the destination holds the file. The file has fewer than 65536 blocks, and there is
  room for it.
\<close>

theorem download_completes:
  assumes "serves a opts c rest s" "arg_file_mode (args s) = OCTET"
    and "may_store (fsys s) (download_path s) (length c)"
  shows "\<exists>s'. Client_Read s = Some (Inr (), s') \<and> nodes (fsys s') (download_path s) = Some (FileN c)
     \<and> cl_blksize s' = cl_blksize s"
  using Client_Read_completes [OF assms] .

lemma ex_get_serves:
  "serves ex_server None ex_content [] ex_get_client"
  "may_store (fsys ex_get_client) (download_path ex_get_client) (length ex_content)"
  "download_path ex_get_client = [''srv'', ''copy'']"
proof -
  show p: "download_path ex_get_client = [''srv'', ''copy'']"
    by (simp add: download_path_def ex_get_client_def ex_args_def ex_fs_def)
  show "serves ex_server None ex_content [] ex_get_client"
    by (simp add: serves_def ex_get_client_def size_ok_def accepts_def answer_def then_due_def ex_one_block
        ex_server_def MAX_RETRIES_def)
  show "may_store (fsys ex_get_client) (download_path ex_get_client) (length ex_content)"
    unfolding p by (simp add: may_store_def ex_get_client_def) (simp add: ex_fs_def ex_content_def)
qed

theorem download_completes_witness:
  "\<exists>s'. Client_Read ex_get_client = Some (Inr (), s')
     \<and> nodes (fsys s') [''srv'', ''copy''] = Some (FileN ex_content)"
  using download_completes [OF ex_get_serves(1) _ ex_get_serves(2)] ex_get_serves(3)
  by (auto simp: ex_get_client_def)

text \<open>
  C12. An upload succeeds when the server answers the first request with an ACK of block 0 or an
  OACK the client accepts, and the acknowledgements of the blocks then arrive in order, even though
  before each of them up to four receives time out or bring a datagram of a stranger, a lower block
  number or another packet that is no ERROR: the client returns normally after it has sent every
  block of the standard input to the port of the answer, however many there are.
\<close>

theorem upload_completes:
  assumes "acknowledges a opts rest s" "good_stream (std_in s)" "arg_file_mode (args s) = OCTET"
    and "client_ok s"
  shows "\<exists>s' pre. Client_Write s = Some (Inr (), s') \<and> inbox s' = rest
     \<and> sent_to a (outbox s') = sent_to a (outbox s) @ pre
         @ data_raws 1 (blocks (unat (cl_blksize s)) (st_rest (std_in s)))
     \<and> (pre = [] \<or> pre = [wrq_raw s])"
proof -
  obtain s' where s': "Client_Write s = Some (Inr (), s')" "cl_blksize s' = cl_blksize s"
    "inbox s' = rest" "server s' = a"
    using Client_Write_completes [OF assms(1-3)] by blast
  have "upload_outcome s (st_rest (std_in s)) (Inr ()) s'"
    using wlpD [OF Client_Write_octet [OF assms(4,3,2)] s'(1)] .
  with s' show ?thesis by (auto simp: upload_outcome_def upload_blocks_def)
qed

lemma ex_put_acknowledges: "acknowledges ex_server None [] ex_put_client"
  by (simp add: acknowledges_def ex_put_client_def size_ok_def accepts_def ex_upload_def ex_one_block upto.simps
      wrq_answer_def ack_due_def ack_dgram_def stale_ack_def AckPacket_def MAX_RETRIES_def)

theorem upload_completes_witness:
  "\<exists>s'. Client_Write ex_put_client = Some (Inr (), s')
     \<and> data_raw 1 ex_content \<in> set (sent_to ex_server (outbox s'))"
  using upload_completes [OF ex_put_acknowledges] ex_client_ok
  by (auto simp: ex_put_client_def ex_upload_def ex_one_block client_ok_def size_ok_def)

text \<open>
  C13. A write request without tsize for a new file succeeds when the blocks arrive in order, even
  though before each of them up to four receives time out or bring a datagram of a stranger, an
  earlier block once more or another packet that is no ERROR: the handler returns normally, having
  received exactly these datagrams, and the file holds what was sent, in NETASCII mode the text it
  decodes to, wherever the blocks were cut.
  There are at most 65535 blocks, and there is room for them; a text does not end with an empty
  block and has no LF or NUL after a CR NUL.
\<close>

theorem wrq_completes:
  assumes "ReadWritePacket_ctor_raw raw = Inr p"
    and "storable (data_format (rw_mode p)) (nat (request_bs p)) c"
    and "writable s (request_path s p)" "blksize s = 512"
    and "\<forall>opt \<in> set (rw_options p). opt_name opt \<noteq> TSIZE"
    and "may_store (fsys s) (canonical_of (fsys s) (request_path s p)) (length c)"
    and "sigint_at s = None" "65468 \<le> maxPacketSize s"
    and "arrives (client_address s) (data_due (maxPacketSize s) (nat (request_bs p)) 1
           (blocks (nat (request_bs p)) c)) 0 rest (inbox s)"
    and "length (blocks (nat (request_bs p)) c) \<le> 65535"
  shows "\<exists>s'. FollowOnWRQ raw s = Some (Inr (), s') \<and> inbox s' = rest
     \<and> nodes (fsys s') (canonical_of (fsys s) (request_path s p)) =
         Some (FileN (local_text (data_format (rw_mode p)) c))"
  using FollowOnWRQ_completes [OF assms] .

lemma ex_put_room: "length d \<le> 1000 \<Longrightarrow> may_store ex_fs [''srv'', ''new''] (length d)"
  by (simp add: may_store_def ex_fs_def)

text \<open>A text of one line and a half, in blocks of eight bytes; the first one ends with a CR.\<close>

definition ex_text :: bytes where
  "ex_text = [84, 101, 120, 116, 32, 111, 102, CR, LF, 111, 110, 101, CR, NUL, 33]"

definition ex_text_request :: read_write_packet where
  "ex_text_request = \<lparr>rw_opcode = WRQ, rw_filepath = ''new'', rw_mode = NETASCII,
     rw_options = [ex_option ''blksize'' ''8'']\<rparr>"

lemma ex_text_facts [simp]:
  "ReadWritePacket_ctor_raw (ex_raw ex_text_request) = Inr ex_text_request"
  "data_format (rw_mode ex_text_request) = DF_NETASCII" "request_bs ex_text_request = 8"
  "\<forall>opt \<in> set (rw_options ex_text_request). opt_name opt \<noteq> TSIZE"
  "request_path (ex_session evs) ex_text_request = ''/srv/new''"
proof -
  have "wf_request ex_text_request" by code_simp
  then show "ReadWritePacket_ctor_raw (ex_raw ex_text_request) = Inr ex_text_request" by (rule ex_parse)
  show "request_path (ex_session evs) ex_text_request = ''/srv/new''"
    by (simp add: request_path_def ex_text_request_def)
qed (code_simp+)

text \<open>The first block is received twice.\<close>

definition ex_text_server :: client_handler where
  "ex_text_server = ex_session (map (Datagram ex_client)
     [data_raw 1 (take 8 ex_text), data_raw 1 (take 8 ex_text), data_raw 2 (drop 8 ex_text)])"

lemma ex_text_arrives: "arrives ex_client (data_due 65500 8 1 (blocks 8 ex_text)) 0 [] (inbox ex_text_server)"
proof -
  have "length ex_text = 15" by (simp add: ex_text_def)
  then have "blocks 8 ex_text = [take 8 ex_text, drop 8 ex_text]" by (simp add: blocks_long blocks_short)
  then show ?thesis
    by (simp add: ex_text_server_def stale_data_def data_raw_parse MAX_RETRIES_def)
qed

theorem wrq_completes_witness:
  "\<exists>s'. FollowOnWRQ (ex_raw ex_text_request) ex_text_server = Some (Inr (), s')
     \<and> nodes (fsys s') [''srv'', ''new''] =
         Some (FileN [84, 101, 120, 116, 32, 111, 102, LF, 111, 110, 101, CR, 33])"
proof -
  have l: "length ex_text = 15" by (simp add: ex_text_def)
  have n: "no_false_pair ex_text" and t: "local_text DF_NETASCII ex_text =
      [84, 101, 120, 116, 32, 111, 102, LF, 111, 110, 101, CR, 33]"
    by (simp_all add: ex_text_def local_text_def netascii_bytes)
  from n have "storable DF_NETASCII 8 ex_text" by (simp add: storable_def l)
  note this t
  moreover have "writable ex_text_server ''/srv/new''"
    using ex_put_writable(1) by (simp add: writable_def ex_text_server_def ex_put_server_def ex_store_def)
  moreover have "length (blocks 8 ex_text) \<le> 65535" "length ex_text \<le> 1000"
    by (simp_all add: length_blocks l)
  ultimately show ?thesis
    using wrq_completes [of "ex_raw ex_text_request" ex_text_request ex_text ex_text_server "[]"]
      ex_put_room [of ex_text] ex_text_arrives
    by (auto simp: ex_text_server_def ex_put_writable(2))
qed

section \<open>From one side to the other\<close>

text \<open>
  C5. A download of the client from the server: when the client returns normally, every datagram
  it received from the port of the server is one the server's handler sent (any number of times,
  in any order, some not at all), and both sides use the same block size, then the destination
  holds the content of the requested file; whether the server's handler has returned normally
  does not matter.
\<close>

theorem download_copies_file:
  assumes "FollowOnRRQ raw sh = Some (r, sh')" "ReadWritePacket_ctor_raw raw = Inr p" "rw_mode p = OCTET"
    and "readable sh (request_path sh p) c" "blksize sh = 512" "sent_to (client_address sh) (outbox sh) = []"
    and "Client_Read sc = Some (Inr (), sc')" "client_ok sc" "arg_file_mode (args sc) = OCTET"
    and "65468 \<le> maxPacketSize sc"
    and "carried (\<lambda>a. sin_port a = sin_port (server_address sc'))
           (sent_to (client_address sh) (outbox sh')) (inbox sc)"
    and "uint (cl_blksize sc') = request_bs p"
  shows "nodes (fsys sc') (download_path sc) = Some (FileN c)"
  using download_end_to_end [OF assms] .

theorem download_copies_file_witness:
  "\<exists>sh' sc'. FollowOnRRQ (ex_raw ex_get) ex_get_server = Some (Inr (), sh')
     \<and> Client_Read ex_get_client = Some (Inr (), sc')
     \<and> nodes (fsys sc') [''srv'', ''copy''] = nodes (fsys ex_get_server) [''srv'', ''hello'']"
proof -
  obtain sh' where h: "FollowOnRRQ (ex_raw ex_get) ex_get_server = Some (Inr (), sh')"
    "sent_to ex_client (outbox sh') = data_raws 1 [ex_content]"
    using FollowOnRRQ_cooperative [OF ex_get_facts(1,2) ex_get_readable, of "[]"]
      all_acks_arrive [of ex_client 65500 "[]" 1 0 "[]"]
    by (auto simp: ex_get_server_def ex_one_block)
  obtain sc' where c: "Client_Read ex_get_client = Some (Inr (), sc')" "cl_blksize sc' = 512"
    using Client_Read_completes [OF ex_get_serves(1) _ ex_get_serves(2)] by (auto simp: ex_get_client_def)
  have "nodes (fsys sc') (download_path ex_get_client) = Some (FileN ex_content)"
    by (rule download_copies_file [OF h(1) ex_get_facts(1,2) ex_get_readable _ _ c(1)])
      (simp_all add: ex_get_client_def ex_client_ok c(2) carried_def h(2) ex_get_server_def)
  moreover have "nodes (fsys ex_get_server) [''srv'', ''hello''] = Some (FileN ex_content)"
    by (simp add: ex_get_server_def) (simp add: ex_fs_def)
  ultimately show ?thesis using h(1) c(1) ex_get_serves(3) by auto
qed

text \<open>
  C6. An upload of the client to the server: when the server's handler returns normally, every
  datagram it received from the client is one the client sent (any number of times, in any order,
  some not at all), and both sides use the same block size, then the new file holds the standard
  input of the client, fewer than 65536 blocks; whether the client has returned normally does not
  matter.
\<close>

theorem upload_copies_file:
  assumes "Client_Write sc = Some (r, sc')" "client_ok sc" "arg_file_mode (args sc) = OCTET"
    and "good_stream (std_in sc)" "sent_to (server_address sc') (outbox sc) = []"
    and "FollowOnWRQ raw sh = Some (Inr (), sh')" "ReadWritePacket_ctor_raw raw = Inr p"
    and "rw_mode p = OCTET" "blksize sh = 512" "65468 \<le> maxPacketSize sh"
    and "carried (\<lambda>a. a = client_address sh) (sent_to (server_address sc') (outbox sc')) (inbox sh)"
    and "uint (cl_blksize sc') = request_bs p"
    and "length (upload_blocks sc' (st_rest (std_in sc))) < 65536"
  shows "nodes (fsys sh') (canonical_of (fsys sh) (request_path sh p)) = Some (FileN (st_rest (std_in sc)))"
  using upload_end_to_end [OF assms] .

theorem upload_copies_file_witness:
  "\<exists>sc' sh'. Client_Write ex_put_client = Some (Inr (), sc')
     \<and> FollowOnWRQ (ex_raw ex_store) ex_put_server = Some (Inr (), sh')
     \<and> nodes (fsys sh') [''srv'', ''new''] = Some (FileN (st_rest (std_in ex_put_client)))"
proof -
  obtain sc' where c: "Client_Write ex_put_client = Some (Inr (), sc')" "cl_blksize sc' = 512" "server sc' = ex_server"
    using Client_Write_completes [OF ex_put_acknowledges] by (auto simp: ex_put_client_def ex_upload_def)
  have ok: "client_ok ex_put_client" "arg_file_mode (args ex_put_client) = OCTET" "std_in ex_put_client = stream_of ex_content"
    using ex_client_ok [of "[]"] by (simp_all add: ex_put_client_def ex_upload_def client_ok_def size_ok_def)
  have "upload_outcome ex_put_client ex_content (Inr ()) sc'"
    using wlpD [OF Client_Write_octet [OF ok(1,2)] c(1)] ok(3) by simp
  then have sent: "data_raw 1 ex_content \<in> set (sent_to ex_server (outbox sc'))"
    by (auto simp: upload_outcome_def upload_blocks_def c(2,3) ex_one_block)
  obtain sh' where h: "FollowOnWRQ (ex_raw ex_store) ex_put_server = Some (Inr (), sh')"
    using FollowOnWRQ_completes [OF ex_store_facts(1) _ ex_put_writable(1), of ex_content "[]"] ex_put_room [of ex_content]
    by (auto simp: storable_def data_format_def ex_put_server_def ex_put_writable(2) ex_one_block)
  have "nodes (fsys sh') (canonical_of (fsys ex_put_server) (request_path ex_put_server ex_store)) =
      Some (FileN (st_rest (std_in ex_put_client)))"
    by (rule upload_copies_file [OF c(1) ok(1,2) _ _ h ex_store_facts(1,2)])
      (use sent in \<open>simp_all add: ok(3) c(2,3) carried_def ex_put_server_def ex_put_client_def
        upload_blocks_def ex_one_block\<close>)
  then show ?thesis
    using c(1) h by (auto simp: ex_put_server_def ex_put_writable(2))
qed

section \<open>Both programs together\<close>

text \<open>
  C15. A download without options can always be done: for a client that has not run yet, a new
  session of the server, a file of fewer than 65536 blocks of 512 bytes, which the server can read,
  and room for it at the client, there are deliveries to both, of nothing but packets the other
  side sends, with which both programs return normally and the file is copied.
\<close>

theorem download_exchange:
  assumes "plain_client sc" "outbox sc = []" "wf_request (plain_request RRQ (arg_filepath (args sc)))"
    and "may_store (fsys sc) (download_path sc) (length c)"
    and "new_session sh" "readable sh (request_path sh (plain_request RRQ (arg_filepath (args sc)))) c"
    and "length (blocks 512 c) < 65536" "sin_addr a = sin_addr (server_address sc)"
  shows "\<exists>evh evc sh' sc'. FollowOnRRQ (rrq_raw sc) (sh\<lparr>inbox := evh\<rparr>) = Some (Inr (), sh')
     \<and> Client_Read (sc\<lparr>inbox := evc\<rparr>) = Some (Inr (), sc')
     \<and> nodes (fsys sc') (download_path sc) = Some (FileN c)
     \<and> all_sent (client_address sh) (sent_to a (outbox sc')) evh
     \<and> all_sent a (sent_to (client_address sh) (outbox sh')) evc"
proof -
  let ?evh = "map (ack_dgram (client_address sh)) [1..int (length (blocks 512 c))]"
  let ?evc = "map (Datagram a) (data_raws 1 (blocks 512 c))"
  have "rrq_raw (sc\<lparr>inbox := ?evc\<rparr>) = rrq_raw sc" "download_path (sc\<lparr>inbox := ?evc\<rparr>) = download_path sc"
    "plain_client (sc\<lparr>inbox := ?evc\<rparr>)" "new_session (sh\<lparr>inbox := ?evh\<rparr>)"
    "request_path (sh\<lparr>inbox := ?evh\<rparr>) p = request_path sh p"
    "readable (sh\<lparr>inbox := ?evh\<rparr>) f c = readable sh f c" for p f
    using assms by (simp_all add: request_raw_def download_path_def plain_client_def new_session_def request_path_def readable_def)
  with download_exchange_run [of "sc\<lparr>inbox := ?evc\<rparr>" c "sh\<lparr>inbox := ?evh\<rparr>" a] assms
  obtain sh' sc' where x: "FollowOnRRQ (rrq_raw sc) (sh\<lparr>inbox := ?evh\<rparr>) = Some (Inr (), sh')"
    "Client_Read (sc\<lparr>inbox := ?evc\<rparr>) = Some (Inr (), sc')" "nodes (fsys sc') (download_path sc) = Some (FileN c)"
    "sent_to (client_address sh) (outbox sh') = data_raws 1 (blocks 512 c)"
    "ack_raw ` {1..int (length (blocks 512 c))} \<subseteq> set (sent_to a (outbox sc'))"
    by auto
  then show ?thesis using all_sent_acks [OF x(5)] all_sent_datas [of 1 "blocks 512 c"] by fastforce
qed

text \<open>A client without options.\<close>

definition ex_plain :: "string \<Rightarrow> tftp_client" where
  "ex_plain dest = (ex_tftp_client [])\<lparr>args := ex_args\<lparr>arg_options := [], arg_dest_filepath := dest\<rparr>\<rparr>"

lemma ex_plain_facts [simp]:
  "plain_client (ex_plain dest)" "outbox (ex_plain dest) = []" "arg_dest_filepath (args (ex_plain dest)) = dest"
  "arg_filepath (args (ex_plain dest)) = ''hello''" "fsys (ex_plain dest) = ex_fs"
  "server_address (ex_plain dest) = ex_server" "std_in (ex_plain dest) = stream_of ex_content"
  by (simp_all add: ex_plain_def plain_client_def) (simp add: ex_args_def)

lemma ex_plain_requests:
  "plain_request RRQ ''hello'' = ex_get" "wf_request ex_get"
  "plain_request WRQ ''new'' = ex_store" "wf_request ex_store"
  "new_session (ex_session [])"
  by (simp add: plain_request_def ex_get_def ex_request_def, code_simp,
      simp add: plain_request_def ex_store_def ex_request_def, code_simp, simp add: new_session_def)

theorem download_exchange_witness:
  "\<exists>evh evc sh' sc'. FollowOnRRQ (rrq_raw (ex_plain ''/srv/copy'')) ((ex_session [])\<lparr>inbox := evh\<rparr>) = Some (Inr (), sh')
     \<and> Client_Read ((ex_plain ''/srv/copy'')\<lparr>inbox := evc\<rparr>) = Some (Inr (), sc')
     \<and> nodes (fsys sc') [''srv'', ''copy''] = Some (FileN ex_content)"
proof -
  have p: "download_path (ex_plain ''/srv/copy'') = [''srv'', ''copy'']"
    by (simp add: download_path_def) (simp add: ex_fs_def)
  have "may_store ex_fs [''srv'', ''copy''] (length ex_content)"
    by (simp add: may_store_def) (simp add: ex_fs_def)
  moreover have "readable (ex_session []) (request_path (ex_session []) ex_get) ex_content"
    using ex_get_readable by (simp add: readable_def ex_get_server_def request_path_def)
  ultimately show ?thesis
    using download_exchange [of "ex_plain ''/srv/copy''" ex_content "ex_session []" ex_server] p ex_plain_requests
    by (auto simp: ex_one_block)
qed

text \<open>
  C16. An upload without options can always be done: for a client that has not run yet, a new
  session of the server, a readable standard input of at most 65535 blocks of 512 bytes, a path
  that is writable and room at the server, there are deliveries to both, of nothing but packets
  the other side sends, with which both programs return normally and the new file holds the
  standard input.
\<close>

theorem upload_exchange:
  assumes "plain_client sc" "outbox sc = []" "wf_request (plain_request WRQ (arg_dest_filepath (args sc)))"
    and "good_stream (std_in sc)" "c = st_rest (std_in sc)" "f = request_path sh (plain_request WRQ (arg_dest_filepath (args sc)))"
    and "new_session sh" "writable sh f" "may_store (fsys sh) (canonical_of (fsys sh) f) (length c)"
    and "length (blocks 512 c) \<le> 65535" "sin_addr a = sin_addr (server_address sc)"
  shows "\<exists>evh evc sh' sc'. FollowOnWRQ (wrq_raw sc) (sh\<lparr>inbox := evh\<rparr>) = Some (Inr (), sh')
     \<and> Client_Write (sc\<lparr>inbox := evc\<rparr>) = Some (Inr (), sc')
     \<and> nodes (fsys sh') (canonical_of (fsys sh) f) = Some (FileN c)
     \<and> all_sent (client_address sh) (sent_to a (outbox sc')) evh
     \<and> all_sent a (sent_to (client_address sh) (outbox sh')) evc"
proof -
  let ?evh = "map (Datagram (client_address sh)) (data_raws 1 (blocks 512 c))"
  let ?evc = "map (ack_dgram a) [0..int (length (blocks 512 c))]"
  have "wrq_raw (sc\<lparr>inbox := ?evc\<rparr>) = wrq_raw sc"
    "plain_client (sc\<lparr>inbox := ?evc\<rparr>)" "new_session (sh\<lparr>inbox := ?evh\<rparr>)"
    "request_path (sh\<lparr>inbox := ?evh\<rparr>) p = request_path sh p"
    "writable (sh\<lparr>inbox := ?evh\<rparr>) f = writable sh f" for p f
    using assms by (simp_all add: request_raw_def plain_client_def new_session_def request_path_def writable_def)
  with upload_exchange_run [of "sc\<lparr>inbox := ?evc\<rparr>" "sh\<lparr>inbox := ?evh\<rparr>" a] assms
  obtain sh' sc' where x: "FollowOnWRQ (wrq_raw sc) (sh\<lparr>inbox := ?evh\<rparr>) = Some (Inr (), sh')"
    "Client_Write (sc\<lparr>inbox := ?evc\<rparr>) = Some (Inr (), sc')"
    "nodes (fsys sh') (canonical_of (fsys sh) f) = Some (FileN c)"
    "set (data_raws 1 (blocks 512 c)) \<subseteq> set (sent_to a (outbox sc'))"
    "ack_raw ` {0..int (length (blocks 512 c))} \<subseteq> set (sent_to (client_address sh) (outbox sh'))"
    by auto
  then show ?thesis using all_sent_acks [OF x(5)] all_sent_datas [OF x(4)] by fastforce
qed

theorem upload_exchange_witness:
  "\<exists>evh evc sh' sc'. FollowOnWRQ (wrq_raw (ex_plain ''new'')) ((ex_session [])\<lparr>inbox := evh\<rparr>) = Some (Inr (), sh')
     \<and> Client_Write ((ex_plain ''new'')\<lparr>inbox := evc\<rparr>) = Some (Inr (), sc')
     \<and> nodes (fsys sh') [''srv'', ''new''] = Some (FileN ex_content)"
proof -
  have "writable (ex_session []) ''/srv/new''"
    using ex_put_writable(1) by (simp add: writable_def ex_put_server_def)
  then show ?thesis
    using upload_exchange [of "ex_plain ''new''" ex_content "''/srv/new''" "ex_session []" ex_server]
      ex_plain_requests ex_put_writable(2) ex_put_room [of ex_content]
    by (auto simp: ex_one_block)
qed

end
