(* ===== verification/TextProperties.thy ===== *)
theory TextProperties
  imports Completion Examples
begin

text \<open>
  The properties of text transfers: the writer block by block against the decoding of the whole
  stream, and the reader.
\<close>

section \<open>The writer\<close>

text \<open>
  C28. Writing in NETASCII format block by block, wherever a line end is cut, stores the same as
  decoding the whole stream at once: with room for it, no empty block, and no LF or NUL after
  a CR NUL, the writer opens the file, writes all blocks without an exception, and when it is
  destroyed the file holds the decoded stream, and no other file has changed.
\<close>

theorem netascii_writer_equiv:
  assumes "bs \<noteq> []" "\<forall>b \<in> set bs. b \<noteq> []" "no_false_pair (concat bs)"
    and "may_store (fsys s) (canonical_of (fsys s) f) (length (concat bs))"
  shows "\<exists>s'. seq (Writer_ctor f DF_NETASCII) (scoped (for_each bs Writer_WriteFile) Writer_dtor) s
       = Some (Inr (), s')
     \<and> nodes (fsys s') = (nodes (fsys s))
         (canonical_of (fsys s) f \<mapsto> FileN (FormatFromNETASCII (concat bs)))"
    (is "\<exists>s'. ?run = _ \<and> ?P s'")
proof -
  let ?s0 = "s\<lparr>the_writer := \<lparr>w_filepath = f, w_mode = DF_NETASCII, w_open = False, w_fail = False,
    w_tbw_later_buffer = []\<rparr>\<rparr>"
  have t: "text_written ?s0 [] (length (concat bs) + 0)"
    using assms(4) by (simp add: text_written_def may_store_def Let_def)
  have "wlp (scoped (for_each bs Writer_WriteFile) Writer_dtor) (\<lambda>r s'. r = Inr () \<and> ?P s') ?s0"
    unfolding wlp_scoped
  proof (rule wlp_mono [OF text_written_blocks [OF t assms(2)]], goal_cases)
    case (2 r s1)
    then have s1: "text_written s1 (concat bs) 0" "w_open (the_writer s1)" "sink_frame ?s0 s1" "r = Inr ()" by simp_all
    have "wlp Writer_dtor (\<lambda>r' s'. r' = Inr () \<and> ?P s') s1"
    proof (rule wlp_mono [OF text_written_close [OF s1(1,2) assms(3)]], goal_cases)
      case (1 r' s')
      then have "sink_frame ?s0 s'" using s1(3) by (auto intro: sink_frame_trans)
      with 1 s1(3) show ?case by (auto simp: sink_frame_def fun_eq_iff)
    qed
    then show ?case using s1(4) by (auto elim!: wlp_mono)
  qed (use assms(1) in simp)
  then have "wlp (seq (Writer_ctor f DF_NETASCII) (scoped (for_each bs Writer_WriteFile) Writer_dtor))
      (\<lambda>r s'. r = Inr () \<and> ?P s') s"
    by (simp del: wlp_scoped)
  moreover have "returns (for_each bs Writer_WriteFile) s1" for s1 :: "'a world_scheme"
    by (rule returns_for_each) simp
  then have "returns (seq (Writer_ctor f DF_NETASCII) (scoped (for_each bs Writer_WriteFile) Writer_dtor)) s"
    by (simp add: wlp_def split: option.split sum.split stop.split)
  ultimately show ?thesis unfolding returns_iff by (blast dest: wlpD)
qed

theorem netascii_writer_equiv_witness:
  "\<exists>s'. seq (Writer_ctor ''/srv/new'' DF_NETASCII)
       (scoped (for_each [[65, CR], [LF, 66, CR], [NUL], [67]] Writer_WriteFile) Writer_dtor) (ex_world [])
     = Some (Inr (), s') \<and> nodes (fsys s') [''srv'', ''new''] = Some (FileN [65, LF, 66, CR, 67])"
proof -
  have c: "canonical_of ex_fs ''/srv/new'' = [''srv'', ''new'']" by code_simp
  have "may_store ex_fs [''srv'', ''new''] (length (concat [[65, CR], [LF, 66, CR], [NUL], [67]]))" by (simp add: may_store_def ex_fs_def)
  then show ?thesis
    using netascii_writer_equiv [of "[[65, CR], [LF, 66, CR], [NUL], [67]]" "ex_world []" "''/srv/new''"]
    by (auto simp: ex_world_def c netascii_bytes simp del: for_each.simps)
qed

section \<open>The reader\<close>



end
