(* ===== verification/Spec2Isabelle.thy ===== *)
theory Spec2Isabelle
  imports PacketProperties ServerProperties ClientProperties SystemProperties ThreadProperties
    TransferProperties TextProperties
begin

text \<open>
  A model of the TFTP client and server of this repository (src/src), with the theorems that make
  it correct.

  The programs. The server listens on a UDP socket; each datagram starts a thread, which runs one
  session: a read request (the file is sent in numbered DATA packets, each acknowledged before the
  next) or a write request. The client is started with a command line and runs one transfer: a
  download to a file, or an upload of its standard input. Both share the packet classes, the
  file and text handling, and the UDP socket with its timeout.

  Foundations.

  \<^item> \<open>Prelude\<close>: bytes, strings, the big-endian 16-bit fields, and the functions of the C and C++
    libraries the sources call on strings (\<open>stoi\<close>, \<open>stoll\<close>, \<open>stoull\<close>, \<open>to_string\<close>, \<open>tolower\<close>).
  \<^item> \<open>Prog\<close>: the exception classes as one datatype \<open>exn\<close>, the ways a run stops (\<open>stop\<close>), the
    combinators for sequencing, \<open>try\<close>/\<open>catch\<close>, destructors and \<open>while\<close>, and the weakest liberal
    precondition \<open>wlp\<close> with the termination judgement \<open>returns\<close>. A program maps a state to
    \<open>None\<close> if it never returns. There is no fuel: \<open>while_m\<close> is a \<open>partial_function\<close>, and
    that a loop returns is proved.

  The code, in the order of its layers.

  \<^item> \<open>TftpOption\<close>, \<open>Packets\<close>, \<open>OptionPackets\<close>: src/common/TftpPacketStuff. The locale
    \<open>packet_codec\<close> is the contract of a packet class (serialiser and parser); it is interpreted on
    all six kinds of packets and on the packet factory.
  \<^item> \<open>Netascii\<close>, \<open>FileSystem\<close>, \<open>FileIO\<close>: src/common/IO. The locales \<open>block_source\<close> and
    \<open>block_sink\<close> are what the transfers use of \<open>Reader\<close>, \<open>StdHandler\<close> and \<open>Writer\<close>.
  \<^item> \<open>Udp\<close>: the state of a run (record \<open>world\<close>), src/common/udp/UdpClient, src/common/sigint.cpp, and
    the loop that waits for a datagram of the peer. The locale \<open>consuming_loop\<close> is the
    termination argument of the waiting loops.
  \<^item> \<open>Logger\<close>: src/common/logger.h and \<open>LogPotentialTftpPacket\<close>, as the text that is printed, and the
    messages of the exceptions.
  \<^item> \<open>ClientHandler\<close>: src/tftp-server/ClientHandler.cpp, one session of the server.
  \<^item> \<open>TftpClient\<close>: src/tftp-client/TftpClient.cpp, Read.cpp and Write.cpp, one run of the client.
  \<^item> \<open>ServerLoop\<close>: src/tftp-server/TftpServer.cpp and src/common/udp/UdpServer, the listening loop,
    and the sessions of a server one after the other as a step relation (\<open>server_step\<close>, \<open>server_runs\<close>).
  \<^item> \<open>Threads\<close>: the sessions as threads that interleave on the files they share, with one step for each
    call of a handler that reads or changes the file system (\<open>session_step\<close>, \<open>threads_step\<close>).
  \<^item> \<open>CommandLine\<close>: src/tftp-client/main.cpp and src/tftp-server/main.cpp.

  What holds of every run, whatever the network does.

  \<^item> \<open>Waiting\<close>, \<open>Receiving\<close>: what the waiting loops of both programs share: the frame of a round,
    the record of what the peer acknowledged, the blocks that arrived, the invariant of receiving.
  \<^item> \<open>SessionLemmas\<close>, \<open>ReadRequest\<close>, \<open>WriteRequest\<close>, \<open>Session\<close>: the session, from the waiting rounds
    up to the handlers of RRQ and WRQ and the error report.
  \<^item> \<open>ClientLemmas\<close>, \<open>Upload\<close>, \<open>Download\<close>: the same for the client.
  \<^item> \<open>Confinement\<close>: a session changes no path but the one its request names.
  \<^item> \<open>ThreadRefinement\<close>: a session of the detailed model is a run of its thread, and a server that runs
    its sessions one after the other is a schedule of \<open>threads_step\<close>. The invariants of all schedules
    are in \<open>Threads\<close>: no path outside of the root changes, files that nobody stores stay, and uploads
    that do not meet cannot disturb each other.
  \<^item> \<open>NetasciiTransfer\<close>: text block by block, against the conversion of the whole.
  \<^item> \<open>EndToEnd\<close>: the client against the server; what one side receives was sent by the other.

  What holds of the runs that can succeed.

  \<^item> \<open>Arrivals\<close>: networks that lose, delay and repeat datagrams (\<open>arrives\<close>): each packet that is waited
    for comes after at most four other events, which are timeouts, datagrams of strangers or
    packets that are not waited for. Four is what the retry limit \<open>MAX_RETRIES\<close> of the sources allows.
  \<^item> \<open>ReadRequest\<close> and \<open>Session\<close> (their last sections), \<open>Completion\<close>, \<open>WriteCompletion\<close>: on such a
    network, and with room for the file, read and write requests, downloads and uploads end
    normally with the file sent or stored.
  \<^item> \<open>Exchange\<close>: runs of both programs in which each receives only what the other has sent.

  The properties. \<open>Examples\<close> has the concrete inputs of the witnesses; the properties are in
  \<open>PacketProperties\<close> (packets, options, paths, the log), \<open>TextProperties\<close> (text files),
  \<open>ServerProperties\<close> (sessions), \<open>ClientProperties\<close> (runs of the client), \<open>SystemProperties\<close>
  (the listening loop, the command lines), \<open>ThreadProperties\<close> (the sessions at the same time, and
  what goes wrong when two uploads of the same name meet) and \<open>TransferProperties\<close> (whole
  transfers, and from one side to the other).

  State. The environment is a part of the state: \<open>inbox\<close> holds the datagrams, timeouts and
  errors \<open>recvfrom\<close> will report, \<open>outbox\<close> what was sent, \<open>sigint_at\<close> the moment SIGINT
  arrives, \<open>fsys\<close> the files. A theorem about every inbox is a theorem about every behaviour of
  the network. A run that waits for more than \<open>inbox\<close> holds stops as \<open>Blocked\<close>.

  Integers. Bytes are \<open>8 word\<close>, block numbers on the wire and in the client \<open>16 word\<close>; the \<open>int\<close>
  variables of the sources (block number and sizes on the server) are \<open>int\<close>; their values stay
  below \<open>2 ^ 31\<close>, because block numbers above 65535 are never acknowledged. Conversions to
  unsigned types are written out.

  Not modelled: the progress lines the handlers log, and the moment at which a line is printed; what
  \<open>PrintUsageAndExit\<close> prints; \<open>LogHexa\<close> and \<open>WriteBytesToStdout\<close>, which nothing calls; failures of
  \<open>setsockopt\<close> on a socket that exists; failures to start a thread; and a file that changes
  while it is being sent: a reader sees the content its file had when it was opened.
\<close>

end
